(* ===== verification/Prelude.thy ===== *)
theory Prelude
  imports Main "HOL-Library.Word" "HOL-Library.AList" "HOL-Library.List_Lexorder"
    "HOL-Library.Char_ord"
begin

text \<open>
  What every component shares: the machine types, the error values, the state-and-error
  computations in which the stateful code is written, little-endian integers, and the
  generic lemmas and fact collections the component theories use.

  A \<open>&mut self\<close> method that can fail is a computation of type \<open>('s, 'a) sio\<close>: it takes
  the state it may change and returns its \<open>Result\<close> together with the state it leaves
  behind. The state is returned on an error too, because the caller of the Rust method
  still holds the object then.
\<close>

unbundle bit_operations_syntax

section \<open>Machine types and errors\<close>

type_synonym u8 = "8 word"
type_synonym u16 = "16 word"
type_synonym u32 = "32 word"
type_synonym u64 = "64 word"

text \<open>
  The errors that reach an \<open>anyhow::Result\<close>: an I/O error of the operating system, an
  input line that is not UTF-8, a value wincode does not serialize, a failed integer
  conversion, the \<open>context(...)\<close> messages, a clock before the epoch, a missing environment
  variable, and the two messages of \<open>Runner::run\<close> and \<open>Log::execute\<close>. \<open>OutOfFuel\<close> is the only value with no
  counterpart in the code: it is what a loop model returns when its fuel runs out.
\<close>

datatype err =
    IoError
  | InvalidUtf8
  | SerializeError
  | TryFromIntError
  | OffsetOverflow
  | FooterTooLarge
  | ShorterThanFooter
  | BitCountOverflow
  | BeforeEpoch
  | QuitInExecute
  | MutexPoisoned
  | VarError
  | OutOfFuel

abbreviation U64_MAX :: nat where
  "U64_MAX \<equiv> 2 ^ 64 - 1"

text \<open>\<open>u64::saturating_add\<close> and \<open>u64::saturating_sub\<close> on values below \<open>2 ^ 64\<close>.\<close>

definition saturating_add :: "nat \<Rightarrow> nat \<Rightarrow> nat" where
  "saturating_add a b = min U64_MAX (a + b)"

definition saturating_sub :: "nat \<Rightarrow> nat \<Rightarrow> nat" where
  "saturating_sub a b = a - b"

text \<open>\<open>checked_add\<close> and \<open>checked_mul\<close> on a 64-bit \<open>u64\<close> or \<open>usize\<close>.\<close>

definition checked_add :: "nat \<Rightarrow> nat \<Rightarrow> nat option" where
  "checked_add a b = (if a + b < 2 ^ 64 then Some (a + b) else None)"

definition checked_mul :: "nat \<Rightarrow> nat \<Rightarrow> nat option" where
  "checked_mul a b = (if a * b < 2 ^ 64 then Some (a * b) else None)"

definition checked_sub :: "nat \<Rightarrow> nat \<Rightarrow> nat option" where
  "checked_sub a b = (if b \<le> a then Some (a - b) else None)"

definition div_ceil :: "nat \<Rightarrow> nat \<Rightarrow> nat" where
  "div_ceil a b = (a + b - 1) div b"

lemma saturating_add_exact: "a + b < 2 ^ 64 \<Longrightarrow> saturating_add a b = a + b"
  by (simp add: saturating_add_def)

lemma checked_add_Some [simp]: "a + b < 2 ^ 64 \<Longrightarrow> checked_add a b = Some (a + b)"
  by (simp add: checked_add_def)

lemma checked_mul_Some [simp]: "a * b < 2 ^ 64 \<Longrightarrow> checked_mul a b = Some (a * b)"
  by (simp add: checked_mul_def)

lemma checked_sub_Some [simp]: "b \<le> a \<Longrightarrow> checked_sub a b = Some (a - b)"
  by (simp add: checked_sub_def)

section \<open>State and errors\<close>

type_synonym ('s, 'a) sio = "'s \<Rightarrow> (err + 'a) \<times> 's"

definition ret :: "'a \<Rightarrow> ('s, 'a) sio" where
  "ret x s = (Inr x, s)"

definition throw :: "err \<Rightarrow> ('s, 'a) sio" where
  "throw e s = (Inl e, s)"

text \<open>Sequencing with \<open>?\<close>: an error ends the computation and keeps the state reached.\<close>

definition bindS :: "('s, 'a) sio \<Rightarrow> ('a \<Rightarrow> ('s, 'b) sio) \<Rightarrow> ('s, 'b) sio" where
  "bindS m k s = (case m s of (Inl e, t) \<Rightarrow> (Inl e, t) | (Inr x, t) \<Rightarrow> k x t)"

text \<open>\<open>ok_or\<close> / \<open>context\<close>: an \<open>Option\<close> as a \<open>Result\<close>; a pure \<open>Result\<close> as a computation.\<close>

definition of_option :: "err \<Rightarrow> 'a option \<Rightarrow> ('s, 'a) sio" where
  "of_option e x s = (case x of None \<Rightarrow> (Inl e, s) | Some y \<Rightarrow> (Inr y, s))"

definition of_result :: "err + 'a \<Rightarrow> ('s, 'a) sio" where
  "of_result r s = (r, s)"

text \<open>A computation on one component of a pair, as a method call on a field.\<close>

definition on_fst :: "('a, 'x) sio \<Rightarrow> ('a \<times> 'b, 'x) sio" where
  "on_fst m s = (case m (fst s) of (r, t) \<Rightarrow> (r, (t, snd s)))"

definition on_snd :: "('b, 'x) sio \<Rightarrow> ('a \<times> 'b, 'x) sio" where
  "on_snd m s = (case m (snd s) of (r, t) \<Rightarrow> (r, (fst s, t)))"

text \<open>
  A computation that owns a local value (an opened file, an \<open>SSTable\<close>): the local value is
  dropped when the computation ends.
\<close>

definition with_local :: "'l \<Rightarrow> ('l \<times> 's, 'x) sio \<Rightarrow> ('s, 'x) sio" where
  "with_local l m s = (case m (l, s) of (r, (_, t)) \<Rightarrow> (r, t))"

lemma ret_apply [simp]: "ret x s = (Inr x, s)"
  by (simp add: ret_def)

lemma throw_apply [simp]: "throw e s = (Inl e, s)"
  by (simp add: throw_def)

lemma of_option_apply [simp]:
  "of_option e (Some y) s = (Inr y, s)"
  "of_option e None s = (Inl e, s)"
  by (simp_all add: of_option_def)

lemma of_result_apply [simp]: "of_result r s = (r, s)"
  by (simp add: of_result_def)

lemma bindS_assoc: "bindS (bindS m k) h = bindS m (\<lambda>x. bindS (k x) h)"
  by (rule ext) (auto simp: bindS_def split: prod.splits sum.splits)

lemma bindS_ret_left: "bindS (ret x) k = k x"
  by (rule ext) (simp add: bindS_def ret_def)

lemma bindS_Inr: "m s = (Inr x, t) \<Longrightarrow> bindS m k s = k x t"
  by (simp add: bindS_def)

lemma bindS_ret [simp]: "bindS (ret x) k s = k x s"
  by (simp add: bindS_def)

lemma bindS_throw [simp]: "bindS (throw e) k s = (Inl e, s)"
  by (simp add: bindS_def)

lemma bindS_of_result [simp]:
  "bindS (of_result (Inr x)) k s = k x s"
  "bindS (of_result (Inl e)) k s = (Inl e, s)"
  by (simp_all add: bindS_def)

lemma bindS_of_option [simp]:
  "bindS (of_option e (Some x)) k s = k x s"
  "bindS (of_option e None) k s = (Inl e, s)"
  by (simp_all add: bindS_def)

lemma bindS_cong [fundef_cong]:
  "s = s' \<Longrightarrow> m s' = m' s' \<Longrightarrow> (\<And>x t. m' s' = (Inr x, t) \<Longrightarrow> k x t = k' x t)
     \<Longrightarrow> bindS m k s = bindS m' k' s'"
  by (auto simp: bindS_def split: prod.splits sum.splits)

lemma bindS_InrE:
  assumes "bindS m k s = (Inr y, u)"
  obtains x t where "m s = (Inr x, t)" and "k x t = (Inr y, u)"
  using assms by (auto simp: bindS_def split: prod.splits sum.splits)

lemma with_local_apply: "m (l, s) = (r, (l', t)) \<Longrightarrow> with_local l m s = (r, t)"
  by (simp add: with_local_def)

section \<open>Frame reasoning\<close>

text \<open>
  \<open>keeps R m\<close>: whatever \<open>m\<close> returns, error or value, the state it leaves is \<open>R\<close>-related
  to the state it got. With a reflexive and transitive \<open>R\<close> the rules below carry it through
  a composed computation; the component theories add their own operations to \<open>keeps_rules\<close>.
\<close>

named_theorems keeps_rules "operations that keep a relation between states"

definition keeps :: "('s \<Rightarrow> 's \<Rightarrow> bool) \<Rightarrow> ('s, 'a) sio \<Rightarrow> bool" where
  "keeps R m \<longleftrightarrow> (\<forall>s. R s (snd (m s)))"

lemma keepsD: "keeps R m \<Longrightarrow> m s = (r, t) \<Longrightarrow> R s t"
  by (metis keeps_def snd_conv)

lemma keeps_ret: "reflp R \<Longrightarrow> keeps R (ret x)"
  by (simp add: keeps_def reflp_def)

lemma keeps_throw: "reflp R \<Longrightarrow> keeps R (throw e)"
  by (simp add: keeps_def reflp_def)

lemma keeps_of_option: "reflp R \<Longrightarrow> keeps R (of_option e x)"
  by (cases x) (simp_all add: keeps_def reflp_def)

lemma keeps_of_result: "reflp R \<Longrightarrow> keeps R (of_result x)"
  by (simp add: keeps_def reflp_def)

lemma keeps_bindS:
  assumes "transp R" and "keeps R m" and "\<And>x. keeps R (k x)"
  shows "keeps R (bindS m k)"
  unfolding keeps_def
proof
  fix s
  obtain r t where m: "m s = (r, t)" by fastforce
  then have st: "R s t" using assms(2) by (blast dest: keepsD)
  show "R s (snd (bindS m k s))"
  proof (cases r)
    case (Inl e)
    with m st show ?thesis by (simp add: bindS_def)
  next
    case (Inr x)
    have "R t (snd (k x t))" using assms(3) by (simp add: keeps_def)
    with m st Inr assms(1) show ?thesis by (auto simp: bindS_def dest: transpD)
  qed
qed

section \<open>Little-endian integers\<close>

fun le_bytes :: "nat \<Rightarrow> nat \<Rightarrow> u8 list" where
  "le_bytes 0 x = []"
| "le_bytes (Suc n) x = of_nat (x mod 256) # le_bytes n (x div 256)"

fun le_value :: "u8 list \<Rightarrow> nat" where
  "le_value [] = 0"
| "le_value (b # bs) = unat b + 256 * le_value bs"

lemma le_bytes_numeral:
  "le_bytes (numeral n) x = of_nat (x mod 256) # le_bytes (pred_numeral n) (x div 256)"
  unfolding numeral_eq_Suc [of n] by simp

lemma length_le_bytes [simp]: "length (le_bytes n x) = n"
  by (induction n arbitrary: x) auto

lemma unat_of_nat_mod_256 [simp]: "unat (of_nat (x mod 256) :: u8) = x mod 256"
  by (simp add: unat_of_nat)

lemma le_value_le_bytes: "le_value (le_bytes n x) = x mod 256 ^ n"
proof (induction n arbitrary: x)
  case 0
  then show ?case by simp
next
  case (Suc n)
  have "x mod 256 + 256 * (x div 256 mod 256 ^ n) = x mod (256 * 256 ^ n)"
    by (metis add.commute mod_mult2_eq mult.commute)
  with Suc show ?case by simp
qed

lemma le_value_le_bytes_small [simp]: "x < 256 ^ n \<Longrightarrow> le_value (le_bytes n x) = x"
  by (simp add: le_value_le_bytes)

lemma le_value_bound: "le_value bs < 256 ^ length bs"
proof (induction bs)
  case Nil
  then show ?case by simp
next
  case (Cons b bs)
  have "unat b < 256" using unsigned_less [of b] by simp
  with Cons show ?case by simp
qed

text \<open>\<open>to_le_bytes\<close> and \<open>from_le_bytes\<close> of \<open>u16\<close> and \<open>u32\<close>.\<close>

definition u16_to_le_bytes :: "u16 \<Rightarrow> u8 list" where
  "u16_to_le_bytes w = le_bytes 2 (unat w)"

definition u16_from_le_bytes :: "u8 list \<Rightarrow> u16" where
  "u16_from_le_bytes bs = of_nat (le_value bs)"

definition u32_to_le_bytes :: "u32 \<Rightarrow> u8 list" where
  "u32_to_le_bytes w = le_bytes 4 (unat w)"

definition u32_from_le_bytes :: "u8 list \<Rightarrow> u32" where
  "u32_from_le_bytes bs = of_nat (le_value bs)"

lemma length_u16_to_le_bytes [simp]: "length (u16_to_le_bytes w) = 2"
  by (simp add: u16_to_le_bytes_def)

lemma length_u32_to_le_bytes [simp]: "length (u32_to_le_bytes w) = 4"
  by (simp add: u32_to_le_bytes_def)

lemma u16_le_roundtrip [simp]: "u16_from_le_bytes (u16_to_le_bytes w) = w"
proof -
  have "unat w < 256 ^ 2" using unsigned_less [of w] by simp
  then show ?thesis by (simp add: u16_from_le_bytes_def u16_to_le_bytes_def)
qed

lemma u32_le_roundtrip [simp]: "u32_from_le_bytes (u32_to_le_bytes w) = w"
proof -
  have "unat w < 256 ^ 4" using unsigned_less [of w] by simp
  then show ?thesis by (simp add: u32_from_le_bytes_def u32_to_le_bytes_def)
qed

lemma le_bytes_le_value: "le_bytes (length bs) (le_value bs) = bs"
proof (induction bs)
  case Nil
  then show ?case by simp
next
  case (Cons b bs)
  have "unat b < 256" using unsigned_less [of b] by simp
  with Cons show ?case by simp
qed

lemma u16_le_bytes_value: "length bs = 2 \<Longrightarrow> u16_to_le_bytes (u16_from_le_bytes bs) = bs"
  using le_value_bound [of bs] le_bytes_le_value [of bs]
  by (simp add: u16_to_le_bytes_def u16_from_le_bytes_def unat_of_nat)

lemma u32_le_bytes_value: "length bs = 4 \<Longrightarrow> u32_to_le_bytes (u32_from_le_bytes bs) = bs"
  using le_value_bound [of bs] le_bytes_le_value [of bs]
  by (simp add: u32_to_le_bytes_def u32_from_le_bytes_def unat_of_nat)

section \<open>Lists\<close>

text \<open>\<open><[u8]>::split_first_chunk::<N>\<close> and \<open>get(..n)\<close>.\<close>

definition split_first_chunk :: "nat \<Rightarrow> 'a list \<Rightarrow> ('a list \<times> 'a list) option" where
  "split_first_chunk n xs = (if n \<le> length xs then Some (take n xs, drop n xs) else None)"

definition get_prefix :: "nat \<Rightarrow> 'a list \<Rightarrow> 'a list option" where
  "get_prefix n xs = (if n \<le> length xs then Some (take n xs) else None)"

lemma split_first_chunk_append [simp]:
  "length xs = n \<Longrightarrow> split_first_chunk n (xs @ ys) = Some (xs, ys)"
  by (simp add: split_first_chunk_def)

lemma get_prefix_append [simp]: "length xs = n \<Longrightarrow> get_prefix n (xs @ ys) = Some xs"
  by (simp add: get_prefix_def)

lemma split_first_chunk_Some: "split_first_chunk n xs = Some (a, b) \<longleftrightarrow> xs = a @ b \<and> length a = n"
  by (auto simp: split_first_chunk_def min_def)

lemma get_prefix_Some: "get_prefix n xs = Some a \<longleftrightarrow> (\<exists>b. xs = a @ b) \<and> length a = n"
  by (auto simp: get_prefix_def) (metis append_take_drop_id)

text \<open>\<open>u32::try_from(usize)\<close>.\<close>

definition u32_try_from :: "nat \<Rightarrow> err + u32" where
  "u32_try_from n = (if n < 2 ^ 32 then Inr (of_nat n) else Inl TryFromIntError)"

lemma unat_u32_of_nat [simp]: "n < 2 ^ 32 \<Longrightarrow> unat (of_nat n :: u32) = n"
  by (simp add: unat_of_nat)

lemma u32_try_from_Inr [simp]: "n < 2 ^ 32 \<Longrightarrow> u32_try_from n = Inr (of_nat n)"
  by (simp add: u32_try_from_def)

text \<open>\<open>sort_by_key(|e| Reverse(e.file_name()))\<close> on the listed names.\<close>

definition sort_desc :: "string list \<Rightarrow> string list" where
  "sort_desc ns = rev (sort ns)"

lemma set_sort_desc [simp]: "set (sort_desc ns) = set ns"
  by (simp add: sort_desc_def)

lemma distinct_sort_desc [simp]: "distinct (sort_desc ns) = distinct ns"
  by (simp add: sort_desc_def)

lemma length_sort_desc [simp]: "length (sort_desc ns) = length ns"
  by (simp add: sort_desc_def)

end
