(* ===== verification/World.thy ===== *)
theory World
  imports Prelude
begin

text \<open>
  The part of \<open>std::fs\<close>, \<open>std::io\<close> and \<open>std::time\<close> the store runs on: the files it owns,
  the clock, and open file handles with their cursors.

  The store owns one WAL file and one directory of SSTable files (their paths are arguments
  of \<open>Log::new\<close> and never change, so the model names the files by what they are). A handle
  refers to a file by name and reads what the file holds at that moment. A missing WAL is
  an empty one, which is what opening it with \<open>create(true)\<close> makes of it.

  Every call can fail. The list \<open>faults\<close> says how the calls to come turn out: \<open>None\<close> for a
  success, \<open>Some n\<close> for an error after \<open>n\<close> bytes were transferred (only a write transfers
  bytes before it fails); when the list is used up, every further call succeeds. Because an
  error ends every operation of the program, the files at the first failing call are also
  the files a process killed at that call leaves behind, so a theorem about all \<open>faults\<close>
  is a theorem about all crash points. What the operating system itself loses when the
  machine loses power is not modelled: \<open>sync_all\<close> is a call that can fail, and nothing else.
\<close>

section \<open>State\<close>

datatype fid = Wal | Sst string

record fh =
  fid :: fid
  cur :: nat

record world =
  wal :: "u8 list"
  ssts :: "(string \<times> u8 list) list"
  clock :: "nat \<Rightarrow> int"
  ticks :: nat
  faults :: "nat option list"

fun contents :: "world \<Rightarrow> fid \<Rightarrow> u8 list" where
  "contents w Wal = wal w"
| "contents w (Sst n) = (case map_of (ssts w) n of None \<Rightarrow> [] | Some bs \<Rightarrow> bs)"

fun set_contents :: "fid \<Rightarrow> u8 list \<Rightarrow> world \<Rightarrow> world" where
  "set_contents Wal bs w = w\<lparr>wal := bs\<rparr>"
| "set_contents (Sst n) bs w = w\<lparr>ssts := AList.update n bs (ssts w)\<rparr>"

section \<open>Calls that can fail\<close>

definition pop_fault :: "world \<Rightarrow> nat option \<times> world" where
  "pop_fault w = (case faults w of [] \<Rightarrow> (None, w) | f # fs \<Rightarrow> (f, w\<lparr>faults := fs\<rparr>))"

definition os_call :: "(world, unit) sio" where
  "os_call w = (case pop_fault w of (None, v) \<Rightarrow> (Inr (), v) | (Some _, v) \<Rightarrow> (Inl IoError, v))"

definition create_dir_all :: "(world, unit) sio" where
  "create_dir_all = os_call"

text \<open>
  \<open>fs::read_dir(..)?\<close> and \<open>collect::<Result<Vec<_>, _>>()?\<close>: one call opens the directory,
  one reads it. The names come in the order the directory lists them.
\<close>

definition read_dir :: "(world, string list) sio" where
  "read_dir = bindS os_call (\<lambda>_. bindS os_call (\<lambda>_ w. (Inr (map fst (ssts w)), w)))"

definition remove_file :: "string \<Rightarrow> (world, unit) sio" where
  "remove_file n = bindS os_call (\<lambda>_ w.
     if n \<in> set (map fst (ssts w)) then (Inr (), w\<lparr>ssts := AList.delete n (ssts w)\<rparr>)
     else (Inl IoError, w))"

text \<open>\<open>SystemTime::now().duration_since(UNIX_EPOCH)?.as_micros()\<close>.\<close>

definition now_micros :: "(world, nat) sio" where
  "now_micros w = (let t = clock w (ticks w); v = w\<lparr>ticks := Suc (ticks w)\<rparr>
     in if t < 0 then (Inl BeforeEpoch, v) else (Inr (nat t), v))"

text \<open>\<open>File::open\<close>, and \<open>OpenOptions\<close> with \<open>truncate\<close>, \<open>create\<close> and \<open>write\<close>.\<close>

definition file_open :: "string \<Rightarrow> (world, fh) sio" where
  "file_open n = bindS os_call (\<lambda>_ w.
     if n \<in> set (map fst (ssts w)) then (Inr \<lparr>fid = Sst n, cur = 0\<rparr>, w) else (Inl IoError, w))"

definition open_truncated :: "fid \<Rightarrow> (world, fh) sio" where
  "open_truncated f = bindS os_call (\<lambda>_ w. (Inr \<lparr>fid = f, cur = 0\<rparr>, set_contents f [] w))"

definition open_kept :: "fid \<Rightarrow> (world, fh) sio" where
  "open_kept f = bindS os_call (\<lambda>_ w. (Inr \<lparr>fid = f, cur = 0\<rparr>, w))"

section \<open>Operations on an open file\<close>

type_synonym 'a file_op = "(fh \<times> world, 'a) sio"

definition file_len :: "fh \<times> world \<Rightarrow> nat" where
  "file_len s = length (contents (snd s) (fid (fst s)))"

definition set_cur :: "nat \<Rightarrow> nat file_op" where
  "set_cur n s = (Inr n, ((fst s)\<lparr>cur := n\<rparr>, snd s))"

definition seek_start :: "nat \<Rightarrow> nat file_op" where
  "seek_start n = bindS (on_snd os_call) (\<lambda>_. set_cur n)"

text \<open>\<open>SeekFrom::End(-k)\<close>: seeking before the start of the file is an error.\<close>

definition seek_end :: "nat \<Rightarrow> nat file_op" where
  "seek_end k = bindS (on_snd os_call) (\<lambda>_ s.
     if k \<le> file_len s then set_cur (file_len s - k) s else (Inl IoError, s))"

definition stream_position :: "nat file_op" where
  "stream_position = bindS (on_snd os_call) (\<lambda>_ s. (Inr (cur (fst s)), s))"

definition metadata_len :: "nat file_op" where
  "metadata_len = bindS (on_snd os_call) (\<lambda>_ s. (Inr (file_len s), s))"

definition read_to_end :: "u8 list file_op" where
  "read_to_end = bindS (on_snd os_call) (\<lambda>_ s.
     let bs = drop (cur (fst s)) (contents (snd s) (fid (fst s)))
     in (Inr bs, ((fst s)\<lparr>cur := cur (fst s) + length bs\<rparr>, snd s)))"

text \<open>\<open>read_exact\<close> into a buffer of \<open>n\<close> bytes: too few bytes left is \<open>UnexpectedEof\<close>.\<close>

definition read_exact :: "nat \<Rightarrow> u8 list file_op" where
  "read_exact n = bindS (on_snd os_call) (\<lambda>_ s.
     let bs = take n (drop (cur (fst s)) (contents (snd s) (fid (fst s))))
     in if length bs = n then (Inr bs, ((fst s)\<lparr>cur := cur (fst s) + n\<rparr>, snd s))
        else (Inl IoError, s))"

text \<open>
  Writing at the cursor overwrites, extends the file, and fills a gap before the cursor
  with zeros. A failing \<open>write_all\<close> may have written a part of its bytes.
\<close>

definition overwrite :: "u8 list \<Rightarrow> nat \<Rightarrow> u8 list \<Rightarrow> u8 list" where
  "overwrite c p b = (if b = [] then c
     else take p c @ replicate (p - length c) 0 @ b @ drop (p + length b) c)"

definition put_bytes :: "u8 list \<Rightarrow> fh \<times> world \<Rightarrow> fh \<times> world" where
  "put_bytes b s = (let f = fid (fst s); p = cur (fst s) in
     ((fst s)\<lparr>cur := p + length b\<rparr>, set_contents f (overwrite (contents (snd s) f) p b) (snd s)))"

definition write_all :: "u8 list \<Rightarrow> unit file_op" where
  "write_all b s = (case pop_fault (snd s) of
       (None, w) \<Rightarrow> (Inr (), put_bytes b (fst s, w))
     | (Some n, w) \<Rightarrow> (Inl IoError, put_bytes (take n b) (fst s, w)))"

definition sync_all :: "unit file_op" where
  "sync_all = on_snd os_call"

definition set_len_zero :: "unit file_op" where
  "set_len_zero = bindS (on_snd os_call) (\<lambda>_ s. (Inr (), (fst s, set_contents (fid (fst s)) [] (snd s))))"

section \<open>What the calls do\<close>

lemma contents_set_same [simp]: "contents (set_contents f bs w) f = bs"
  by (cases f) (auto simp: update_conv')

lemma contents_set_other [simp]: "g \<noteq> f \<Longrightarrow> contents (set_contents f bs w) g = contents w g"
  by (cases f; cases g) (auto simp: update_conv')

lemma set_contents_fields [simp]:
  "clock (set_contents f bs w) = clock w" "ticks (set_contents f bs w) = ticks w"
  "faults (set_contents f bs w) = faults w"
  by (cases f; simp)+

lemma set_contents_twice [simp]: "set_contents f b (set_contents f a w) = set_contents f b w"
  by (cases f) simp_all

lemma wal_set_contents [simp]:
  "wal (set_contents Wal bs w) = bs" "wal (set_contents (Sst n) bs w) = wal w"
  by simp_all

lemma ssts_set_contents [simp]:
  "ssts (set_contents Wal bs w) = ssts w"
  "ssts (set_contents (Sst n) bs w) = AList.update n bs (ssts w)"
  by simp_all

lemma contents_update [simp]:
  "contents (w\<lparr>faults := fs\<rparr>) f = contents w f" "contents (w\<lparr>ticks := n\<rparr>) f = contents w f"
  by (cases f; simp)+

lemma contents_cong: "wal v = wal w \<Longrightarrow> ssts v = ssts w \<Longrightarrow> contents v f = contents w f"
  by (cases f) simp_all

declare contents.simps(2) [simp del] set_contents.simps [simp del]

text \<open>Without faults the calls succeed; these equations evaluate a run step by step.\<close>

named_theorems calls_ok "system calls in a world without faults"

lemma os_call_ok [calls_ok]: "faults w = [] \<Longrightarrow> os_call w = (Inr (), w)"
  by (simp add: os_call_def pop_fault_def)

lemma create_dir_all_ok [calls_ok]: "faults w = [] \<Longrightarrow> create_dir_all w = (Inr (), w)"
  by (simp add: create_dir_all_def calls_ok)

lemma read_dir_ok [calls_ok]: "faults w = [] \<Longrightarrow> read_dir w = (Inr (map fst (ssts w)), w)"
  by (simp add: read_dir_def bindS_def calls_ok)

lemma remove_file_ok [calls_ok]:
  "faults w = [] \<Longrightarrow> n \<in> set (map fst (ssts w)) \<Longrightarrow>
   remove_file n w = (Inr (), w\<lparr>ssts := AList.delete n (ssts w)\<rparr>)"
  by (simp add: remove_file_def bindS_def calls_ok)

lemma file_open_ok [calls_ok]:
  "faults w = [] \<Longrightarrow> n \<in> set (map fst (ssts w)) \<Longrightarrow>
   file_open n w = (Inr \<lparr>fid = Sst n, cur = 0\<rparr>, w)"
  by (simp add: file_open_def bindS_def calls_ok)

lemma open_truncated_ok [calls_ok]:
  "faults w = [] \<Longrightarrow> open_truncated f w = (Inr \<lparr>fid = f, cur = 0\<rparr>, set_contents f [] w)"
  by (simp add: open_truncated_def bindS_def calls_ok)

lemma open_kept_ok [calls_ok]: "faults w = [] \<Longrightarrow> open_kept f w = (Inr \<lparr>fid = f, cur = 0\<rparr>, w)"
  by (simp add: open_kept_def bindS_def calls_ok)

lemma now_micros_ok [calls_ok]:
  "0 \<le> clock w (ticks w) \<Longrightarrow>
   now_micros w = (Inr (nat (clock w (ticks w))), w\<lparr>ticks := Suc (ticks w)\<rparr>)"
  by (simp add: now_micros_def Let_def)

lemma seek_start_ok [calls_ok]:
  "faults w = [] \<Longrightarrow> seek_start n (h, w) = (Inr n, (h\<lparr>cur := n\<rparr>, w))"
  by (simp add: seek_start_def set_cur_def bindS_def on_snd_def calls_ok)

lemma seek_end_ok [calls_ok]:
  "faults w = [] \<Longrightarrow> k \<le> length (contents w (fid h)) \<Longrightarrow>
   seek_end k (h, w) = (Inr (length (contents w (fid h)) - k),
     (h\<lparr>cur := length (contents w (fid h)) - k\<rparr>, w))"
  by (simp add: seek_end_def set_cur_def bindS_def on_snd_def file_len_def calls_ok)

lemma stream_position_ok [calls_ok]:
  "faults w = [] \<Longrightarrow> stream_position (h, w) = (Inr (cur h), (h, w))"
  by (simp add: stream_position_def bindS_def on_snd_def calls_ok)

lemma metadata_len_ok [calls_ok]:
  "faults w = [] \<Longrightarrow> metadata_len (h, w) = (Inr (length (contents w (fid h))), (h, w))"
  by (simp add: metadata_len_def bindS_def on_snd_def file_len_def calls_ok)

lemma read_to_end_ok [calls_ok]:
  "faults w = [] \<Longrightarrow> read_to_end (h, w) =
     (Inr (drop (cur h) (contents w (fid h))),
      (h\<lparr>cur := cur h + (length (contents w (fid h)) - cur h)\<rparr>, w))"
  by (simp add: read_to_end_def bindS_def on_snd_def Let_def calls_ok)

lemma read_exact_ok [calls_ok]:
  "faults w = [] \<Longrightarrow> cur h + n \<le> length (contents w (fid h)) \<Longrightarrow> read_exact n (h, w) =
     (Inr (take n (drop (cur h) (contents w (fid h)))), (h\<lparr>cur := cur h + n\<rparr>, w))"
  by (auto simp: read_exact_def bindS_def on_snd_def Let_def calls_ok min_def)

lemma overwrite_at_end [simp]: "overwrite c (length c) b = c @ b"
  by (simp add: overwrite_def)

lemma write_all_ok [calls_ok]:
  "faults w = [] \<Longrightarrow> cur h = length (contents w (fid h)) \<Longrightarrow> write_all b (h, w) =
     (Inr (), (h\<lparr>cur := cur h + length b\<rparr>,
       set_contents (fid h) (contents w (fid h) @ b) w))"
  by (simp add: write_all_def put_bytes_def pop_fault_def Let_def)

lemma sync_all_ok [calls_ok]: "faults w = [] \<Longrightarrow> sync_all (h, w) = (Inr (), (h, w))"
  by (simp add: sync_all_def on_snd_def calls_ok)

lemma set_len_zero_ok [calls_ok]:
  "faults w = [] \<Longrightarrow> set_len_zero (h, w) = (Inr (), (h, set_contents (fid h) [] w))"
  by (simp add: set_len_zero_def bindS_def on_snd_def calls_ok)

section \<open>What the reading calls leave alone\<close>

text \<open>\<open>same_disk\<close>: the files and the clock are as before; only fault outcomes were used up.\<close>

definition same_disk :: "world \<Rightarrow> world \<Rightarrow> bool" where
  "same_disk v w \<longleftrightarrow> wal w = wal v \<and> ssts w = ssts v \<and> clock w = clock v \<and> ticks w = ticks v"

text \<open>\<open>reads\<close>: a computation on an open file that changes the cursor at most.\<close>

definition reads :: "fh \<times> world \<Rightarrow> fh \<times> world \<Rightarrow> bool" where
  "reads s t \<longleftrightarrow> fid (fst t) = fid (fst s) \<and> same_disk (snd s) (snd t)"

lemma same_disk_refl [simp]: "same_disk w w"
  by (simp add: same_disk_def)

lemma same_disk_trans: "same_disk u v \<Longrightarrow> same_disk v w \<Longrightarrow> same_disk u w"
  by (simp add: same_disk_def)

lemma reflp_same_disk [simp]: "reflp same_disk"
  by (simp add: reflp_def)

lemma transp_same_disk [simp]: "transp same_disk"
  by (auto simp: transp_def intro: same_disk_trans)

lemma reads_refl [simp]: "reads s s"
  by (simp add: reads_def)

lemma reflp_reads [simp]: "reflp reads"
  by (simp add: reflp_def reads_def)

lemma transp_reads [simp]: "transp reads"
  by (auto simp: transp_def reads_def intro: same_disk_trans)

lemma same_disk_contents: "same_disk v w \<Longrightarrow> contents w f = contents v f"
  by (rule contents_cong) (auto simp: same_disk_def)

lemma pop_fault_world: "pop_fault w = (x, v) \<Longrightarrow> \<exists>fs. v = w\<lparr>faults := fs\<rparr>"
proof (cases "faults w")
  case Nil
  moreover assume "pop_fault w = (x, v)"
  ultimately have "v = w\<lparr>faults := faults w\<rparr>" by (simp add: pop_fault_def)
  then show ?thesis ..
next
  case (Cons f fs)
  moreover assume "pop_fault w = (x, v)"
  ultimately have "v = w\<lparr>faults := fs\<rparr>" by (simp add: pop_fault_def)
  then show ?thesis ..
qed

lemma os_call_world: "os_call w = (r, v) \<Longrightarrow> \<exists>fs. v = w\<lparr>faults := fs\<rparr>"
  by (cases "pop_fault w")
    (auto simp: os_call_def dest: pop_fault_world split: option.splits)

lemma keeps_os_call [keeps_rules]: "keeps same_disk os_call"
proof -
  have "same_disk w (snd (os_call w))" for w
    by (cases "os_call w") (auto dest!: os_call_world simp: same_disk_def)
  then show ?thesis by (simp add: keeps_def)
qed

lemma keeps_create_dir_all [keeps_rules]: "keeps same_disk create_dir_all"
  by (simp add: create_dir_all_def keeps_rules)

lemma keeps_pure: "reflp R \<Longrightarrow> keeps R (\<lambda>s. (f s, s))"
  by (simp add: keeps_def reflp_def)

lemma keeps_read_dir [keeps_rules]: "keeps same_disk read_dir"
  unfolding read_dir_def by (intro keeps_bindS keeps_rules keeps_pure) simp_all

lemma keeps_file_open [keeps_rules]: "keeps same_disk (file_open n)"
proof -
  have "keeps same_disk (\<lambda>w. if n \<in> set (map fst (ssts w))
      then (Inr \<lparr>fid = Sst n, cur = 0\<rparr>, w) else (Inl IoError, w))"
    by (simp add: keeps_def)
  then show ?thesis
    unfolding file_open_def by (intro keeps_bindS keeps_rules) simp_all
qed

lemma reads_on_snd [keeps_rules]:
  assumes "keeps same_disk m"
  shows "keeps reads (on_snd m)"
proof -
  have "reads s (snd (on_snd m s))" for s
  proof -
    obtain r t where m: "m (snd s) = (r, t)" by (cases "m (snd s)")
    then have "same_disk (snd s) t" using assms by (blast dest: keepsD)
    with m show ?thesis by (simp add: on_snd_def reads_def)
  qed
  then show ?thesis by (simp add: keeps_def)
qed

lemma reads_set_cur [keeps_rules]: "keeps reads (set_cur n)"
  by (simp add: keeps_def set_cur_def reads_def)

lemma reads_seek_start [keeps_rules]: "keeps reads (seek_start n)"
  unfolding seek_start_def by (intro keeps_bindS keeps_rules) simp_all

lemma reads_seek_end [keeps_rules]: "keeps reads (seek_end k)"
proof -
  have "keeps reads (\<lambda>s. if k \<le> file_len s then set_cur (file_len s - k) s else (Inl IoError, s))"
    by (simp add: keeps_def set_cur_def reads_def)
  then show ?thesis
    unfolding seek_end_def by (intro keeps_bindS keeps_rules) simp_all
qed

lemma reads_stream_position [keeps_rules]: "keeps reads stream_position"
  unfolding stream_position_def by (intro keeps_bindS keeps_rules keeps_pure) simp_all

lemma reads_metadata_len [keeps_rules]: "keeps reads metadata_len"
  unfolding metadata_len_def by (intro keeps_bindS keeps_rules keeps_pure) simp_all

lemma reads_read_to_end [keeps_rules]: "keeps reads read_to_end"
  unfolding read_to_end_def
  by (intro keeps_bindS keeps_rules) (simp_all add: keeps_def reads_def Let_def)

lemma reads_read_exact [keeps_rules]: "keeps reads (read_exact n)"
  unfolding read_exact_def
  by (intro keeps_bindS keeps_rules) (simp_all add: keeps_def reads_def Let_def)

lemma keeps_with_local:
  assumes "keeps reads m"
  shows "keeps same_disk (with_local h m)"
proof -
  have "same_disk s (snd (with_local h m s))" for s
  proof -
    obtain r h' t where m: "m (h, s) = (r, (h', t))" by (metis surj_pair)
    then have "reads (h, s) (h', t)" using assms by (blast dest: keepsD)
    with m show ?thesis by (simp add: with_local_def reads_def)
  qed
  then show ?thesis by (simp add: keeps_def)
qed

section \<open>What the writing calls leave alone\<close>

text \<open>
  \<open>writes\<close>: a computation on an open file that changes, beside the cursor, at most the
  contents of that file.
\<close>

definition same_but :: "fid \<Rightarrow> world \<Rightarrow> world \<Rightarrow> bool" where
  "same_but f v w \<longleftrightarrow> (\<forall>g. g \<noteq> f \<longrightarrow> contents w g = contents v g) \<and>
     clock w = clock v \<and> ticks v \<le> ticks w"

definition writes :: "fh \<times> world \<Rightarrow> fh \<times> world \<Rightarrow> bool" where
  "writes s t \<longleftrightarrow> fid (fst t) = fid (fst s) \<and> same_but (fid (fst s)) (snd s) (snd t)"

lemma same_but_refl [simp]: "same_but f w w"
  by (simp add: same_but_def)

lemma same_but_trans: "same_but f u v \<Longrightarrow> same_but f v w \<Longrightarrow> same_but f u w"
  by (auto simp: same_but_def)

lemma reflp_same_but [simp]: "reflp (same_but f)"
  by (simp add: reflp_def)

lemma transp_same_but [simp]: "transp (same_but f)"
  by (auto simp: transp_def intro: same_but_trans)

lemma reflp_writes [simp]: "reflp writes"
  by (simp add: reflp_def writes_def)

lemma transp_writes [simp]: "transp writes"
  by (auto simp: transp_def writes_def intro: same_but_trans)

lemma same_disk_same_but: "same_disk v w \<Longrightarrow> same_but f v w"
  by (auto simp: same_but_def same_disk_contents) (simp_all add: same_disk_def)

lemma keeps_weaken: "keeps R m \<Longrightarrow> (\<And>s t. R s t \<Longrightarrow> Q s t) \<Longrightarrow> keeps Q m"
  by (simp add: keeps_def)

lemma keeps_same_but: "keeps same_disk m \<Longrightarrow> keeps (same_but f) m"
  by (erule keeps_weaken) (rule same_disk_same_but)

lemma reads_writes: "keeps reads m \<Longrightarrow> keeps writes m"
  by (erule keeps_weaken) (simp add: reads_def writes_def same_disk_same_but)

lemma same_but_set_contents: "same_but f w (set_contents f bs w)"
  by (simp add: same_but_def)

lemma writes_put_bytes: "writes (h, w) (put_bytes b (h, w\<lparr>faults := fs\<rparr>))"
  by (simp add: writes_def put_bytes_def Let_def same_but_def)

lemma writes_write_all: "keeps writes (write_all b)"
proof -
  have "writes (h, w) (snd (write_all b (h, w)))" for h w
  proof -
    obtain x v where p: "pop_fault w = (x, v)" by fastforce
    then obtain fs where "v = w\<lparr>faults := fs\<rparr>" using pop_fault_world by blast
    with p show ?thesis
      using writes_put_bytes [of h w _ fs] by (cases x) (simp_all add: write_all_def)
  qed
  then show ?thesis by (simp add: keeps_def split_paired_all)
qed

lemma writes_sync_all: "keeps writes sync_all"
  unfolding sync_all_def by (intro reads_writes keeps_rules)

lemma same_but_now_micros: "keeps (same_but f) now_micros"
  by (simp add: keeps_def now_micros_def Let_def same_but_def)

lemma same_but_open_truncated: "keeps (same_but f) (open_truncated f)"
proof -
  have "keeps (same_but f) (\<lambda>w. (Inr \<lparr>fid = f, cur = 0\<rparr>, set_contents f [] w))"
    by (simp add: keeps_def same_but_set_contents)
  then show ?thesis
    unfolding open_truncated_def
    by (intro keeps_bindS [OF transp_same_but keeps_same_but [OF keeps_os_call]])
qed

lemma same_but_with_local:
  assumes "keeps writes m"
  shows "same_but (fid h) w (snd (with_local h m w))"
proof -
  obtain r h' t where m: "m (h, w) = (r, (h', t))" by (metis surj_pair)
  then have "writes (h, w) (h', t)" using assms by (blast dest: keepsD)
  with m show ?thesis by (simp add: with_local_def writes_def)
qed

end
