(* ===== verification/Entry.thy ===== *)
theory Entry
  imports World
begin

text \<open>
  \<open>src/lib/log/entry.rs\<close>: what the WAL and the SSTables hold; and the code the store calls
  that is not part of the repository, as one record of functions.

  A Rust \<open>String\<close> is its UTF-8 bytes: a \<open>string\<close> of HOL, whose characters are bytes. Its
  length is then \<open>String::len\<close> and the order on it (\<open>List_Lexorder\<close> over \<open>Char_ord\<close>) is the
  bytewise order of Rust's strings.
\<close>

section \<open>Entries\<close>

datatype entry =
    Set string string
  | Delete string

fun entry_key :: "entry \<Rightarrow> string" where
  "entry_key (Set k v) = k"
| "entry_key (Delete k) = k"

fun entry_value :: "entry \<Rightarrow> string option" where
  "entry_value (Set k v) = Some v"
| "entry_value (Delete k) = None"

definition entry_set :: "string \<Rightarrow> string \<Rightarrow> entry" where
  [simp]: "entry_set k v = Set k v"

definition entry_delete :: "string \<Rightarrow> entry" where
  [simp]: "entry_delete k = Delete k"

definition as_bytes :: "string \<Rightarrow> u8 list" where
  "as_bytes s = map (\<lambda>c. of_nat (of_char c)) s"

lemma length_as_bytes [simp]: "length (as_bytes s) = length s"
  by (simp add: as_bytes_def)

section \<open>The crates the store calls\<close>

text \<open>
  \<open>wincode::serialize\<close> and \<open>wincode::deserialize\<close> at the type \<open>Entry\<close>, \<open>crc32fast::hash\<close>
  and \<open>xxh3::hash64_with_seed\<close>. Every definition that depends on one of them takes this
  record as its argument, so every theorem holds for any such functions, under the
  hypotheses it names.
\<close>

record crates =
  wincode_serialize :: "entry \<Rightarrow> u8 list option"
  wincode_deserialize :: "u8 list \<Rightarrow> entry option"
  crc32 :: "u8 list \<Rightarrow> u32"
  xxh3 :: "u8 list \<Rightarrow> u64 \<Rightarrow> u64"

text \<open>
  What the store relies on: wincode reads back the entry it wrote, writes at least one byte
  for it (an enum starts with its discriminant), and the entry is one a 32-bit length can
  describe. Stated for one entry, so that a theorem asks it of the entries it is about only.
\<close>

definition entry_ok :: "crates \<Rightarrow> entry \<Rightarrow> bool" where
  "entry_ok X e \<longleftrightarrow> (case wincode_serialize X e of
       None \<Rightarrow> False
     | Some p \<Rightarrow> p \<noteq> [] \<and> length p < 2 ^ 32 \<and> length (entry_key e) < 2 ^ 32 \<and>
         wincode_deserialize X p = Some e)"

text \<open>The payload of an entry, for entries wincode serializes.\<close>

definition payload :: "crates \<Rightarrow> entry \<Rightarrow> u8 list" where
  "payload X e = (case wincode_serialize X e of None \<Rightarrow> [] | Some p \<Rightarrow> p)"

lemma entry_ok_payload:
  assumes "entry_ok X e"
  shows "wincode_serialize X e = Some (payload X e)"
    and "payload X e \<noteq> []"
    and "length (payload X e) < 2 ^ 32"
    and "length (entry_key e) < 2 ^ 32"
    and "wincode_deserialize X (payload X e) = Some e"
  using assms by (auto simp: entry_ok_def payload_def split: option.splits)

lemmas entry_ok_bounds = entry_ok_payload(3,4) [simplified]

lemma entry_ok_payload_pos: "entry_ok X e \<Longrightarrow> 0 < length (payload X e)"
  by (simp add: entry_ok_payload(2))

end
