(* ===== verification/Header.thy ===== *)
theory Header
  imports Entry
begin

text \<open>
  \<open>src/lib/log/header/\<close>: the record format
  \<open>[magic: 2B][crc32: 4B][entry_len: 4B][wincode payload]\<close>, its serializer and its
  deserializer, the appending writer, and the reader that walks over damaged bytes until a
  record decodes. The generic traits are used at the type \<open>Entry\<close> only, and modelled there.
\<close>

section \<open>The format\<close>

definition HEADER_LEN :: nat where
  "HEADER_LEN = 10"

definition MAGIC :: u16 where
  "MAGIC = 0x4443"

datatype corruption_type =
    NotEnoughBytes
  | MagicBytesMismatch
  | ChecksumMismatch
  | ParseError

definition header_serialize :: "crates \<Rightarrow> entry \<Rightarrow> err + u8 list" where
  "header_serialize X value = (case wincode_serialize X value of
       None \<Rightarrow> Inl SerializeError
     | Some entry_bytes \<Rightarrow>
         (let checksum = crc32 X entry_bytes in
          case u32_try_from (length entry_bytes) of
            Inl e \<Rightarrow> Inl e
          | Inr len \<Rightarrow> Inr (u16_to_le_bytes MAGIC @ u32_to_le_bytes checksum @
              u32_to_le_bytes len @ entry_bytes)))"

definition header_deserialize :: "crates \<Rightarrow> u8 list \<Rightarrow> corruption_type + (entry \<times> nat)" where
  "header_deserialize X value =
     (if length value \<le> HEADER_LEN then Inl NotEnoughBytes else
      case split_first_chunk 2 value of None \<Rightarrow> Inl NotEnoughBytes | Some (magic_bytes, rest) \<Rightarrow>
      if u16_from_le_bytes magic_bytes \<noteq> MAGIC then Inl MagicBytesMismatch else
      case split_first_chunk 4 rest of None \<Rightarrow> Inl NotEnoughBytes | Some (checksum_bytes, rest) \<Rightarrow>
      (let checksum = u32_from_le_bytes checksum_bytes in
      case split_first_chunk 4 rest of None \<Rightarrow> Inl NotEnoughBytes | Some (len_bytes, rest) \<Rightarrow>
      (let len = unat (u32_from_le_bytes len_bytes) in
      case get_prefix len rest of None \<Rightarrow> Inl NotEnoughBytes | Some entry_bytes \<Rightarrow>
      if checksum \<noteq> crc32 X entry_bytes then Inl ChecksumMismatch else
      case wincode_deserialize X entry_bytes of None \<Rightarrow> Inl ParseError | Some v \<Rightarrow>
      case checked_add HEADER_LEN len of None \<Rightarrow> Inl NotEnoughBytes | Some consumed \<Rightarrow>
      Inr (v, consumed))))"

section \<open>Writing and reading a file of records\<close>

definition header_write :: "crates \<Rightarrow> entry \<Rightarrow> unit file_op" where
  "header_write X value = bindS (seek_end 0) (\<lambda>_.
     bindS (of_result (header_serialize X value)) (\<lambda>bytes. write_all bytes))"

text \<open>
  The loop over the windows of what is left of the file: the offset of the first window that
  decodes, with the entry and the number of bytes it took.
\<close>

fun scan_windows :: "crates \<Rightarrow> nat \<Rightarrow> u8 list \<Rightarrow> (nat \<times> entry \<times> nat) option" where
  "scan_windows X p [] = None"
| "scan_windows X p (b # bs) = (case header_deserialize X (b # bs) of
       Inr (entry, len) \<Rightarrow> Some (p, entry, len)
     | Inl _ \<Rightarrow> scan_windows X (Suc p) bs)"

definition header_read_next :: "crates \<Rightarrow> entry option file_op" where
  "header_read_next X =
     bindS stream_position (\<lambda>pos.
     bindS (seek_end 0) (\<lambda>_.
     bindS stream_position (\<lambda>buf_len.
     bindS (seek_start pos) (\<lambda>_.
     if buf_len \<le> pos then ret None else
     bindS read_to_end (\<lambda>bytes.
     case scan_windows X 0 bytes of
       None \<Rightarrow> ret None
     | Some (p, entry, len) \<Rightarrow>
         bindS (of_option OffsetOverflow
           (case checked_add pos p of None \<Rightarrow> None | Some n \<Rightarrow> checked_add n len)) (\<lambda>next.
         bindS (seek_start next) (\<lambda>_. ret (Some entry))))))))"

definition header_has_at_least_one :: "crates \<Rightarrow> bool file_op" where
  "header_has_at_least_one X =
     bindS stream_position (\<lambda>pos.
     bindS (seek_start 0) (\<lambda>_.
     bindS (header_read_next X) (\<lambda>value.
     bindS (seek_start pos) (\<lambda>_. ret (value \<noteq> None)))))"

section \<open>Records of entries\<close>

text \<open>The bytes of a record, for an entry wincode serializes.\<close>

definition record_bytes :: "crates \<Rightarrow> entry \<Rightarrow> u8 list" where
  "record_bytes X e = u16_to_le_bytes MAGIC @ u32_to_le_bytes (crc32 X (payload X e)) @
     u32_to_le_bytes (of_nat (length (payload X e))) @ payload X e"

definition records_bytes :: "crates \<Rightarrow> entry list \<Rightarrow> u8 list" where
  "records_bytes X es = concat (map (record_bytes X) es)"

text \<open>
  All entries the reader finds in some bytes, by scanning again from the end of each record
  it found: what a loop over \<open>header_read_next\<close> returns on a file that does not change.
\<close>

lemma header_deserialize_bounds:
  assumes "header_deserialize X bs = Inr (e, n)"
  shows "HEADER_LEN \<le> n" and "n \<le> length bs"
  using assms
  by (auto simp: header_deserialize_def split_first_chunk_def get_prefix_def checked_add_def
      HEADER_LEN_def Let_def split: if_splits option.splits)

lemma scan_windows_bounds:
  "scan_windows X p bs = Some (q, e, n) \<Longrightarrow> p \<le> q \<and> HEADER_LEN \<le> n \<and> (q - p) + n \<le> length bs"
proof (induction X p bs rule: scan_windows.induct)
  case (1 X p)
  then show ?case by simp
next
  case (2 X p b bs)
  show ?case
  proof (cases "header_deserialize X (b # bs)")
    case (Inl c)
    with 2 show ?thesis by fastforce
  next
    case (Inr r)
    with "2.prems" show ?thesis
      using header_deserialize_bounds [of X "b # bs"] by (cases r) auto
  qed
qed

lemma HEADER_LEN_pos: "0 < HEADER_LEN"
  by (simp add: HEADER_LEN_def)

function read_records :: "crates \<Rightarrow> u8 list \<Rightarrow> entry list" where
  "read_records X bs = (case scan_windows X 0 bs of
       None \<Rightarrow> []
     | Some (p, e, n) \<Rightarrow> e # read_records X (drop (p + n) bs))"
  by pat_completeness auto
termination
proof (relation "measure (\<lambda>(X, bs). length bs)", goal_cases)
  case 1
  then show ?case by simp
next
  case (2 X bs z p y e n)
  then have "scan_windows X 0 bs = Some (p, e, n)" by simp
  from scan_windows_bounds [OF this] HEADER_LEN_pos show ?case by auto
qed

declare read_records.simps [simp del]

text \<open>Bytes in which no window decodes, whatever follows them up to the end of the file.\<close>

definition quiet :: "crates \<Rightarrow> u8 list \<Rightarrow> u8 list \<Rightarrow> bool" where
  "quiet X bs rest = list_all (\<lambda>p. case header_deserialize X (drop p (bs @ rest)) of
       Inl _ \<Rightarrow> True | Inr _ \<Rightarrow> False) [0..<length bs]"

section \<open>The codec as an interface\<close>

text \<open>
  What the WAL replay, the SSTable scan and the compaction rely on: a record decodes whatever
  follows it and takes its own length, decoding takes at least one byte, and the scan goes on
  a byte at a time until a window decodes.
\<close>

locale record_stream =
  fixes enc :: "'e \<Rightarrow> 'b list"
    and good :: "'e \<Rightarrow> bool"
    and decode :: "'b list \<Rightarrow> 'c + ('e \<times> nat)"
    and scan :: "nat \<Rightarrow> 'b list \<Rightarrow> (nat \<times> 'e \<times> nat) option"
    and read_all :: "'b list \<Rightarrow> 'e list"
  assumes enc_nonempty: "enc e \<noteq> []"
    and decode_enc: "good e \<Longrightarrow> decode (enc e @ rest) = Inr (e, length (enc e))"
    and decode_pos: "decode bs = Inr (e, n) \<Longrightarrow> 0 < n \<and> n \<le> length bs"
    and scan_Nil: "scan p [] = None"
    and scan_hit: "decode (b # bs) = Inr (e, n) \<Longrightarrow> scan p (b # bs) = Some (p, e, n)"
    and scan_miss: "decode (b # bs) = Inl c \<Longrightarrow> scan p (b # bs) = scan (Suc p) bs"
    and read_all_None: "scan 0 bs = None \<Longrightarrow> read_all bs = []"
    and read_all_Some: "scan 0 bs = Some (p, e, n) \<Longrightarrow> read_all bs = e # read_all (drop (p + n) bs)"
begin

lemma scan_shift: "scan (k + p) bs = map_option (\<lambda>(q, e, n). (k + q, e, n)) (scan p bs)"
proof (induction bs arbitrary: p)
  case Nil
  show ?case by (simp add: scan_Nil)
next
  case (Cons b bs)
  show ?case
  proof (cases "decode (b # bs)")
    case (Inl c)
    with Cons [of "Suc p"] show ?thesis by (simp add: scan_miss)
  next
    case (Inr r)
    then show ?thesis by (cases r) (simp add: scan_hit)
  qed
qed

lemma scan_enc:
  assumes "good e"
  shows "scan p (enc e @ rest) = Some (p, e, length (enc e))"
proof -
  obtain b bs where "enc e @ rest = b # bs"
    using enc_nonempty [of e] by (cases "enc e") auto
  with decode_enc [OF assms, of rest] show ?thesis by (simp add: scan_hit)
qed

lemma scan_quiet:
  assumes "\<And>i. i < length xs \<Longrightarrow> \<exists>c. decode (drop i (xs @ rest)) = Inl c"
  shows "scan p (xs @ rest) = scan (p + length xs) rest"
  using assms
proof (induction xs arbitrary: p)
  case Nil
  then show ?case by simp
next
  case (Cons x xs)
  from Cons.prems [of 0] obtain c where "decode (x # (xs @ rest)) = Inl c" by auto
  then have "scan p ((x # xs) @ rest) = scan (Suc p) (xs @ rest)" by (simp add: scan_miss)
  also have "\<dots> = scan (Suc p + length xs) rest"
    using Cons.prems [of "Suc i" for i] by (intro Cons.IH) simp
  finally show ?case by simp
qed

lemma read_all_enc: "good e \<Longrightarrow> read_all (enc e @ rest) = e # read_all rest"
  by (simp add: read_all_Some [OF scan_enc])

lemma read_all_append:
  "list_all good es \<Longrightarrow> read_all (concat (map enc es) @ rest) = es @ read_all rest"
  by (induction es) (simp_all add: read_all_enc)

lemma read_all_quiet:
  assumes "\<And>i. i < length xs \<Longrightarrow> \<exists>c. decode (drop i (xs @ rest)) = Inl c"
  shows "read_all (xs @ rest) = read_all rest"
proof (cases "scan 0 rest")
  case None
  with scan_quiet [OF assms, of 0] scan_shift [of "length xs" 0 rest] show ?thesis
    by (simp add: read_all_None)
next
  case (Some r)
  obtain p e n where r: "r = (p, e, n)" by (cases r)
  with Some scan_quiet [OF assms, of 0] scan_shift [of "length xs" 0 rest]
  have "scan 0 (xs @ rest) = Some (length xs + p, e, n)" by simp
  with Some r show ?thesis by (simp add: read_all_Some)
qed

text \<open>A stretch of damaged bytes between two runs of records loses nothing but itself.\<close>

lemma read_all_damage:
  assumes "list_all good es" and "list_all good fs"
    and "\<And>i. i < length xs \<Longrightarrow> \<exists>c. decode (drop i (xs @ concat (map enc fs) @ rest)) = Inl c"
  shows "read_all (concat (map enc es) @ xs @ concat (map enc fs) @ rest) = es @ fs @ read_all rest"
  using assms by (simp add: read_all_append read_all_quiet)

end

subsection \<open>The header format provides it\<close>

lemma length_record_bytes [simp]: "length (record_bytes X e) = HEADER_LEN + length (payload X e)"
  by (simp add: record_bytes_def HEADER_LEN_def)

lemma header_serialize_ok: "entry_ok X e \<Longrightarrow> header_serialize X e = Inr (record_bytes X e)"
  by (simp add: header_serialize_def record_bytes_def entry_ok_payload(1) entry_ok_bounds)

lemma header_deserialize_record:
  assumes "entry_ok X e"
  shows "header_deserialize X (record_bytes X e @ rest) = Inr (e, length (record_bytes X e))"
proof -
  have "length (payload X e) < 4294967296" and "payload X e \<noteq> []"
    using assms by (simp_all add: entry_ok_payload(2) entry_ok_bounds)
  moreover have "\<not> length (record_bytes X e @ rest) \<le> HEADER_LEN"
    using calculation(2) by simp
  ultimately show ?thesis
    by (simp add: header_deserialize_def record_bytes_def HEADER_LEN_def entry_ok_payload(5) [OF assms])
qed

interpretation hdr: record_stream "record_bytes X" "entry_ok X" "header_deserialize X"
    "scan_windows X" "read_records X" for X
proof (unfold_locales, goal_cases)
  case (1 e)
  then show ?case by (metis HEADER_LEN_pos add_gr_0 length_record_bytes length_greater_0_conv)
next
  case (2 e rest)
  then show ?case by (rule header_deserialize_record)
next
  case (3 bs e n)
  then show ?case using header_deserialize_bounds HEADER_LEN_pos by fastforce
qed (simp_all add: read_records.simps)

text \<open>
  Exactly which bytes decode: the magic number, the checksum and the length of a payload that
  wincode accepts, then that payload, then anything.
\<close>

lemma header_deserialize_Inr_iff:
  "header_deserialize X bs = Inr (e, n) \<longleftrightarrow> (\<exists>p rest.
     bs = u16_to_le_bytes MAGIC @ u32_to_le_bytes (crc32 X p) @ u32_to_le_bytes (of_nat (length p)) @ p @ rest \<and>
     p @ rest \<noteq> [] \<and> length p < 2 ^ 32 \<and> wincode_deserialize X p = Some e \<and> n = HEADER_LEN + length p)"
    (is "?L \<longleftrightarrow> (\<exists>p rest. ?R p rest)")
proof
  assume ?L
  then obtain m c l p rest where d: "bs = m @ c @ l @ p @ rest" "length m = 2" "length c = 4" "length l = 4"
      "u16_from_le_bytes m = MAGIC" "u32_from_le_bytes c = crc32 X p" "unat (u32_from_le_bytes l) = length p"
      "wincode_deserialize X p = Some e" "n = HEADER_LEN + length p" "HEADER_LEN < length bs"
    by (auto simp: header_deserialize_def split_first_chunk_Some get_prefix_Some checked_add_def Let_def
        split: if_splits option.splits)
  have "m = u16_to_le_bytes MAGIC" using u16_le_bytes_value [OF d(2)] d(5) by simp
  moreover have "c = u32_to_le_bytes (crc32 X p)" using u32_le_bytes_value [OF d(3)] d(6) by simp
  moreover have "u32_from_le_bytes l = of_nat (length p)" using arg_cong [OF d(7), of "of_nat :: nat \<Rightarrow> u32"] by simp
  then have "l = u32_to_le_bytes (of_nat (length p))" using u32_le_bytes_value [OF d(4)] by simp
  moreover have "unat (u32_from_le_bytes l) < 2 ^ 32" using unsigned_less [of "u32_from_le_bytes l"] by simp
  then have "length p < 2 ^ 32" using d(7) by simp
  moreover have "p @ rest \<noteq> []" using d(1-4,10) by (auto simp: HEADER_LEN_def)
  ultimately show "\<exists>p rest. ?R p rest" using d(1,8,9) by blast
next
  assume "\<exists>p rest. ?R p rest"
  then obtain p rest where r: "?R p rest" by blast
  then have "HEADER_LEN < length bs" by (auto simp: HEADER_LEN_def)
  moreover have "checked_add HEADER_LEN (length p) = Some (HEADER_LEN + length p)"
    using r by (simp add: checked_add_def HEADER_LEN_def)
  ultimately show ?L using r by (simp add: header_deserialize_def Let_def)
qed
lemma case_Inl_iff: "(case r of Inl _ \<Rightarrow> True | Inr _ \<Rightarrow> False) \<longleftrightarrow> (\<exists>c. r = Inl c)"
  by (cases r) auto

lemma quiet_iff:
  "quiet X xs rest \<longleftrightarrow> (\<forall>i < length xs. \<exists>c. header_deserialize X (drop i (xs @ rest)) = Inl c)"
  unfolding quiet_def list_all_iff case_Inl_iff by auto

lemma quietD:
  "quiet X xs rest \<Longrightarrow> i < length xs \<Longrightarrow> \<exists>c. header_deserialize X (drop i (xs @ rest)) = Inl c"
  by (simp add: quiet_iff)

lemma quiet_Nil [simp]: "quiet X [] rest"
  by (simp add: quiet_def)

text \<open>Bytes without the first magic byte are quiet in front of anything.\<close>

lemma quiet_no_magic:
  assumes "0x43 \<notin> set xs"
  shows "quiet X xs rest"
  unfolding quiet_iff
proof (intro allI impI)
  fix i assume i: "i < length xs"
  show "\<exists>c. header_deserialize X (drop i (xs @ rest)) = Inl c"
  proof (cases "header_deserialize X (drop i (xs @ rest))")
    case (Inr r)
    obtain e n where "header_deserialize X (drop i (xs @ rest)) = Inr (e, n)" using Inr by (cases r) simp
    then have "hd (drop i (xs @ rest)) = 0x43"
      by (auto simp: header_deserialize_Inr_iff u16_to_le_bytes_def MAGIC_def le_bytes_numeral)
    moreover have "hd (drop i (xs @ rest)) = xs ! i" using i by (simp add: hd_drop_conv_nth nth_append)
    ultimately show ?thesis using assms nth_mem [OF i] by simp
  qed blast
qed

lemma scan_windows_quiet: "quiet X xs [] \<Longrightarrow> scan_windows X p xs = None"
  using hdr.scan_quiet [of xs X "[]" p] by (auto simp: quiet_iff)

text \<open>What is read from a prefix is read from the whole.\<close>

lemma header_deserialize_take:
  assumes "header_deserialize X (take n bs) = Inr r"
  shows "header_deserialize X bs = Inr r"
proof -
  obtain e k where r: "r = (e, k)" by (cases r)
  from assms [unfolded r header_deserialize_Inr_iff] obtain p rest where
    d: "take n bs = u16_to_le_bytes MAGIC @ u32_to_le_bytes (crc32 X p) @ u32_to_le_bytes (of_nat (length p)) @ p @ rest"
      "p @ rest \<noteq> []" "length p < 2 ^ 32" "wincode_deserialize X p = Some e" "k = HEADER_LEN + length p" by blast
  have "bs = u16_to_le_bytes MAGIC @ u32_to_le_bytes (crc32 X p) @ u32_to_le_bytes (of_nat (length p)) @ p @
      (rest @ drop n bs)"
    using append_take_drop_id [of n bs] unfolding d(1) by simp
  moreover have "p @ (rest @ drop n bs) \<noteq> []" using d(2) by auto
  ultimately show ?thesis unfolding r header_deserialize_Inr_iff using d(3-5) by blast
qed

lemma quiet_take:
  assumes "quiet X bs []"
  shows "quiet X (take n bs) []"
  unfolding quiet_iff
proof (intro allI impI)
  fix i assume "i < length (take n bs)"
  then obtain c where c: "header_deserialize X (drop i bs) = Inl c" using quietD [OF assms, of i] by auto
  have "drop i (take n bs @ []) = take (n - i) (drop i bs)" by (simp add: drop_take)
  with c header_deserialize_take [of X "n - i" "drop i bs"]
  show "\<exists>c. header_deserialize X (drop i (take n bs @ [])) = Inl c"
    by (cases "header_deserialize X (drop i (take n bs @ []))") auto
qed

lemma quiet_drop: "quiet X bs rest \<Longrightarrow> quiet X (drop n bs) rest"
  unfolding quiet_iff
proof (intro allI impI)
  fix i assume q: "\<forall>i < length bs. \<exists>c. header_deserialize X (drop i (bs @ rest)) = Inl c" and i: "i < length (drop n bs)"
  then have "drop i (drop n bs @ rest) = drop (n + i) (bs @ rest)" by (simp add: add.commute)
  with q i show "\<exists>c. header_deserialize X (drop i (drop n bs @ rest)) = Inl c" by simp
qed

lemma read_records_quiet: "quiet X bs [] \<Longrightarrow> read_records X bs = []"
  using hdr.read_all_None [of X bs] scan_windows_quiet [of X bs 0] by simp

section \<open>The writer and the reader on a file\<close>

lemma header_write_ok [calls_ok]:
  assumes "faults w = []" and "entry_ok X e"
  shows "header_write X e (h, w) =
    (Inr (), (h\<lparr>cur := length (contents w (fid h)) + length (record_bytes X e)\<rparr>,
       set_contents (fid h) (contents w (fid h) @ record_bytes X e) w))"
  using assms by (simp add: header_write_def bindS_def calls_ok header_serialize_ok)

text \<open>What the reader returns, and where it leaves the cursor, when no call fails.\<close>

lemma header_read_next_ok [calls_ok]:
  assumes "faults w = []" and "length (contents w (fid h)) < 2 ^ 64"
  shows "header_read_next X (h, w) =
    (case scan_windows X 0 (drop (cur h) (contents w (fid h))) of
       None \<Rightarrow> (Inr None, (h\<lparr>cur := max (cur h) (length (contents w (fid h)))\<rparr>, w))
     | Some (p, e, n) \<Rightarrow> (Inr (Some e), (h\<lparr>cur := cur h + p + n\<rparr>, w)))"
proof (cases "length (contents w (fid h)) \<le> cur h")
  case True
  with assms(1) show ?thesis
    by (simp add: header_read_next_def bindS_def calls_ok max_def)
next
  case False
  show ?thesis
  proof (cases "scan_windows X 0 (drop (cur h) (contents w (fid h)))")
    case None
    with False assms(1) show ?thesis
      by (simp add: header_read_next_def bindS_def calls_ok max_def)
  next
    case (Some r)
    obtain p e n where r: "r = (p, e, n)" by (cases r)
    from scan_windows_bounds [OF Some [unfolded r]]
    have "cur h + p + n \<le> length (contents w (fid h))" using False by auto
    with assms(2) have "checked_add (cur h) p = Some (cur h + p)"
      and "checked_add (cur h + p) n = Some (cur h + p + n)"
      by (auto simp: checked_add_def)
    with False assms(1) Some r show ?thesis
      by (simp add: header_read_next_def bindS_def calls_ok)
  qed
qed

text \<open>Whatever fails, reading changes no file.\<close>

lemma keeps_cases:
  "(b \<Longrightarrow> keeps R m) \<Longrightarrow> (\<not> b \<Longrightarrow> keeps R n) \<Longrightarrow> keeps R (if b then m else n)"
  by simp

lemma keeps_case_option:
  "keeps R m \<Longrightarrow> (\<And>x. keeps R (k x)) \<Longrightarrow> keeps R (case v of None \<Rightarrow> m | Some x \<Rightarrow> k x)"
  by (cases v) simp_all

lemma keeps_case_prod: "(\<And>x y. keeps R (k x y)) \<Longrightarrow> keeps R (case p of (x, y) \<Rightarrow> k x y)"
  by (cases p) simp

lemmas keeps_structure = keeps_bindS keeps_ret keeps_throw keeps_of_option keeps_of_result
  keeps_cases keeps_case_option keeps_case_prod keeps_rules

lemma reads_header_read_next [keeps_rules]: "keeps reads (header_read_next X)"
  unfolding header_read_next_def by (intro keeps_structure) simp_all

lemma reads_header_has_at_least_one [keeps_rules]: "keeps reads (header_has_at_least_one X)"
  unfolding header_has_at_least_one_def by (intro keeps_structure keeps_rules) simp_all

text \<open>
  Every entry read moves the cursor forward and not past the end of the file: the measure of
  every loop over the reader.
\<close>

lemma os_call_Inr: "os_call w = (Inr x, v) \<Longrightarrow> v = w\<lparr>faults := tl (faults w)\<rparr>"
  by (cases "faults w") (auto simp: os_call_def pop_fault_def split: option.splits)

lemma on_snd_os_call_Inr: "on_snd os_call (h, w) = (Inr x, t) \<Longrightarrow> t = (h, w\<lparr>faults := tl (faults w)\<rparr>)"
  by (auto simp: on_snd_def split: prod.splits dest: os_call_Inr)

lemma seek_start_Inr:
  "seek_start n (h, w) = (Inr x, t) \<Longrightarrow> \<exists>fs. t = (h\<lparr>cur := n\<rparr>, w\<lparr>faults := fs\<rparr>)"
  by (auto simp: seek_start_def set_cur_def elim!: bindS_InrE dest!: on_snd_os_call_Inr)

lemma stream_position_Inr:
  "stream_position (h, w) = (Inr x, t) \<Longrightarrow> x = cur h \<and> (\<exists>fs. t = (h, w\<lparr>faults := fs\<rparr>))"
  by (auto simp: stream_position_def elim!: bindS_InrE dest!: on_snd_os_call_Inr)

lemma seek_end_Inr:
  "seek_end k (h, w) = (Inr x, t) \<Longrightarrow>
   \<exists>fs. t = (h\<lparr>cur := length (contents w (fid h)) - k\<rparr>, w\<lparr>faults := fs\<rparr>)"
  by (auto simp: seek_end_def set_cur_def file_len_def elim!: bindS_InrE
      dest!: on_snd_os_call_Inr split: if_splits)

lemma read_to_end_Inr:
  "read_to_end (h, w) = (Inr bs, t) \<Longrightarrow> bs = drop (cur h) (contents w (fid h)) \<and>
   (\<exists>fs n. t = (h\<lparr>cur := n\<rparr>, w\<lparr>faults := fs\<rparr>))"
  by (auto simp: read_to_end_def Let_def elim!: bindS_InrE dest!: on_snd_os_call_Inr)

lemma header_read_next_progress:
  assumes "header_read_next X (h, w) = (Inr (Some e), (h', w'))"
  shows "fid h' = fid h" and "same_disk w w'" and "cur h < cur h'"
    and "cur h' \<le> length (contents w (fid h))"
proof -
  have *: "reads (h, w) (h', w')" using assms by (rule keepsD [OF reads_header_read_next])
  show "fid h' = fid h" "same_disk w w'" using * by (simp_all add: reads_def)
  obtain p n where r: "scan_windows X 0 (drop (cur h) (contents w (fid h))) = Some (p, e, n)"
    and c: "cur h' = cur h + p + n" and l: "cur h < length (contents w (fid h))"
    using assms
    by (fastforce simp: header_read_next_def checked_add_def of_option_def elim!: bindS_InrE
        dest!: stream_position_Inr seek_end_Inr seek_start_Inr read_to_end_Inr
        split: if_splits option.splits prod.splits)
  from scan_windows_bounds [OF r] HEADER_LEN_pos c l
  show "cur h < cur h'" "cur h' \<le> length (contents w (fid h))" by auto
qed

lemma header_read_next_decreases:
  assumes "header_read_next X s = (Inr (Some e), t)"
  shows "file_len t - cur (fst t) < file_len s - cur (fst s)"
proof -
  obtain h w h' w' where s: "s = (h, w)" and t: "t = (h', w')" by (cases s; cases t)
  note p = header_read_next_progress [OF assms [unfolded s t]]
  from p(1,2) have "contents w' (fid h') = contents w (fid h)"
    by (simp add: same_disk_contents)
  with p(3,4) s t show ?thesis by (simp add: file_len_def)
qed

end
