(* ===== verification/Bloom.thy ===== *)
theory Bloom
  imports Header
begin

text \<open>
  \<open>src/lib/log/sstable/bloom_filter.rs\<close>: the filter over a byte array with seven positions
  per key from two 64-bit hashes, and its footer
  \<open>[filter_bytes][bit_count: u32 le]\<close> at the end of an SSTable. \<open>usize\<close> is 64 bits wide.
\<close>

section \<open>The filter\<close>

record bloom =
  bit_count :: nat
  inner :: "u8 list"

definition checked_rem :: "nat \<Rightarrow> nat \<Rightarrow> nat option" where
  "checked_rem a b = (if b = 0 then None else Some (a mod b))"

text \<open>\<open>h1.wrapping_add(i.wrapping_mul(h2)).checked_rem(bit_count)\<close> for \<open>i\<close> in \<open>0..7\<close>.\<close>

definition positions :: "crates \<Rightarrow> u8 list \<Rightarrow> nat \<Rightarrow> nat list" where
  "positions X key n = (let h1 = xxh3 X key 0; h2 = xxh3 X key 1 in
     List.map_filter (\<lambda>i. checked_rem (unat (h1 + of_nat i * h2)) n) [0..<7])"

definition bloom_new :: "nat \<Rightarrow> bloom" where
  "bloom_new n = \<lparr>bit_count = n, inner = replicate (div_ceil n 8) 0\<rparr>"

definition set_position :: "nat \<Rightarrow> u8 list \<Rightarrow> u8 list" where
  "set_position pos bs = (if pos div 8 < length bs
     then bs[pos div 8 := (bs ! (pos div 8)) OR push_bit (pos mod 8) 1] else bs)"

definition bloom_insert :: "crates \<Rightarrow> u8 list \<Rightarrow> bloom \<Rightarrow> bloom" where
  "bloom_insert X key f = f\<lparr>inner := fold set_position (positions X key (bit_count f)) (inner f)\<rparr>"

definition position_set :: "u8 list \<Rightarrow> nat \<Rightarrow> bool" where
  "position_set bs pos = (if pos div 8 < length bs
     then (bs ! (pos div 8)) AND push_bit (pos mod 8) 1 \<noteq> 0 else True)"

definition may_contain :: "crates \<Rightarrow> bloom \<Rightarrow> u8 list \<Rightarrow> bool" where
  "may_contain X f key = list_all (position_set (inner f)) (positions X key (bit_count f))"

section \<open>The footer\<close>

definition read_bloom_filter :: "bloom option file_op" where
  "read_bloom_filter =
     bindS (seek_end 0) (\<lambda>_.
     bindS stream_position (\<lambda>size.
     if size < 4 then ret None else
     bindS (seek_end 4) (\<lambda>_.
     bindS (read_exact 4) (\<lambda>bit_count_bytes.
     let n = unat (u32_from_le_bytes bit_count_bytes); byte_count = div_ceil n 8 in
     bindS (of_option FooterTooLarge (checked_add byte_count 4)) (\<lambda>footer_len.
     case checked_sub size footer_len of
       None \<Rightarrow> ret None
     | Some filter_start \<Rightarrow>
         bindS (seek_start filter_start) (\<lambda>_.
         bindS (read_exact byte_count) (\<lambda>bs.
         bindS (seek_start 0) (\<lambda>_. ret (Some \<lparr>bit_count = n, inner = bs\<rparr>)))))))))"

definition footer_bytes :: "bloom \<Rightarrow> u8 list" where
  "footer_bytes f = inner f @ u32_to_le_bytes (of_nat (bit_count f))"

definition bloom_wf :: "bloom \<Rightarrow> bool" where
  "bloom_wf f \<longleftrightarrow> length (inner f) = div_ceil (bit_count f) 8 \<and> bit_count f < 2 ^ 32"

section \<open>Positions\<close>

lemma positions_zero [simp]: "positions X key 0 = []"
  by (simp add: positions_def checked_rem_def List.map_filter_def)

lemma positions_pos:
  "0 < n \<Longrightarrow> positions X key n = map (\<lambda>i. unat (xxh3 X key 0 + of_nat i * xxh3 X key 1) mod n) [0..<7]"
  by (simp add: positions_def checked_rem_def List.map_filter_def comp_def)

lemma length_positions: "0 < n \<Longrightarrow> length (positions X key n) = 7"
  by (simp add: positions_pos)

lemma positions_bound: "p \<in> set (positions X key n) \<Longrightarrow> p < n"
  by (cases "n = 0") (auto simp: positions_pos)

lemma positions_in_range:
  "set (positions X key n) \<subseteq> {..<n} \<and> length (positions X key n) = (if n = 0 then 0 else 7)"
  using positions_bound [of _ X key n] length_positions [of n X key] by auto

section \<open>No false negatives\<close>

text \<open>
  What the lookups rely on: a key that was inserted is reported as possibly present, and
  later insertions do not change that.
\<close>

locale membership_filter =
  fixes add :: "'k \<Rightarrow> 'f \<Rightarrow> 'f"
    and may :: "'f \<Rightarrow> 'k \<Rightarrow> bool"
  assumes may_add: "may (add k f) k"
    and may_keep: "may f k \<Longrightarrow> may (add j f) k"
begin

lemma may_fold_keep: "may f k \<Longrightarrow> may (fold add ks f) k"
  by (induction ks arbitrary: f) (auto intro: may_keep)

lemma may_fold: "k \<in> set ks \<Longrightarrow> may (fold add ks f) k"
  by (induction ks arbitrary: f) (auto intro: may_fold_keep may_add)

end

lemma length_set_position [simp]: "length (set_position p bs) = length bs"
  by (simp add: set_position_def)

lemma length_fold_set_position [simp]: "length (fold set_position ps bs) = length bs"
  by (induction ps arbitrary: bs) simp_all

lemma position_set_bit:
  "p div 8 < length bs \<Longrightarrow> position_set bs p = bit (bs ! (p div 8)) (p mod 8)"
  by (simp add: position_set_def push_bit_eq_mult and_exp_eq_0_iff_not_bit)

lemma position_set_same: "position_set (set_position p bs) p"
proof (cases "p div 8 < length bs")
  case True
  then have "position_set (set_position p bs) p =
      bit ((bs ! (p div 8)) OR push_bit (p mod 8) 1) (p mod 8)"
    by (simp add: position_set_bit) (simp add: set_position_def)
  then show ?thesis
    by (simp add: bit_or_iff bit_exp_iff)
next
  case False
  then show ?thesis by (simp add: position_set_def)
qed

lemma position_set_keep:
  assumes "position_set bs q"
  shows "position_set (set_position p bs) q"
proof (cases "q div 8 < length bs")
  case True
  with assms have "bit (bs ! (q div 8)) (q mod 8)" by (simp add: position_set_bit)
  then have "bit (set_position p bs ! (q div 8)) (q mod 8)"
    using True by (auto simp: set_position_def nth_list_update bit_or_iff)
  with True show ?thesis by (simp add: position_set_bit)
next
  case False
  then show ?thesis by (simp add: position_set_def)
qed

lemma position_set_fold_keep: "position_set bs q \<Longrightarrow> position_set (fold set_position ps bs) q"
  by (induction ps arbitrary: bs) (auto intro: position_set_keep)

lemma position_set_fold: "p \<in> set ps \<Longrightarrow> position_set (fold set_position ps bs) p"
  by (induction ps arbitrary: bs) (auto intro: position_set_fold_keep position_set_same)

lemma bit_count_insert [simp]: "bit_count (bloom_insert X key f) = bit_count f"
  by (simp add: bloom_insert_def)

lemma length_inner_insert [simp]: "length (inner (bloom_insert X key f)) = length (inner f)"
  by (simp add: bloom_insert_def)

lemma may_contain_insert: "may_contain X (bloom_insert X key f) key"
  by (simp add: may_contain_def list_all_iff bloom_insert_def position_set_fold)

lemma may_contain_keep: "may_contain X f k \<Longrightarrow> may_contain X (bloom_insert X j f) k"
  by (simp add: may_contain_def list_all_iff bloom_insert_def position_set_fold_keep)

interpretation bloom: membership_filter "bloom_insert X" "may_contain X" for X
  by unfold_locales (rule may_contain_insert, rule may_contain_keep)

text \<open>The filter of a table: every key of the table, inserted in turn.\<close>

definition bloom_of :: "crates \<Rightarrow> nat \<Rightarrow> string list \<Rightarrow> bloom" where
  "bloom_of X n ks = fold (bloom_insert X) (map as_bytes ks) (bloom_new n)"

lemma bit_count_fold [simp]: "bit_count (fold (bloom_insert X) ks f) = bit_count f"
  by (induction ks arbitrary: f) simp_all

lemma length_inner_fold [simp]: "length (inner (fold (bloom_insert X) ks f)) = length (inner f)"
  by (induction ks arbitrary: f) simp_all

lemma bit_count_bloom_of [simp]: "bit_count (bloom_of X n ks) = n"
  by (simp add: bloom_of_def bloom_new_def)

lemma length_inner_bloom_of [simp]: "length (inner (bloom_of X n ks)) = div_ceil n 8"
  by (simp add: bloom_of_def bloom_new_def)

lemma bloom_of_wf: "n < 2 ^ 32 \<Longrightarrow> bloom_wf (bloom_of X n ks)"
  by (simp add: bloom_wf_def)

lemma bloom_of_may_contain: "k \<in> set ks \<Longrightarrow> may_contain X (bloom_of X n ks) (as_bytes k)"
  unfolding bloom_of_def by (rule bloom.may_fold) simp

section \<open>What the filter holds\<close>

lemma div_ceil_index: "q < n \<Longrightarrow> q div 8 < div_ceil n 8"
  by (simp add: div_ceil_def)

lemma position_set_set_position:
  assumes "q div 8 < length bs"
  shows "position_set (set_position p bs) q \<longleftrightarrow> position_set bs q \<or> q = p"
proof (cases "q div 8 = p div 8")
  case True
  then have "q mod 8 = p mod 8 \<longleftrightarrow> q = p" by (metis div_mult_mod_eq)
  moreover have "bit (push_bit (p mod 8) (1 :: u8)) (q mod 8) \<longleftrightarrow> q mod 8 = p mod 8"
    by (auto simp: bit_push_bit_iff push_bit_of_1 bit_exp_iff)
  ultimately show ?thesis
    using assms True by (simp add: position_set_bit) (simp add: set_position_def bit_or_iff)
next
  case False
  then have "set_position p bs ! (q div 8) = bs ! (q div 8)" by (simp add: set_position_def)
  moreover have "q \<noteq> p" using False by blast
  ultimately show ?thesis using assms by (simp add: position_set_bit)
qed

lemma position_set_fold_iff:
  "q div 8 < length bs \<Longrightarrow> position_set (fold set_position ps bs) q \<longleftrightarrow> position_set bs q \<or> q \<in> set ps"
  by (induction ps arbitrary: bs) (auto simp: position_set_set_position)

lemma position_set_inserted:
  "q < bit_count f \<Longrightarrow> length (inner f) = div_ceil (bit_count f) 8 \<Longrightarrow>
    position_set (inner (fold (bloom_insert X) ks f)) q \<longleftrightarrow>
      position_set (inner f) q \<or> (\<exists>k \<in> set ks. q \<in> set (positions X k (bit_count f)))"
proof (induction ks arbitrary: f)
  case (Cons k ks)
  have "q div 8 < length (inner f)" using Cons.prems div_ceil_index by simp
  from position_set_fold_iff [OF this]
  have "position_set (inner (bloom_insert X k f)) q \<longleftrightarrow>
      position_set (inner f) q \<or> q \<in> set (positions X k (bit_count f))"
    by (simp add: bloom_insert_def)
  with Cons.IH [of "bloom_insert X k f"] Cons.prems show ?case by (auto simp: bloom_insert_def)
qed simp

lemma position_set_new: "q < n \<Longrightarrow> \<not> position_set (inner (bloom_new n)) q"
  using div_ceil_index [of q n] by (simp add: bloom_new_def position_set_bit)

text \<open>A filter answers for the positions of the keys inserted, and for nothing else.\<close>

lemma may_contain_iff:
  "may_contain X (fold (bloom_insert X) ks (bloom_new n)) k \<longleftrightarrow>
    set (positions X k n) \<subseteq> (\<Union>j \<in> set ks. set (positions X j n))"
proof -
  have "position_set (inner (fold (bloom_insert X) ks (bloom_new n))) q \<longleftrightarrow>
      (\<exists>j \<in> set ks. q \<in> set (positions X j n))" if "q \<in> set (positions X k n)" for q
    using position_set_inserted [of q "bloom_new n" X ks] position_set_new [of q n] positions_bound [OF that]
    by (simp add: bloom_new_def)
  moreover have "bit_count (fold (bloom_insert X) ks (bloom_new n)) = n" by (simp add: bloom_new_def)
  ultimately show ?thesis by (auto simp: may_contain_def list_all_iff subset_iff)
qed

section \<open>Reading the footer back\<close>

lemma length_footer_bytes: "length (footer_bytes f) = length (inner f) + 4"
  by (simp add: footer_bytes_def)

lemma footer_bytes_ne: "footer_bytes f \<noteq> []"
proof -
  have "0 < length (footer_bytes f)" by (simp add: length_footer_bytes)
  then show ?thesis by simp
qed

lemma div_ceil_8_bound: "n < 2 ^ 32 \<Longrightarrow> div_ceil n 8 < 2 ^ 32"
  by (simp add: div_ceil_def)

lemma read_bloom_filter_ok:
  assumes "faults w = []" and "contents w (fid h) = pre @ footer_bytes f" and "bloom_wf f"
  shows "read_bloom_filter (h, w) = (Inr (Some f), (h\<lparr>cur := 0\<rparr>, w))"
proof -
  let ?c = "contents w (fid h)"
  have n: "bit_count f < 2 ^ 32" and len: "length (inner f) = div_ceil (bit_count f) 8"
    using assms(3) by (simp_all add: bloom_wf_def)
  have size: "length ?c = length pre + div_ceil (bit_count f) 8 + 4"
    using assms(2) len by (simp add: length_footer_bytes)
  have count: "unat (u32_from_le_bytes (take 4 (drop (length ?c - 4) ?c))) = bit_count f"
    using assms(2) n by (simp add: footer_bytes_def unat_of_nat)
  have bits: "take (div_ceil (bit_count f) 8) (drop (length pre) ?c) = inner f"
    using assms(2) len by (simp add: footer_bytes_def)
  have add: "checked_add (div_ceil (bit_count f) 8) 4 = Some (div_ceil (bit_count f) 8 + 4)"
    using div_ceil_8_bound [OF n] by (simp add: checked_add_def)
  show ?thesis
    using assms(1) count bits add
    by (simp add: read_bloom_filter_def bindS_def calls_ok Let_def size checked_sub_def)
qed

lemma reads_read_bloom_filter [keeps_rules]: "keeps reads read_bloom_filter"
  unfolding read_bloom_filter_def Let_def by (intro keeps_structure keeps_rules) simp_all

end
