(* ===== verification/BTree.thy ===== *)
theory BTree
  imports Prelude
begin

text \<open>
  \<open>std::collections::BTreeMap\<close> as the store uses it: a map over ordered keys with \<open>get\<close>,
  \<open>insert\<close> and iteration in ascending key order, represented by the strictly sorted list of
  its entries.
\<close>

section \<open>The interface\<close>

locale ordered_map =
  fixes empty :: "'m"
    and insert :: "'k::linorder \<Rightarrow> 'v \<Rightarrow> 'm \<Rightarrow> 'm"
    and get :: "'m \<Rightarrow> 'k \<Rightarrow> 'v option"
    and entries :: "'m \<Rightarrow> ('k \<times> 'v) list"
    and inv :: "'m \<Rightarrow> bool"
  assumes inv_empty: "inv empty"
    and get_empty: "get empty k = None"
    and inv_insert: "inv m \<Longrightarrow> inv (insert k v m)"
    and get_insert: "inv m \<Longrightarrow> get (insert k v m) j = (if j = k then Some v else get m j)"
    and entries_sorted: "inv m \<Longrightarrow> sorted_wrt (<) (map fst (entries m))"
    and get_entries: "inv m \<Longrightarrow> get m k = map_of (entries m) k"
begin

lemma distinct_entries: "inv m \<Longrightarrow> distinct (map fst (entries m))"
  using entries_sorted [of m] by (simp add: strict_sorted_iff)

lemma get_Some_iff: "inv m \<Longrightarrow> get m k = Some v \<longleftrightarrow> (k, v) \<in> set (entries m)"
  by (simp add: get_entries distinct_entries)

lemma inv_fold: "inv m \<Longrightarrow> inv (fold (\<lambda>e. insert (key e) e) es m)"
  by (induction es arbitrary: m) (auto intro: inv_insert)

lemma get_fold:
  "inv m \<Longrightarrow> get (fold (\<lambda>e. insert (key e) e) es m) k =
     (case find (\<lambda>e. key e = k) (rev es) of Some e \<Rightarrow> Some e | None \<Rightarrow> get m k)"
proof (induction es rule: rev_induct)
  case Nil
  then show ?case by simp
next
  case (snoc e es)
  then show ?case by (simp add: get_insert inv_fold)
qed

end

section \<open>The representation\<close>

type_synonym ('k, 'v) btree = "('k \<times> 'v) list"

fun btree_insert :: "'k::linorder \<Rightarrow> 'v \<Rightarrow> ('k, 'v) btree \<Rightarrow> ('k, 'v) btree" where
  "btree_insert k v [] = [(k, v)]"
| "btree_insert k v ((j, u) # m) =
     (if k < j then (k, v) # (j, u) # m
      else if k = j then (k, v) # m
      else (j, u) # btree_insert k v m)"

definition btree_get :: "('k, 'v) btree \<Rightarrow> 'k \<Rightarrow> 'v option" where
  "btree_get m k = map_of m k"

definition btree_values :: "('k, 'v) btree \<Rightarrow> 'v list" where
  "btree_values m = map snd m"

definition btree_wf :: "('k::linorder, 'v) btree \<Rightarrow> bool" where
  "btree_wf m \<longleftrightarrow> sorted_wrt (<) (map fst m)"

lemma map_of_btree_insert: "map_of (btree_insert k v m) = (map_of m)(k \<mapsto> v)"
  by (induction m) auto

lemma keys_btree_insert: "fst ` set (btree_insert k v m) = insert k (fst ` set m)"
  by (simp add: dom_map_of_conv_image_fst [symmetric] map_of_btree_insert)

lemma btree_wf_Cons: "btree_wf ((j, u) # m) \<longleftrightarrow> (\<forall>i \<in> fst ` set m. j < i) \<and> btree_wf m"
  by (auto simp: btree_wf_def)

lemma btree_wf_insert: "btree_wf m \<Longrightarrow> btree_wf (btree_insert k v m)"
proof (induction m)
  case Nil
  then show ?case by (simp add: btree_wf_def)
next
  case (Cons p m)
  obtain j u where p: "p = (j, u)" by (cases p)
  have less: "j < i" if "i \<in> fst ` set m" for i
    using Cons.prems that p by (auto simp: btree_wf_Cons)
  show ?case
  proof (cases "k < j")
    case True
    then have "k < i" if "i \<in> fst ` set m" for i
      using less [OF that] by (rule less_trans)
    with Cons.prems p True show ?thesis by (auto simp: btree_wf_Cons)
  next
    case False
    with Cons p less show ?thesis
      by (auto simp: btree_wf_Cons keys_btree_insert)
  qed
qed

interpretation btree: ordered_map "[]" btree_insert btree_get "\<lambda>m. m" btree_wf
  by unfold_locales
    (simp_all add: btree_wf_def btree_get_def map_of_btree_insert btree_wf_insert [unfolded btree_wf_def])

text \<open>A measure summed over the values, after an insertion.\<close>

lemma sum_values_btree_insert:
  assumes "btree_wf m"
  shows "sum_list (map f (btree_values (btree_insert k v m))) +
     (case btree_get m k of None \<Rightarrow> 0 | Some u \<Rightarrow> f u) = sum_list (map f (btree_values m)) + (f v :: nat)"
  using assms
proof (induction m)
  case Nil
  then show ?case by (simp add: btree_values_def btree_get_def)
next
  case (Cons p m)
  obtain j u where p: "p = (j, u)" by (cases p)
  have absent: "map_of m k = None" if "k \<le> j"
    using Cons.prems that p by (auto simp: btree_wf_Cons map_of_eq_None_iff)
  from Cons p absent show ?case
    by (auto simp: btree_values_def btree_get_def btree_wf_Cons algebra_simps)
qed

lemma length_btree_insert: "length (btree_insert k v m) \<le> Suc (length m)"
  by (induction m) auto

end
