(* ===== verification/SstName.thy ===== *)
theory SstName
  imports Prelude
begin

text \<open>
  The SSTable file name \<open>format!("{ts:020}.sst")\<close> of \<open>MemTable::flush_to\<close>: the decimal digits
  of a microsecond timestamp, padded with zeros to twenty, so that the order of the names is
  the order of the timestamps.
\<close>

definition digit :: "nat \<Rightarrow> char" where
  "digit d = char_of (48 + d)"

fun decimal :: "nat \<Rightarrow> string" where
  "decimal n = (if n < 10 then [digit n] else decimal (n div 10) @ [digit (n mod 10)])"

declare decimal.simps [simp del]

definition pad_zeros :: "nat \<Rightarrow> string \<Rightarrow> string" where
  "pad_zeros k s = replicate (k - length s) (digit 0) @ s"

definition sst_name :: "nat \<Rightarrow> string" where
  "sst_name ts = pad_zeros 20 (decimal ts) @ ''.sst''"

section \<open>The order of the names\<close>

text \<open>Exactly \<open>k\<close> digits.\<close>

fun fixed_digits :: "nat \<Rightarrow> nat \<Rightarrow> string" where
  "fixed_digits 0 n = []"
| "fixed_digits (Suc k) n = fixed_digits k (n div 10) @ [digit (n mod 10)]"

lemma length_fixed_digits [simp]: "length (fixed_digits k n) = k"
  by (induction k arbitrary: n) simp_all

lemma fixed_digits_zero: "fixed_digits k 0 = replicate k (digit 0)"
  by (induction k) (simp_all add: replicate_append_same)

lemma pad_zeros_decimal: "0 < k \<Longrightarrow> n < 10 ^ k \<Longrightarrow> pad_zeros k (decimal n) = fixed_digits k n"
proof (induction k arbitrary: n)
  case 0
  then show ?case by simp
next
  case (Suc k)
  show ?case
  proof (cases "n < 10")
    case True
    then show ?thesis
      by (simp add: pad_zeros_def decimal.simps [of n] fixed_digits_zero)
  next
    case False
    with Suc.prems have "0 < k" by (cases k) auto
    moreover have "n div 10 < 10 ^ k" using Suc.prems by auto
    ultimately have "pad_zeros k (decimal (n div 10)) = fixed_digits k (n div 10)"
      by (rule Suc.IH)
    with False show ?thesis by (simp add: pad_zeros_def decimal.simps [of n])
  qed
qed

lemma of_char_digit: "d < 10 \<Longrightarrow> (of_char (digit d) :: nat) = 48 + d"
  by (simp add: digit_def)

lemma digit_less_iff: "a < 10 \<Longrightarrow> b < 10 \<Longrightarrow> digit a < digit b \<longleftrightarrow> a < b"
  by (simp add: less_char_def of_char_digit)

lemma less_append_same_length:
  fixes xs ys :: "'a::linorder list"
  shows "length xs = length ys \<Longrightarrow> xs @ us < ys @ vs \<longleftrightarrow> xs < ys \<or> xs = ys \<and> us < vs"
  by (induction xs ys rule: list_induct2) auto

lemma fixed_digits_less:
  "a < 10 ^ k \<Longrightarrow> b < 10 ^ k \<Longrightarrow> a < b \<Longrightarrow> fixed_digits k a < fixed_digits k b"
proof (induction k arbitrary: a b)
  case 0
  then show ?case by simp
next
  case (Suc k)
  have bounds: "a div 10 < 10 ^ k" "b div 10 < 10 ^ k" using Suc.prems by auto
  show ?case
  proof (cases "a div 10 < b div 10")
    case True
    with Suc.IH [OF bounds] show ?thesis by (simp add: less_append_same_length)
  next
    case False
    then have "a div 10 = b div 10" using Suc.prems(3) div_le_mono [of a b 10] by linarith
    moreover from this have "a mod 10 < b mod 10"
      using Suc.prems(3) by (metis div_mult_mod_eq nat_add_left_cancel_less)
    ultimately show ?thesis by (simp add: less_append_same_length digit_less_iff)
  qed
qed

lemma sst_name_fixed: "ts < 10 ^ 20 \<Longrightarrow> sst_name ts = fixed_digits 20 ts @ ''.sst''"
  by (simp add: sst_name_def pad_zeros_decimal)

lemma sst_name_mono:
  assumes "b < 10 ^ 20" and "a < b"
  shows "sst_name a < sst_name b"
proof -
  have "a < 10 ^ 20" by (rule less_trans [OF assms(2) assms(1)])
  then have "fixed_digits 20 a < fixed_digits 20 b"
    by (rule fixed_digits_less) (use assms in simp_all)
  then show ?thesis
    using assms \<open>a < 10 ^ 20\<close> by (simp add: sst_name_fixed less_append_same_length)
qed

lemma names_in_time_order:
  assumes "a < 10 ^ 20" and "b < 10 ^ 20"
  shows "sst_name a < sst_name b \<longleftrightarrow> a < b"
  using sst_name_mono [OF assms(1), of b] sst_name_mono [OF assms(2), of a]
  by (metis less_asym less_linear less_irrefl)

end
