(* ===== verification/MemTable.thy ===== *)
theory MemTable
  imports Bloom BTree SstName
begin

text \<open>
  \<open>src/lib/log/memtable.rs\<close>: the in-memory table of the most recent entry per key, with the
  byte size that decides when it is flushed, its reconstruction from the WAL and its flush to
  a new SSTable file.
\<close>

section \<open>The table\<close>

record memtable =
  entries :: "(string, entry) btree"
  tracked :: nat

definition FLUSH_THRESHOLD_MB :: nat where
  "FLUSH_THRESHOLD_MB = 4"

definition memtable_new :: memtable where
  "memtable_new = \<lparr>entries = [], tracked = 0\<rparr>"

definition entry_size :: "crates \<Rightarrow> entry \<Rightarrow> err + nat" where
  "entry_size X e = (case wincode_serialize X e of
       None \<Rightarrow> Inl SerializeError
     | Some p \<Rightarrow> Inr (saturating_add (length (entry_key e)) (length p)))"

text \<open>
  The size of a previous entry is taken off before the size of the new one is known: where
  the second \<open>entry_size\<close> fails, the smaller size stays behind.
\<close>

definition forget_previous :: "crates \<Rightarrow> string \<Rightarrow> (memtable, unit) sio" where
  "forget_previous X k m = (case btree_get (entries m) k of
       None \<Rightarrow> (Inr (), m)
     | Some previous \<Rightarrow> (case entry_size X previous of
           Inl e \<Rightarrow> (Inl e, m)
         | Inr n \<Rightarrow> (Inr (), m\<lparr>tracked := saturating_sub (tracked m) n\<rparr>)))"

definition process :: "crates \<Rightarrow> entry \<Rightarrow> (memtable, entry option) sio" where
  "process X e = bindS (forget_previous X (entry_key e)) (\<lambda>_.
     bindS (of_result (entry_size X e)) (\<lambda>n m.
       (Inr (btree_get (entries m) (entry_key e)),
        m\<lparr>tracked := saturating_add (tracked m) n,
          entries := btree_insert (entry_key e) e (entries m)\<rparr>)))"

definition memtable_size :: "memtable \<Rightarrow> nat" where
  [simp]: "memtable_size m = tracked m"

definition should_flush :: "memtable \<Rightarrow> bool" where
  "should_flush m \<longleftrightarrow> FLUSH_THRESHOLD_MB * 2 ^ 20 < memtable_size m"

definition memtable_clear :: "memtable \<Rightarrow> memtable" where
  "memtable_clear m = m\<lparr>tracked := 0, entries := []\<rparr>"

definition memtable_len :: "memtable \<Rightarrow> nat" where
  "memtable_len m = length (entries m)"

definition is_empty :: "memtable \<Rightarrow> bool" where
  "is_empty m \<longleftrightarrow> tracked m = 0 \<and> entries m = []"

definition memtable_contains_key :: "memtable \<Rightarrow> string \<Rightarrow> bool" where
  "memtable_contains_key m k \<longleftrightarrow> k \<in> set (map fst (entries m))"

definition memtable_get :: "memtable \<Rightarrow> string \<Rightarrow> entry option" where
  "memtable_get m k = btree_get (entries m) k"

lemma memtable_contains_key_get: "memtable_contains_key m k \<longleftrightarrow> memtable_get m k \<noteq> None"
  by (simp add: memtable_contains_key_def memtable_get_def btree_get_def map_of_eq_None_iff del: not_None_eq)

definition memtable_values :: "memtable \<Rightarrow> entry list" where
  "memtable_values m = btree_values (entries m)"

section \<open>Replaying the WAL\<close>

text \<open>
  \<open>while let Ok(Some(entry)) = file.header_read_next()\<close>: the loop ends at the first \<open>None\<close>
  and also at the first error of the reader.
\<close>

function replay :: "crates \<Rightarrow> memtable \<Rightarrow> memtable file_op" where
  "replay X m s = (case header_read_next X s of
       (Inr (Some e), t) \<Rightarrow> (case process X e m of
           (Inl err, _) \<Rightarrow> (Inl err, t)
         | (Inr _, m') \<Rightarrow> replay X m' t)
     | (_, t) \<Rightarrow> (Inr m, t))"
  by pat_completeness auto
termination
  by (relation "measure (\<lambda>(X, m, s). file_len s - cur (fst s))")
    (auto dest: header_read_next_decreases [OF sym])

declare replay.simps [simp del]

definition from_file :: "crates \<Rightarrow> memtable file_op" where
  "from_file X = bindS (seek_start 0) (\<lambda>_. replay X memtable_new)"

section \<open>Flushing to an SSTable\<close>

fun write_entries :: "crates \<Rightarrow> entry list \<Rightarrow> bloom \<Rightarrow> bloom file_op" where
  "write_entries X [] f = ret f"
| "write_entries X (e # es) f = bindS (header_write X e) (\<lambda>_.
     write_entries X es (bloom_insert X (as_bytes (entry_key e)) f))"

definition write_table :: "crates \<Rightarrow> entry list \<Rightarrow> nat \<Rightarrow> unit file_op" where
  "write_table X es n =
     bindS (write_entries X es (bloom_new n)) (\<lambda>f.
     bindS (write_all (inner f)) (\<lambda>_.
     bindS (of_result (u32_try_from n)) (\<lambda>count.
     bindS (write_all (u32_to_le_bytes count)) (\<lambda>_.
     sync_all))))"

definition new_table :: "crates \<Rightarrow> memtable \<Rightarrow> (world, unit) sio" where
  "new_table X m =
     bindS create_dir_all (\<lambda>_.
     bindS now_micros (\<lambda>ts.
     bindS (open_truncated (Sst (sst_name ts))) (\<lambda>h.
     bindS (of_option BitCountOverflow (checked_mul (memtable_len m) 10)) (\<lambda>n.
     with_local h (write_table X (memtable_values m) n)))))"

definition flush_to :: "crates \<Rightarrow> (memtable \<times> world, unit) sio" where
  "flush_to X s = (if is_empty (fst s) then (Inr (), s)
     else bindS (on_snd (new_table X (fst s))) (\<lambda>_ t. (Inr (), (memtable_clear (fst t), snd t))) s)"

section \<open>The invariant of the table\<close>

text \<open>The size the code estimates for an entry, and for a list of entries.\<close>

definition esize :: "crates \<Rightarrow> entry \<Rightarrow> nat" where
  "esize X e = length (entry_key e) + length (payload X e)"

definition esizes :: "crates \<Rightarrow> entry list \<Rightarrow> nat" where
  "esizes X es = sum_list (map (esize X) es)"

definition memtable_wf :: "crates \<Rightarrow> memtable \<Rightarrow> bool" where
  "memtable_wf X m \<longleftrightarrow> btree_wf (entries m) \<and>
     (\<forall>(k, e) \<in> set (entries m). entry_key e = k \<and> entry_ok X e) \<and>
     tracked m = esizes X (memtable_values m) \<and> tracked m < 2 ^ 64"

lemma memtable_new_wf [simp]: "memtable_wf X memtable_new"
  by (simp add: memtable_wf_def memtable_new_def btree_wf_def memtable_values_def
      btree_values_def esizes_def)

lemma memtable_clear_new [simp]: "memtable_clear m = memtable_new"
  by (simp add: memtable_clear_def memtable_new_def)

lemma memtable_new_simps [simp]:
  "entries memtable_new = []" "tracked memtable_new = 0" "memtable_values memtable_new = []"
  "memtable_len memtable_new = 0" "memtable_get memtable_new k = None" "is_empty memtable_new"
  by (simp_all add: memtable_new_def memtable_values_def btree_values_def memtable_len_def
      memtable_get_def btree_get_def is_empty_def)

lemma esize_pos: "entry_ok X e \<Longrightarrow> 0 < esize X e"
  using entry_ok_payload_pos [of X e] by (simp add: esize_def)

lemma entry_size_ok: "entry_ok X e \<Longrightarrow> entry_size X e = Inr (esize X e)"
  using entry_ok_payload(3,4) [of X e]
  by (simp add: entry_size_def esize_def entry_ok_payload(1) saturating_add_def)

lemma esizes_simps [simp]:
  "esizes X [] = 0" "esizes X (e # es) = esize X e + esizes X es"
  "esizes X (es @ fs) = esizes X es + esizes X fs"
  by (simp_all add: esizes_def)

lemma length_le_esizes: "list_all (entry_ok X) es \<Longrightarrow> length es \<le> esizes X es"
  by (induction es) (auto dest: esize_pos)

lemma memtable_values_ok: "memtable_wf X m \<Longrightarrow> list_all (entry_ok X) (memtable_values m)"
  by (auto simp: memtable_wf_def memtable_values_def btree_values_def list_all_iff)

lemma memtable_keys: "memtable_wf X m \<Longrightarrow> map entry_key (memtable_values m) = map fst (entries m)"
  by (auto simp: memtable_wf_def memtable_values_def btree_values_def)

lemma memtable_values_sorted:
  "memtable_wf X m \<Longrightarrow> sorted_wrt (<) (map entry_key (memtable_values m))"
  by (simp add: memtable_keys) (simp add: memtable_wf_def btree_wf_def)

lemma length_memtable_values [simp]: "length (memtable_values m) = memtable_len m"
  by (simp add: memtable_values_def btree_values_def memtable_len_def)

lemma memtable_get_wf:
  assumes "memtable_wf X m" and "memtable_get m k = Some e"
  shows "entry_key e = k" and "entry_ok X e" and "e \<in> set (memtable_values m)"
proof -
  have "(k, e) \<in> set (entries m)"
    using assms(2) by (simp add: memtable_get_def btree_get_def map_of_SomeD)
  with assms(1) show "entry_key e = k" "entry_ok X e" "e \<in> set (memtable_values m)"
    by (force simp: memtable_wf_def memtable_values_def btree_values_def)+
qed

lemma is_empty_iff: "memtable_wf X m \<Longrightarrow> is_empty m \<longleftrightarrow> memtable_values m = []"
  by (auto simp: is_empty_def memtable_wf_def memtable_values_def btree_values_def)

text \<open>
  Looking a key up in the table is looking for it among the values, in any order: the keys
  are distinct.
\<close>

definition lookup_entry :: "entry list \<Rightarrow> string \<Rightarrow> entry option" where
  "lookup_entry es k = find (\<lambda>e. entry_key e = k) es"

lemma lookup_entry_Some:
  "lookup_entry es k = Some e \<Longrightarrow> e \<in> set es \<and> entry_key e = k"
  by (auto simp: lookup_entry_def find_Some_iff in_set_conv_nth)

lemma lookup_entry_None_iff: "lookup_entry es k = None \<longleftrightarrow> k \<notin> entry_key ` set es"
  by (auto simp: lookup_entry_def find_None_iff)

lemma lookup_entry_simps [simp]:
  "lookup_entry [] k = None"
  "lookup_entry (e # es) k = (if entry_key e = k then Some e else lookup_entry es k)"
  by (simp_all add: lookup_entry_def)

lemma map_of_lookup_entry:
  "(\<forall>(k, e) \<in> set m. entry_key e = k) \<Longrightarrow> map_of m k = lookup_entry (map snd m) k"
  by (induction m) auto

lemma memtable_get_lookup: "memtable_wf X m \<Longrightarrow> memtable_get m k = lookup_entry (memtable_values m) k"
  unfolding memtable_get_def btree_get_def memtable_values_def btree_values_def
  by (rule map_of_lookup_entry) (auto simp: memtable_wf_def)

subsection \<open>Processing an entry\<close>

definition inserted :: "crates \<Rightarrow> entry \<Rightarrow> memtable \<Rightarrow> memtable" where
  "inserted X e m = (let m' = btree_insert (entry_key e) e (entries m) in
     \<lparr>entries = m', tracked = esizes X (btree_values m')\<rparr>)"

lemma btree_insert_member:
  "x \<in> set (btree_insert k v m) \<Longrightarrow> x = (k, v) \<or> x \<in> set m"
  by (induction m) (auto split: if_splits)

lemma esizes_inserted:
  assumes "memtable_wf X m"
  shows "tracked (inserted X e m) + (case memtable_get m (entry_key e) of None \<Rightarrow> 0 | Some p \<Rightarrow> esize X p)
     = tracked m + esize X e"
  using assms sum_values_btree_insert [of "entries m" "esize X" "entry_key e" e]
  by (simp add: inserted_def esizes_def memtable_wf_def memtable_values_def memtable_get_def Let_def)

lemma inserted_wf:
  assumes "memtable_wf X m" and "entry_ok X e" and "tracked m + esize X e < 2 ^ 64"
  shows "memtable_wf X (inserted X e m)"
proof -
  have "tracked (inserted X e m) < 2 ^ 64"
    using esizes_inserted [OF assms(1), of e] assms(3) by linarith
  with assms(1,2) show ?thesis
    by (auto simp: memtable_wf_def inserted_def memtable_values_def Let_def btree_wf_insert
        dest!: btree_insert_member)
qed

lemma process_ok:
  assumes "memtable_wf X m" and "entry_ok X e" and "tracked m + esize X e < 2 ^ 64"
  shows "process X e m = (Inr (memtable_get m (entry_key e)), inserted X e m)"
proof (cases "memtable_get m (entry_key e)")
  case None
  then have "tracked (inserted X e m) = tracked m + esize X e"
    using esizes_inserted [OF assms(1), of e] by simp
  with None assms(2,3) show ?thesis
    by (simp add: process_def forget_previous_def bindS_def memtable_get_def entry_size_ok
        inserted_def saturating_add_exact Let_def)
next
  case (Some p)
  have p: "entry_size X p = Inr (esize X p)"
    using memtable_get_wf(2) [OF assms(1) Some] by (rule entry_size_ok)
  have size: "tracked (inserted X e m) + esize X p = tracked m + esize X e"
    using esizes_inserted [OF assms(1), of e] Some by simp
  have le: "esize X p \<le> tracked m"
    using assms(1) memtable_get_wf(3) [OF assms(1) Some]
    by (auto simp: memtable_wf_def esizes_def intro!: member_le_sum_list)
  have "saturating_add (tracked m - esize X p) (esize X e) = tracked (inserted X e m)"
    using size le assms(3) by (simp add: saturating_add_exact)
  with Some p assms(2) show ?thesis
    by (simp add: process_def forget_previous_def bindS_def memtable_get_def entry_size_ok
        inserted_def saturating_sub_def Let_def)
qed

lemma memtable_get_inserted:
  "memtable_get (inserted X e m) k = (if k = entry_key e then Some e else memtable_get m k)"
  by (simp add: memtable_get_def inserted_def Let_def btree_get_def map_of_btree_insert)

lemma set_values_inserted: "set (memtable_values (inserted X e m)) \<subseteq> insert e (set (memtable_values m))"
  by (auto simp: memtable_values_def btree_values_def inserted_def Let_def dest!: btree_insert_member)

lemma len_inserted: "memtable_len (inserted X e m) \<le> Suc (memtable_len m)"
  by (simp add: memtable_len_def inserted_def Let_def length_btree_insert)

lemma tracked_inserted:
  "memtable_wf X m \<Longrightarrow> tracked (inserted X e m) \<le> tracked m + esize X e"
  using esizes_inserted [of X m e] by linarith

subsection \<open>Processing a run of entries\<close>

lemma entries_fold_inserted:
  "entries (fold (inserted X) es m) = fold (\<lambda>e. btree_insert (entry_key e) e) es (entries m)"
  by (induction es arbitrary: m) (simp_all add: inserted_def Let_def)

lemma memtable_get_fold:
  assumes "btree_wf (entries m)"
  shows "memtable_get (fold (inserted X) es m) k =
    (case lookup_entry (rev es) k of Some e \<Rightarrow> Some e | None \<Rightarrow> memtable_get m k)"
  using btree.get_fold [OF assms, of entry_key es k]
  by (simp add: memtable_get_def entries_fold_inserted lookup_entry_def split: option.splits)

lemma fold_inserted_wf:
  assumes "memtable_wf X m" and "list_all (entry_ok X) es" and "tracked m + esizes X es < 2 ^ 64"
  shows "memtable_wf X (fold (inserted X) es m)"
    and "tracked (fold (inserted X) es m) \<le> tracked m + esizes X es"
    and "memtable_len (fold (inserted X) es m) \<le> memtable_len m + length es"
proof -
  have "memtable_wf X (fold (inserted X) es m) \<and>
      tracked (fold (inserted X) es m) \<le> tracked m + esizes X es \<and>
      memtable_len (fold (inserted X) es m) \<le> memtable_len m + length es"
    using assms
  proof (induction es arbitrary: m)
    case Nil
    then show ?case by simp
  next
    case (Cons e es)
    then have wf: "memtable_wf X (inserted X e m)" by (intro inserted_wf) auto
    have t: "tracked (inserted X e m) \<le> tracked m + esize X e"
      using Cons.prems(1) by (rule tracked_inserted)
    have l: "memtable_len (inserted X e m) \<le> Suc (memtable_len m)"
      by (rule len_inserted)
    have "tracked (inserted X e m) + esizes X es < 2 ^ 64"
      using t Cons.prems(3) by simp
    from Cons.IH [OF wf _ this] Cons.prems(2) t l show ?case by fastforce
  qed
  then show "memtable_wf X (fold (inserted X) es m)"
    and "tracked (fold (inserted X) es m) \<le> tracked m + esizes X es"
    and "memtable_len (fold (inserted X) es m) \<le> memtable_len m + length es" by auto
qed

lemma set_values_fold_inserted:
  "set (memtable_values (fold (inserted X) es m)) \<subseteq> set es \<union> set (memtable_values m)"
proof (induction es arbitrary: m)
  case Nil
  then show ?case by simp
next
  case (Cons e es)
  from Cons [of "inserted X e m"] set_values_inserted [of X e m] show ?case by auto
qed

section \<open>The replay\<close>

text \<open>
  Without faults the replay processes exactly the entries the scan of the file finds, in the
  order of the file.
\<close>

lemma replay_ok:
  assumes "faults w = []" and "length (contents w (fid h)) < 2 ^ 64" and "memtable_wf X m"
    and "list_all (entry_ok X) (read_records X (drop (cur h) (contents w (fid h))))"
    and "tracked m + esizes X (read_records X (drop (cur h) (contents w (fid h)))) < 2 ^ 64"
  shows "\<exists>h'. fid h' = fid h \<and> replay X m (h, w) =
    (Inr (fold (inserted X) (read_records X (drop (cur h) (contents w (fid h)))) m), (h', w))"
  using assms
proof (induction "length (contents w (fid h)) - cur h" arbitrary: m h rule: less_induct)
  case less
  let ?bs = "drop (cur h) (contents w (fid h))"
  show ?case
  proof (cases "scan_windows X 0 ?bs")
    case None
    with less.prems(1,2) show ?thesis
      by (simp add: replay.simps [of X m] header_read_next_ok read_records.simps [of X ?bs])
  next
    case (Some r)
    obtain p e n where r: "r = (p, e, n)" by (cases r)
    let ?h = "h\<lparr>cur := cur h + p + n\<rparr>"
    have rec: "read_records X ?bs = e # read_records X (drop (cur ?h) (contents w (fid ?h)))"
      using Some r by (simp add: read_records.simps [of X ?bs] add.commute add.left_commute)
    have less_len: "length (contents w (fid ?h)) - cur ?h < length (contents w (fid h)) - cur h"
      using scan_windows_bounds [OF Some [unfolded r]] HEADER_LEN_pos by auto
    have ok: "entry_ok X e" and room: "tracked m + esize X e < 2 ^ 64"
      using less.prems(4,5) rec by simp_all
    have wf: "memtable_wf X (inserted X e m)"
      using less.prems(3) ok room by (rule inserted_wf)
    have room': "tracked (inserted X e m) +
        esizes X (read_records X (drop (cur ?h) (contents w (fid ?h)))) < 2 ^ 64"
      using tracked_inserted [OF less.prems(3), of e] less.prems(5) rec by simp
    have "\<exists>h'. fid h' = fid ?h \<and> replay X (inserted X e m) (?h, w) =
      (Inr (fold (inserted X) (read_records X (drop (cur ?h) (contents w (fid ?h)))) (inserted X e m)), (h', w))"
      using less.hyps [OF less_len less.prems(1) _ wf _ room'] less.prems(2,4) rec by simp
    then show ?thesis
      using less.prems(1-3) Some r ok room
      by (simp add: replay.simps [of X m] header_read_next_ok process_ok rec)
  qed
qed

lemma reads_replay [keeps_rules]: "keeps reads (replay X m)"
proof -
  have "reads s (snd (replay X m s))" for s
  proof (induction X m s rule: replay.induct)
    case (1 X m s)
    obtain r t where rd: "header_read_next X s = (r, t)" by (cases "header_read_next X s")
    then have st: "reads s t" by (rule keepsD [OF reads_header_read_next])
    show ?case
    proof (cases "\<exists>e. r = Inr (Some e) \<and> (\<exists>q. fst (process X e m) = Inr q)")
      case True
      then obtain e q m' where r: "r = Inr (Some e)" and p: "process X e m = (Inr q, m')"
        by (metis prod.collapse)
      have "reads t (snd (replay X m' t))"
        using 1 [OF rd [symmetric] r refl p [symmetric] refl] .
      with st rd r p show ?thesis
        using transpD [OF transp_reads] by (simp add: replay.simps [of X m s])
    next
      case False
      with rd st show ?thesis
        by (auto simp: replay.simps [of X m s] split: sum.splits option.splits prod.splits)
    qed
  qed
  then show ?thesis by (simp add: keeps_def)
qed

lemma reads_from_file [keeps_rules]: "keeps reads (from_file X)"
  unfolding from_file_def by (intro keeps_structure keeps_rules) simp_all

section \<open>The flush\<close>

text \<open>The bytes of an SSTable file: the records, the filter over their keys, the bit count.\<close>

definition table_image :: "crates \<Rightarrow> entry list \<Rightarrow> u8 list" where
  "table_image X es = records_bytes X es @
     footer_bytes (bloom_of X (length es * 10) (map entry_key es))"

lemma records_bytes_simps [simp]:
  "records_bytes X [] = []" "records_bytes X (e # es) = record_bytes X e @ records_bytes X es"
  "records_bytes X (es @ fs) = records_bytes X es @ records_bytes X fs"
  by (simp_all add: records_bytes_def)

lemma write_entries_ok:
  assumes "faults w = []" and "cur h = length (contents w (fid h))"
    and "set_contents (fid h) (contents w (fid h)) w = w" and "list_all (entry_ok X) es"
  shows "write_entries X es f (h, w) =
    (Inr (fold (bloom_insert X) (map (as_bytes \<circ> entry_key) es) f),
     (h\<lparr>cur := length (contents w (fid h) @ records_bytes X es)\<rparr>,
      set_contents (fid h) (contents w (fid h) @ records_bytes X es) w))"
  using assms
proof (induction es arbitrary: h w f)
  case Nil
  then show ?case by simp
next
  case (Cons e es)
  let ?c = "contents w (fid h) @ record_bytes X e"
  let ?h = "h\<lparr>cur := length ?c\<rparr>" and ?w = "set_contents (fid h) ?c w"
  have "header_write X e (h, w) = (Inr (), (?h, ?w))"
    using Cons.prems by (simp add: header_write_ok)
  then show ?case
    using Cons.IH [of ?w ?h "bloom_insert X (as_bytes (entry_key e)) f"] Cons.prems
    by (simp add: bindS_def)
qed

lemma write_table_ok:
  assumes "faults w = []" and "cur h = 0" and "contents w (fid h) = []"
    and "set_contents (fid h) [] w = w" and "list_all (entry_ok X) es"
    and "length es * 10 < 2 ^ 32"
  shows "\<exists>h'. write_table X es (length es * 10) (h, w) =
    (Inr (), (h', set_contents (fid h) (table_image X es) w))"
proof -
  let ?n = "length es * 10"
  let ?f = "fold (bloom_insert X) (map (as_bytes \<circ> entry_key) es) (bloom_new ?n)"
  have f: "?f = bloom_of X ?n (map entry_key es)"
    by (simp add: bloom_of_def)
  have e: "write_entries X es (bloom_new ?n) (h, w) =
      (Inr ?f, (h\<lparr>cur := length (records_bytes X es)\<rparr>, set_contents (fid h) (records_bytes X es) w))"
    using write_entries_ok [of w h X es "bloom_new ?n"] assms by simp
  show ?thesis
    using assms(1,6) e
    by (simp add: write_table_def bindS_def calls_ok table_image_def footer_bytes_def f)
qed

text \<open>The world after a successful flush of the values \<open>es\<close>.\<close>

definition flushed :: "crates \<Rightarrow> entry list \<Rightarrow> world \<Rightarrow> world" where
  "flushed X es w = set_contents (Sst (sst_name (nat (clock w (ticks w))))) (table_image X es)
     (w\<lparr>ticks := Suc (ticks w)\<rparr>)"

lemma flush_to_ok:
  assumes "faults w = []" and "memtable_wf X m" and "memtable_values m \<noteq> []"
    and "memtable_len m * 10 < 2 ^ 32" and "0 \<le> clock w (ticks w)"
  shows "flush_to X (m, w) = (Inr (), (memtable_new, flushed X (memtable_values m) w))"
proof -
  let ?f = "Sst (sst_name (nat (clock w (ticks w))))"
  let ?w = "set_contents ?f [] (w\<lparr>ticks := Suc (ticks w)\<rparr>)"
  have ne: "\<not> is_empty m" using assms(2,3) by (simp add: is_empty_iff)
  have "list_all (entry_ok X) (memtable_values m)"
    using assms(2) by (rule memtable_values_ok)
  then obtain h' where wt: "write_table X (memtable_values m) (memtable_len m * 10)
      (\<lparr>fid = ?f, cur = 0\<rparr>, ?w) = (Inr (), (h', set_contents ?f (table_image X (memtable_values m)) ?w))"
    using write_table_ok [of ?w "\<lparr>fid = ?f, cur = 0\<rparr>" X "memtable_values m"] assms(1,4) by auto
  have "checked_mul (memtable_len m) 10 = Some (memtable_len m * 10)"
    using assms(4) by (simp add: checked_mul_def)
  with assms(1,5) wt have "new_table X m w = (Inr (), flushed X (memtable_values m) w)"
    by (simp add: new_table_def bindS_def calls_ok with_local_def flushed_def)
  with ne show ?thesis by (simp add: flush_to_def bindS_def on_snd_def)
qed

lemma flush_to_empty: "is_empty m \<Longrightarrow> flush_to X (m, w) = (Inr (), (m, w))"
  by (simp add: flush_to_def)

text \<open>Whatever fails, a flush touches no file but the one it creates.\<close>

lemma writes_header_write: "keeps writes (header_write X e)"
  unfolding header_write_def
  by (intro keeps_structure reads_writes [OF reads_seek_end] writes_write_all) simp_all

lemma writes_write_entries: "keeps writes (write_entries X es f)"
  by (induction es arbitrary: f) (auto intro!: keeps_ret keeps_bindS writes_header_write)

lemma writes_write_table: "keeps writes (write_table X es n)"
  unfolding write_table_def
  by (intro keeps_structure writes_write_entries writes_write_all writes_sync_all) simp_all

lemma create_dir_all_world: "create_dir_all w = (r, v) \<Longrightarrow> \<exists>fs. v = w\<lparr>faults := fs\<rparr>"
  unfolding create_dir_all_def by (rule os_call_world)

lemma open_truncated_frame:
  assumes "open_truncated f w = (r, v)"
  shows "same_but f w v" and "\<And>h. r = Inr h \<Longrightarrow> fid h = f"
proof -
  show "same_but f w v" using assms by (rule keepsD [OF same_but_open_truncated])
  show "fid h = f" if "r = Inr h" for h
    using assms that by (auto simp: open_truncated_def elim!: bindS_InrE)
qed

lemma new_table_frame:
  "same_but (Sst (sst_name (nat (clock w (ticks w))))) w (snd (new_table X m w))"
proof -
  let ?f = "Sst (sst_name (nat (clock w (ticks w))))"
  obtain r1 w1 where s1: "create_dir_all w = (r1, w1)" by (cases "create_dir_all w")
  then obtain fs where w1: "w1 = w\<lparr>faults := fs\<rparr>" using create_dir_all_world by blast
  have b1: "same_but ?f w w1" by (simp add: w1 same_but_def)
  obtain r2 w2 where s2: "now_micros w1 = (r2, w2)" by (cases "now_micros w1")
  then have b2: "same_but ?f w w2"
    using b1 keepsD [OF same_but_now_micros] same_but_trans by blast
  show ?thesis
  proof (cases "\<exists>ts h. r1 = Inr () \<and> r2 = Inr ts \<and> fst (open_truncated (Sst (sst_name ts)) w2) = Inr h")
    case False
    then show ?thesis
      using s1 s2 b1 b2 same_but_trans [OF b2 open_truncated_frame(1)]
      by (cases r1; cases r2)
        (auto simp: new_table_def bindS_def w1 now_micros_def Let_def
          split: if_splits prod.splits sum.splits)
  next
    case True
    then obtain ts h where r: "r1 = Inr ()" "r2 = Inr ts"
      and o: "fst (open_truncated (Sst (sst_name ts)) w2) = Inr h" by blast
    have ts: "Sst (sst_name ts) = ?f"
      using s2 r(2) w1 by (auto simp: now_micros_def Let_def split: if_splits)
    obtain w3 where s3: "open_truncated ?f w2 = (Inr h, w3)"
      using o ts by (cases "open_truncated ?f w2") simp
    note fr = open_truncated_frame [OF s3]
    have b3: "same_but ?f w w3" using b2 fr(1) by (rule same_but_trans)
    have "same_but ?f w3 (snd (with_local h (write_table X (memtable_values m) n) w3))" for n
      using same_but_with_local [OF writes_write_table, of h w3] fr(2) by simp
    then show ?thesis
      using s1 s2 s3 r ts b3 same_but_trans [OF b3]
      by (cases "checked_mul (memtable_len m) 10") (simp_all add: new_table_def bindS_def)
  qed
qed

text \<open>
  The outcome of a flush for the memtable: it is cleared when the flush succeeds and kept as
  it was when it fails.
\<close>

lemma flush_to_frame:
  assumes "flush_to X (m, w) = (r, (m', w'))"
  shows "same_but (Sst (sst_name (nat (clock w (ticks w))))) w w'"
    and "\<And>e. r = Inl e \<Longrightarrow> m' = m"
    and "r = Inr () \<Longrightarrow> m' = memtable_new"
proof -
  have new: "is_empty m \<Longrightarrow> m = memtable_new"
    by (cases m) (simp add: is_empty_def memtable_new_def)
  obtain r1 w1 where s: "new_table X m w = (r1, w1)" by (cases "new_table X m w")
  have *: "(r = Inr () \<and> m' = m \<and> w' = w \<and> is_empty m) \<or>
      (w' = w1 \<and> (\<forall>e. r = Inl e \<longrightarrow> m' = m) \<and> (r = Inr () \<longrightarrow> m' = memtable_new))"
    using assms s
    by (cases r1) (auto simp: flush_to_def bindS_def on_snd_def split: if_splits)
  show "same_but (Sst (sst_name (nat (clock w (ticks w))))) w w'"
    using * new_table_frame [of w X m] s by auto
  show "\<And>e. r = Inl e \<Longrightarrow> m' = m" using * by auto
  show "r = Inr () \<Longrightarrow> m' = memtable_new" using * new by auto
qed

end
