(* ===== verification/SSTable.thy ===== *)
theory SSTable
  imports MemTable
begin

text \<open>
  \<open>src/lib/log/sstable/mod.rs\<close>: an SSTable opened for reading, its filter, and the entries
  read one after the other; and the scan of one table in \<open>Log::get\<close>.
\<close>

section \<open>An open table\<close>

record sstable =
  table_filter :: bloom
  filter_pos :: nat
  table_file :: fh

definition on_file :: "'a file_op \<Rightarrow> (sstable \<times> world, 'a) sio" where
  "on_file m s = (case m (table_file (fst s), snd s) of
     (r, (h, w)) \<Rightarrow> (r, ((fst s)\<lparr>table_file := h\<rparr>, w)))"

definition from_path :: "crates \<Rightarrow> string \<Rightarrow> (world, sstable option) sio" where
  "from_path X path = bindS (file_open path) (\<lambda>file. with_local file (
     bindS read_bloom_filter (\<lambda>bf. case bf of None \<Rightarrow> ret None | Some f \<Rightarrow>
     bindS (of_option FooterTooLarge (checked_add (length (inner f)) 4)) (\<lambda>footer_len.
     bindS metadata_len (\<lambda>size.
     bindS (of_option ShorterThanFooter (checked_sub size footer_len)) (\<lambda>pos.
     bindS (header_has_at_least_one X) (\<lambda>one s.
       if \<not> one then (Inr None, s)
       else (Inr (Some \<lparr>table_filter = f, filter_pos = pos, table_file = fst s\<rparr>), s))))))))"

definition read_next_entry :: "crates \<Rightarrow> (sstable \<times> world, entry option) sio" where
  "read_next_entry X = bindS (on_file stream_position) (\<lambda>pos s.
     if filter_pos (fst s) < pos then (Inr None, s) else on_file (header_read_next X) s)"

text \<open>
  \<open>while let Some(entry) = sstable.read_next_entry()?\<close> of \<open>Log::get\<close>: the first entry with
  the key.
\<close>

lemma read_next_entry_decreases:
  assumes "read_next_entry X s = (Inr (Some e), t)"
  shows "file_len (table_file (fst t), snd t) - cur (table_file (fst t)) <
    file_len (table_file (fst s), snd s) - cur (table_file (fst s))"
proof -
  obtain pos u where p: "on_file stream_position s = (Inr pos, u)"
    and r: "on_file (header_read_next X) u = (Inr (Some e), t)"
    using assms by (auto simp: read_next_entry_def elim!: bindS_InrE split: if_splits)
  have u: "table_file (fst u) = table_file (fst s)" "\<exists>fs. snd u = (snd s)\<lparr>faults := fs\<rparr>"
    using p by (auto simp: on_file_def split: prod.splits dest!: stream_position_Inr)
  have "header_read_next X (table_file (fst u), snd u) = (Inr (Some e), (table_file (fst t), snd t))"
    using r by (auto simp: on_file_def split: prod.splits)
  from header_read_next_decreases [OF this] u show ?thesis
    by (auto simp: file_len_def)
qed

function find_in_table :: "crates \<Rightarrow> string \<Rightarrow> (sstable \<times> world, entry option) sio" where
  "find_in_table X key s = (case read_next_entry X s of
       (Inl e, t) \<Rightarrow> (Inl e, t)
     | (Inr None, t) \<Rightarrow> (Inr None, t)
     | (Inr (Some entry), t) \<Rightarrow>
         if entry_key entry = key then (Inr (Some entry), t) else find_in_table X key t)"
  by pat_completeness auto
termination
  by (relation "measure (\<lambda>(X, k, s). file_len (table_file (fst s), snd s) - cur (table_file (fst s)))")
    (auto dest: read_next_entry_decreases [OF sym])

declare find_in_table.simps [simp del]

text \<open>
  A table is read beyond its last entry: at the start of the footer, \<open>read_next_entry\<close> still
  asks the reader for a record, and returns one if the footer holds it.
\<close>

lemma footer_is_read:
  assumes "faults w = []" and "contents w (fid (table_file t)) = pre @ record_bytes X e @ rest"
    and "length (contents w (fid (table_file t))) < 2 ^ 64" and "entry_ok X e"
    and "filter_pos t = length pre" and "cur (table_file t) = length pre"
  shows "\<exists>t'. read_next_entry X (t, w) = (Inr (Some e), (t', w))"
  using assms header_read_next_ok [of w "table_file t" X] hdr.scan_enc [of X e 0 rest]
  by (simp add: read_next_entry_def bindS_def on_file_def stream_position_ok)

section \<open>Tables as the flush writes them\<close>

definition table_footer :: "crates \<Rightarrow> entry list \<Rightarrow> u8 list" where
  "table_footer X es = footer_bytes (bloom_of X (length es * 10) (map entry_key es))"

text \<open>
  The entries of an SSTable file: at least one, in ascending key order, all of them entries
  wincode round trips, few enough for the 32-bit bit count and the 64-bit offsets. The footer
  must not contain what looks like a record with a matching checksum, because the reader
  does not stop before the footer.
\<close>

definition table_ok :: "crates \<Rightarrow> entry list \<Rightarrow> bool" where
  "table_ok X es \<longleftrightarrow> es \<noteq> [] \<and> list_all (entry_ok X) es \<and>
     sorted_wrt (<) (map entry_key es) \<and> length es * 10 < 2 ^ 32 \<and>
     length (table_image X es) < 2 ^ 64 \<and> quiet X (table_footer X es) []"

lemma table_image_footer: "table_image X es = records_bytes X es @ table_footer X es"
  by (simp add: table_image_def table_footer_def)

lemma table_okD:
  assumes "table_ok X es"
  shows "es \<noteq> []" and "list_all (entry_ok X) es" and "sorted_wrt (<) (map entry_key es)"
    and "length es * 10 < 2 ^ 32" and "length (table_image X es) < 2 ^ 64"
    and "quiet X (table_footer X es) []"
  using assms by (simp_all add: table_ok_def)

text \<open>\<open>remaining X t w es\<close>: what the open table still has to read is \<open>es\<close>.\<close>

definition remaining :: "crates \<Rightarrow> sstable \<Rightarrow> world \<Rightarrow> entry list \<Rightarrow> bool" where
  "remaining X t w es \<longleftrightarrow> es = [] \<and> filter_pos t < cur (table_file t) \<or>
     (\<exists>pre foot. contents w (fid (table_file t)) = pre @ records_bytes X es @ foot \<and>
       cur (table_file t) = length pre \<and> filter_pos t = length (pre @ records_bytes X es) \<and>
       quiet X foot [] \<and> foot \<noteq> [] \<and> list_all (entry_ok X) es \<and>
       length (contents w (fid (table_file t))) < 2 ^ 64)"

lemma remaining_cong:
  "contents v (fid (table_file t)) = contents w (fid (table_file t)) \<Longrightarrow>
   remaining X t v es = remaining X t w es"
  by (simp add: remaining_def)

lemma read_next_entry_Cons:
  assumes "faults w = []" and "remaining X t w (e # es)"
  shows "\<exists>h. fid h = fid (table_file t) \<and>
    read_next_entry X (t, w) = (Inr (Some e), (t\<lparr>table_file := h\<rparr>, w)) \<and>
    remaining X (t\<lparr>table_file := h\<rparr>) w es"
proof -
  let ?h = "table_file t"
  obtain pre foot where c: "contents w (fid ?h) = pre @ records_bytes X (e # es) @ foot"
    and p: "cur ?h = length pre" "filter_pos t = length (pre @ records_bytes X (e # es))"
    and q: "quiet X foot []" "foot \<noteq> []" "list_all (entry_ok X) (e # es)"
    and l: "length (contents w (fid ?h)) < 2 ^ 64"
    using assms(2) by (auto simp: remaining_def)
  let ?h' = "?h\<lparr>cur := cur ?h + length (record_bytes X e)\<rparr>"
  have scan: "scan_windows X 0 (drop (cur ?h) (contents w (fid ?h))) =
      Some (0, e, length (record_bytes X e))"
    using hdr.scan_enc [of X e 0 "records_bytes X es @ foot"] q(3) c p(1) by simp
  have read: "read_next_entry X (t, w) = (Inr (Some e), (t\<lparr>table_file := ?h'\<rparr>, w))"
    using assms(1) l scan p
    by (simp add: read_next_entry_def bindS_def on_file_def calls_ok)
  have "contents w (fid ?h') = (pre @ record_bytes X e) @ records_bytes X es @ foot"
    using c by simp
  then have "remaining X (t\<lparr>table_file := ?h'\<rparr>) w es"
    using p q l unfolding remaining_def
    by (intro disjI2 exI [of _ "pre @ record_bytes X e"] exI [of _ foot]) simp
  with read show ?thesis by (intro exI [of _ ?h']) simp
qed

lemma read_next_entry_Nil:
  assumes "faults w = []" and "remaining X t w []"
  shows "\<exists>h. fid h = fid (table_file t) \<and>
    read_next_entry X (t, w) = (Inr None, (t\<lparr>table_file := h\<rparr>, w)) \<and>
    remaining X (t\<lparr>table_file := h\<rparr>) w []"
proof (cases "filter_pos t < cur (table_file t)")
  case True
  then have "read_next_entry X (t, w) = (Inr None, (t, w))"
    using assms(1) by (simp add: read_next_entry_def bindS_def on_file_def calls_ok)
  with assms(2) show ?thesis by (intro exI [of _ "table_file t"]) simp
next
  case False
  let ?h = "table_file t"
  obtain pre foot where c: "contents w (fid ?h) = pre @ foot"
    and p: "cur ?h = length pre" "filter_pos t = length pre"
    and q: "quiet X foot []" "foot \<noteq> []" and l: "length (contents w (fid ?h)) < 2 ^ 64"
    using assms(2) False by (auto simp: remaining_def)
  let ?h' = "?h\<lparr>cur := max (cur ?h) (length (contents w (fid ?h)))\<rparr>"
  have scan: "scan_windows X 0 (drop (cur ?h) (contents w (fid ?h))) = None"
    using scan_windows_quiet [OF q(1), of 0] c p(1) by simp
  have "read_next_entry X (t, w) = (Inr None, (t\<lparr>table_file := ?h'\<rparr>, w))"
    using assms(1) l scan p
    by (simp add: read_next_entry_def bindS_def on_file_def calls_ok)
  moreover have "remaining X (t\<lparr>table_file := ?h'\<rparr>) w []"
    using c p q(2) by (simp add: remaining_def)
  ultimately show ?thesis by (intro exI [of _ ?h']) simp
qed

text \<open>The scan of a table returns the entry of the key, if the rest of the table has one.\<close>

lemma find_in_table_ok:
  assumes "faults w = []" and "remaining X t w es"
  shows "\<exists>t'. find_in_table X k (t, w) = (Inr (lookup_entry es k), (t', w))"
  using assms(2)
proof (induction es arbitrary: t)
  case Nil
  then obtain h where "read_next_entry X (t, w) = (Inr None, (t\<lparr>table_file := h\<rparr>, w))"
    using read_next_entry_Nil [OF assms(1)] by blast
  then show ?case by (simp add: find_in_table.simps)
next
  case (Cons e es)
  then obtain h where "read_next_entry X (t, w) = (Inr (Some e), (t\<lparr>table_file := h\<rparr>, w))"
    and "remaining X (t\<lparr>table_file := h\<rparr>) w es"
    using read_next_entry_Cons [OF assms(1)] by blast
  with Cons.IH show ?case by (simp add: find_in_table.simps)
qed

section \<open>Opening a table\<close>

lemma contents_Sst: "map_of (ssts w) n = Some bs \<Longrightarrow> contents w (Sst n) = bs"
  by (simp add: contents.simps)

lemma from_path_ok:
  assumes "faults w = []" and "map_of (ssts w) n = Some (table_image X es)" and "table_ok X es"
  shows "\<exists>t. from_path X n w = (Inr (Some t), w) \<and> fid (table_file t) = Sst n \<and>
    table_filter t = bloom_of X (length es * 10) (map entry_key es) \<and> remaining X t w es"
proof -
  let ?f = "bloom_of X (length es * 10) (map entry_key es)"
  let ?h = "\<lparr>fid = Sst n, cur = 0\<rparr>"
  let ?pos = "length (records_bytes X es)"
  note ok = table_okD [OF assms(3)]
  have c: "contents w (Sst n) = records_bytes X es @ footer_bytes ?f"
    using assms(2) by (simp add: contents_Sst table_image_def)
  have mem: "n \<in> set (map fst (ssts w))"
    using assms(2) by (metis dom_map_of_conv_image_fst domI list.set_map)
  have bloom: "read_bloom_filter (?h, w) = (Inr (Some ?f), (?h, w))"
    using read_bloom_filter_ok [of w ?h "records_bytes X es" ?f] assms(1) c
      bloom_of_wf [OF ok(4)] by simp
  have len: "length (contents w (Sst n)) = ?pos + (length (inner ?f) + 4)"
    using c by (simp add: length_footer_bytes)
  have add: "checked_add (length (inner ?f)) 4 = Some (length (inner ?f) + 4)"
    using div_ceil_8_bound [OF ok(4)] by (simp add: checked_add_def)
  obtain e es' where es: "es = e # es'" using ok(1) by (cases es) auto
  have "scan_windows X 0 (contents w (Sst n)) = Some (0, e, length (record_bytes X e))"
    using hdr.scan_enc [of X e 0 "records_bytes X es' @ footer_bytes ?f"] ok(2) c es by simp
  then have one: "header_has_at_least_one X (?h, w) = (Inr True, (?h, w))"
    using assms(1) ok(5) c
    by (simp add: header_has_at_least_one_def bindS_def calls_ok table_image_def)
  let ?t = "\<lparr>table_filter = ?f, filter_pos = ?pos, table_file = ?h\<rparr>"
  have opn: "file_open n w = (Inr ?h, w)"
    using assms(1) mem by (simp add: calls_ok)
  have meta: "metadata_len (?h, w) = (Inr (length (contents w (Sst n))), (?h, w))"
    using assms(1) by (simp add: calls_ok)
  have sub: "checked_sub (length (contents w (Sst n))) (length (inner ?f) + 4) = Some ?pos"
    unfolding len by (simp add: checked_sub_def)
  have "from_path X n w = (Inr (Some ?t), w)"
    unfolding from_path_def bindS_Inr [of "file_open n", OF opn]
  proof (rule with_local_apply)
    show "bindS read_bloom_filter (\<lambda>bf. case bf of None \<Rightarrow> ret None | Some f \<Rightarrow>
        bindS (of_option FooterTooLarge (checked_add (length (inner f)) 4)) (\<lambda>footer_len.
        bindS metadata_len (\<lambda>size.
        bindS (of_option ShorterThanFooter (checked_sub size footer_len)) (\<lambda>pos.
        bindS (header_has_at_least_one X) (\<lambda>one s.
          if \<not> one then (Inr None, s)
          else (Inr (Some \<lparr>table_filter = f, filter_pos = pos, table_file = fst s\<rparr>), s))))))
        (?h, w) = (Inr (Some ?t), (?h, w))"
      unfolding bindS_Inr [of read_bloom_filter, OF bloom] option.case bindS_of_option add
        bindS_Inr [of metadata_len, OF meta] sub bindS_Inr [of "header_has_at_least_one X", OF one]
      by simp
  qed
  moreover have "footer_bytes ?f \<noteq> []" by (rule footer_bytes_ne)
  then have "remaining X ?t w es"
    using ok c unfolding remaining_def
    by (intro disjI2 exI [of _ "[]"] exI [of _ "footer_bytes ?f"])
      (simp add: table_footer_def table_image_def)
  ultimately show ?thesis by (intro exI [of _ ?t]) simp
qed

lemma keeps_from_path [keeps_rules]: "keeps same_disk (from_path X n)"
proof -
  have "keeps reads (\<lambda>s. if \<not> b then (Inr None, s)
      else (Inr (Some \<lparr>table_filter = f, filter_pos = p, table_file = fst s\<rparr>), s))" for b f p
    by (simp add: keeps_def)
  then show ?thesis
    unfolding from_path_def
    by (intro keeps_with_local keeps_structure keeps_rules) simp_all
qed

end
