(* ===== verification/Compact.thy ===== *)
theory Compact
  imports SSTable
begin

text \<open>
  \<open>src/lib/log/sstable/compact.rs\<close>: \<open>Log::compact\<close>, the merge of all SSTables into new ones.
  It uses nothing of the \<open>Log\<close> but its SSTable directory, so the model is a computation on
  the world. The inner loop is recursion over the cursors; the outer loop, which also writes
  files, has a fuel argument, and \<open>merge_loop_ok\<close> shows that the fuel \<open>compact\<close> gives it is
  enough.
\<close>

section \<open>The model\<close>

text \<open>A cursor: the entry under it, \<open>None\<close> at the end, and the open table.\<close>

type_synonym cursor = "entry option \<times> sstable"

definition advance :: "crates \<Rightarrow> sstable \<Rightarrow> (world, cursor) sio" where
  "advance X t w = (case read_next_entry X (t, w) of
       (Inl e, (_, v)) \<Rightarrow> (Inl e, v)
     | (Inr entry, (t', v)) \<Rightarrow> (Inr (entry, t'), v))"

fun open_all :: "crates \<Rightarrow> string list \<Rightarrow> (world, sstable option list) sio" where
  "open_all X [] = ret []"
| "open_all X (n # ns) = bindS (from_path X n) (\<lambda>t. bindS (open_all X ns) (\<lambda>ts. ret (t # ts)))"

fun prime :: "crates \<Rightarrow> sstable list \<Rightarrow> (world, cursor list) sio" where
  "prime X [] = ret []"
| "prime X (t # ts) = bindS (advance X t) (\<lambda>c. bindS (prime X ts) (\<lambda>cs. ret (c # cs)))"

text \<open>\<open>seen_keys\<close>, the output memtable and the world.\<close>

type_synonym merge_state = "string set \<times> memtable \<times> world"

definition take_winner :: "crates \<Rightarrow> string \<Rightarrow> entry \<Rightarrow> (merge_state, unit) sio" where
  "take_winner X k e s = (case s of (seen, m, w) \<Rightarrow>
     if entry_key e = k \<and> k \<notin> seen
     then (case e of
         Set _ _ \<Rightarrow> (case process X e m of
             (Inl err, m') \<Rightarrow> (Inl err, (insert k seen, m', w))
           | (Inr _, m') \<Rightarrow> (Inr (), (insert k seen, m', w)))
       | Delete _ \<Rightarrow> (Inr (), (insert k seen, m, w)))
     else (Inr (), s))"

definition visit :: "crates \<Rightarrow> string \<Rightarrow> cursor \<Rightarrow> (merge_state, cursor) sio" where
  "visit X k c = (case c of
       (None, _) \<Rightarrow> ret c
     | (Some e, t) \<Rightarrow> bindS (take_winner X k e) (\<lambda>_.
         if entry_key e = k then on_snd (on_snd (advance X t)) else ret c))"

fun visit_all :: "crates \<Rightarrow> string \<Rightarrow> cursor list \<Rightarrow> (merge_state, cursor list) sio" where
  "visit_all X k [] = ret []"
| "visit_all X k (c # cs) = bindS (visit X k c) (\<lambda>d. bindS (visit_all X k cs) (\<lambda>ds. ret (d # ds)))"

definition min_key :: "cursor list \<Rightarrow> string option" where
  "min_key cs = (case map entry_key (List.map_filter fst cs) of
       [] \<Rightarrow> None
     | k # ks \<Rightarrow> Some (fold min ks k))"

definition flush_if_full :: "crates \<Rightarrow> (memtable \<times> world, unit) sio" where
  "flush_if_full X s = (if should_flush (fst s) then flush_to X s else (Inr (), s))"

fun merge_loop :: "crates \<Rightarrow> nat \<Rightarrow> cursor list \<Rightarrow> (merge_state, unit) sio" where
  "merge_loop X 0 cs = throw OutOfFuel"
| "merge_loop X (Suc fuel) cs =
     (let live = filter (\<lambda>c. fst c \<noteq> None) cs in
      case min_key live of
        None \<Rightarrow> ret ()
      | Some k \<Rightarrow> bindS (visit_all X k live) (\<lambda>cs'.
          bindS (on_snd (flush_if_full X)) (\<lambda>_. merge_loop X fuel cs')))"

definition merge_all :: "crates \<Rightarrow> nat \<Rightarrow> cursor list \<Rightarrow> (merge_state, unit) sio" where
  "merge_all X fuel cs = bindS (merge_loop X fuel cs) (\<lambda>_. on_snd (\<lambda>s.
     if \<not> is_empty (fst s) then flush_to X s else (Inr (), s)))"

fun remove_files :: "string list \<Rightarrow> (world, unit) sio" where
  "remove_files [] = ret ()"
| "remove_files (n # ns) = bindS (remove_file n) (\<lambda>_. remove_files ns)"

text \<open>More rounds than the files have bytes are not needed: a round consumes an entry.\<close>

definition compact_fuel :: "world \<Rightarrow> nat" where
  "compact_fuel w = Suc (sum_list (map (length \<circ> snd) (ssts w)))"

definition compact :: "crates \<Rightarrow> (world, unit) sio" where
  "compact X = bindS read_dir (\<lambda>names.
     let to_delete = sort_desc names in
     bindS (open_all X to_delete) (\<lambda>opts.
     bindS (prime X (List.map_filter (\<lambda>t. t) opts)) (\<lambda>cs.
     bindS (\<lambda>w. with_local memtable_new (with_local {} (merge_all X (compact_fuel w) cs)) w) (\<lambda>_.
     remove_files to_delete))))"

section \<open>What the merge is to compute\<close>

text \<open>
  The same merge on lists of entries: the newest list first, every list in ascending key
  order. A round takes the least key; the first list that has it wins; a tombstone that wins
  is dropped.
\<close>

definition head_keys :: "entry list list \<Rightarrow> string list" where
  "head_keys ess = map (entry_key \<circ> hd) ess"

definition drop_key :: "string \<Rightarrow> entry list \<Rightarrow> entry list" where
  "drop_key k es = (if es \<noteq> [] \<and> entry_key (hd es) = k then tl es else es)"

definition winner :: "string \<Rightarrow> entry list list \<Rightarrow> entry list" where
  "winner k ess = (case find (\<lambda>es. es \<noteq> [] \<and> entry_key (hd es) = k) ess of
       None \<Rightarrow> []
     | Some es \<Rightarrow> (case hd es of Set _ _ \<Rightarrow> [hd es] | Delete _ \<Rightarrow> []))"

definition total :: "entry list list \<Rightarrow> nat" where
  "total ess = sum_list (map length ess)"

lemma total_simps [simp]: "total [] = 0" "total (es # ess) = length es + total ess"
  by (simp_all add: total_def)

lemma total_filter: "total (filter (\<lambda>es. es \<noteq> []) ess) = total ess"
  by (induction ess) auto

lemma length_drop_key: "length (drop_key k es) \<le> length es"
  by (simp add: drop_key_def)

lemma total_drop_key_le: "total (map (drop_key k) ess) \<le> total ess"
  by (induction ess) (auto intro: add_mono length_drop_key)

lemma total_drop_key:
  assumes "k \<in> set (head_keys ess)" and "[] \<notin> set ess"
  shows "total (map (drop_key k) ess) < total ess"
  using assms
proof (induction ess)
  case Nil
  then show ?case by (simp add: head_keys_def)
next
  case (Cons es ess)
  show ?case
  proof (cases "entry_key (hd es) = k")
    case True
    with Cons.prems have "length (drop_key k es) < length es"
      by (cases es) (auto simp: drop_key_def)
    with total_drop_key_le [of k ess] show ?thesis by simp
  next
    case False
    with Cons have "total (map (drop_key k) ess) < total ess"
      by (auto simp: head_keys_def)
    with length_drop_key [of k es] show ?thesis by simp
  qed
qed

lemma Min_head_keys: "ess \<noteq> [] \<Longrightarrow> Min (set (head_keys ess)) \<in> set (head_keys ess)"
  by (rule Min_in) (simp_all add: head_keys_def)

function merged :: "entry list list \<Rightarrow> entry list" where
  "merged ess = (let live = filter (\<lambda>es. es \<noteq> []) ess in
     if live = [] then [] else
     (let k = Min (set (head_keys live)) in winner k live @ merged (map (drop_key k) live)))"
  by pat_completeness auto
termination
proof (relation "measure total", goal_cases)
  case 1
  then show ?case by simp
next
  case (2 ess live k)
  then have "k \<in> set (head_keys live)"
    using Min_head_keys by blast
  then have "total (map (drop_key k) live) < total live"
    using 2(1) by (intro total_drop_key) auto
  with 2(1) show ?case by (simp add: total_filter)
qed

declare merged.simps [simp del]

text \<open>The entry of the newest list that has the key.\<close>

fun newest :: "entry list list \<Rightarrow> string \<Rightarrow> entry option" where
  "newest [] k = None"
| "newest (es # ess) k = (case lookup_entry es k of Some e \<Rightarrow> Some e | None \<Rightarrow> newest ess k)"

text \<open>Dropping the tombstones from a lookup.\<close>

definition live_entry :: "entry option \<Rightarrow> entry option" where
  "live_entry x = (case x of Some (Set k v) \<Rightarrow> Some (Set k v) | _ \<Rightarrow> None)"

definition key_sorted :: "entry list \<Rightarrow> bool" where
  "key_sorted es \<longleftrightarrow> sorted_wrt (<) (map entry_key es)"

lemma key_sorted_simps [simp]:
  "key_sorted []"
  "key_sorted (e # es) \<longleftrightarrow> (\<forall>d \<in> set es. entry_key e < entry_key d) \<and> key_sorted es"
  by (simp_all add: key_sorted_def)

lemma newest_filter: "newest (filter (\<lambda>es. es \<noteq> []) ess) k = newest ess k"
  by (induction ess) (auto split: option.splits)

lemma key_sorted_drop_key: "key_sorted es \<Longrightarrow> key_sorted (drop_key k es)"
  by (cases es) (auto simp: drop_key_def)

lemma lookup_drop_key_other: "j \<noteq> k \<Longrightarrow> lookup_entry (drop_key k es) j = lookup_entry es j"
  by (cases es) (auto simp: drop_key_def)

lemma newest_drop_key_other: "j \<noteq> k \<Longrightarrow> newest (map (drop_key k) ess) j = newest ess j"
  by (induction ess) (auto simp: lookup_drop_key_other split: option.splits)

lemma set_drop_key: "set (drop_key k es) \<subseteq> set es"
  by (cases es) (auto simp: drop_key_def)

text \<open>Where \<open>k\<close> is a least key, the keys left after the round are greater.\<close>

lemma drop_key_above:
  assumes "key_sorted es" and "es \<noteq> [] \<Longrightarrow> k \<le> entry_key (hd es)" and "e \<in> set (drop_key k es)"
  shows "k < entry_key e"
  using assms by (cases es) (auto simp: drop_key_def split: if_splits)

lemma lookup_least:
  assumes "key_sorted es" and "es \<noteq> []" and "k \<le> entry_key (hd es)"
  shows "lookup_entry es k = (if entry_key (hd es) = k then Some (hd es) else None)"
proof (cases es)
  case Nil
  with assms(2) show ?thesis by simp
next
  case (Cons e es')
  show ?thesis
  proof (cases "entry_key e = k")
    case True
    with Cons show ?thesis by simp
  next
    case False
    with assms Cons have "k < entry_key d" if "d \<in> set es'" for d
      using that by (auto intro: order.strict_trans1)
    then have "lookup_entry es' k = None" by (auto simp: lookup_entry_None_iff)
    with Cons False show ?thesis by simp
  qed
qed

lemma newest_least:
  assumes "\<forall>es \<in> set ess. key_sorted es \<and> es \<noteq> [] \<and> k \<le> entry_key (hd es)"
  shows "newest ess k = map_option hd (find (\<lambda>es. es \<noteq> [] \<and> entry_key (hd es) = k) ess)"
  using assms
proof (induction ess)
  case Nil
  then show ?case by simp
next
  case (Cons es ess)
  then have "lookup_entry es k = (if entry_key (hd es) = k then Some (hd es) else None)"
    by (intro lookup_least) auto
  with Cons show ?case by simp
qed

lemma winner_newest:
  assumes "\<forall>es \<in> set ess. key_sorted es \<and> es \<noteq> [] \<and> k \<le> entry_key (hd es)"
  shows "winner k ess = (case live_entry (newest ess k) of None \<Rightarrow> [] | Some e \<Rightarrow> [e])"
  by (auto simp: newest_least [OF assms] winner_def live_entry_def split: option.splits entry.splits)

lemma live_entry_key: "live_entry (newest ess k) = Some e \<Longrightarrow> entry_key e = k"
  by (induction ess)
    (auto simp: live_entry_def split: option.splits entry.splits dest!: lookup_entry_Some)

text \<open>
  One round, as facts: the least key \<open>k\<close>, its winner, and lists whose keys are all greater.
\<close>

lemma merged_round:
  assumes "\<forall>es \<in> set ess. key_sorted es" and "filter (\<lambda>es. es \<noteq> []) ess \<noteq> []"
  obtains k where "merged ess = (case live_entry (newest ess k) of None \<Rightarrow> [] | Some e \<Rightarrow> [e]) @
      merged (map (drop_key k) (filter (\<lambda>es. es \<noteq> []) ess))"
    and "k = Min (set (head_keys (filter (\<lambda>es. es \<noteq> []) ess)))"
    and "\<forall>es \<in> set (map (drop_key k) (filter (\<lambda>es. es \<noteq> []) ess)). key_sorted es \<and> (\<forall>e \<in> set es. k < entry_key e)"
proof -
  let ?live = "filter (\<lambda>es. es \<noteq> []) ess"
  let ?k = "Min (set (head_keys ?live))"
  have least: "\<forall>es \<in> set ?live. key_sorted es \<and> es \<noteq> [] \<and> ?k \<le> entry_key (hd es)"
    using assms(1) by (auto simp: head_keys_def intro!: Min_le)
  have "merged ess = winner ?k ?live @ merged (map (drop_key ?k) ?live)"
    using assms(2) by (simp add: merged.simps [of ess] Let_def)
  moreover have "winner ?k ?live = (case live_entry (newest ess ?k) of None \<Rightarrow> [] | Some e \<Rightarrow> [e])"
    using winner_newest [OF least] by (simp add: newest_filter)
  moreover have "\<forall>es \<in> set (map (drop_key ?k) ?live). key_sorted es \<and> (\<forall>e \<in> set es. ?k < entry_key e)"
    using least by (fastforce intro: key_sorted_drop_key drop_key_above)
  ultimately show ?thesis by (intro that [of ?k]) auto
qed

lemma merged_empty: "filter (\<lambda>es. es \<noteq> []) ess = [] \<Longrightarrow> merged ess = []"
  by (simp add: merged.simps)

subsection \<open>What the merge returns\<close>

lemma merged_facts:
  assumes "\<forall>es \<in> set ess. key_sorted es"
  shows "key_sorted (merged ess) \<and> set (merged ess) \<subseteq> \<Union> (set ` set ess) \<and>
    (\<forall>j. lookup_entry (merged ess) j = live_entry (newest ess j))"
  using assms
proof (induction "total ess" arbitrary: ess rule: less_induct)
  case less
  let ?live = "filter (\<lambda>es. es \<noteq> []) ess"
  show ?case
  proof (cases "?live = []")
    case True
    then have "newest ess j = None" for j
      using newest_filter [of ess j] by simp
    with True show ?thesis by (simp add: merged_empty live_entry_def)
  next
    case False
    obtain k where m: "merged ess = (case live_entry (newest ess k) of None \<Rightarrow> [] | Some e \<Rightarrow> [e]) @
        merged (map (drop_key k) ?live)"
      and k: "k = Min (set (head_keys ?live))"
      and above: "\<forall>es \<in> set (map (drop_key k) ?live). key_sorted es \<and> (\<forall>e \<in> set es. k < entry_key e)"
      using merged_round [OF less.prems False] by blast
    let ?rest = "map (drop_key k) ?live"
    have "total ?rest < total ess"
      using total_drop_key [of k ?live] Min_head_keys [OF False] k by (simp add: total_filter)
    then have IH: "key_sorted (merged ?rest) \<and> set (merged ?rest) \<subseteq> \<Union> (set ` set ?rest) \<and>
        (\<forall>j. lookup_entry (merged ?rest) j = live_entry (newest ?rest j))"
      using above by (intro less.hyps) auto
    have sub: "\<Union> (set ` set ?rest) \<subseteq> \<Union> (set ` set ess)"
      using set_drop_key by fastforce
    have greater: "k < entry_key e" if "e \<in> set (merged ?rest)" for e
      using IH above that by fastforce
    have other: "newest ?rest j = newest ess j" if "j \<noteq> k" for j
      using newest_drop_key_other [OF that] by (simp add: newest_filter)
    have self: "lookup_entry (merged ?rest) k = None"
      using greater by (auto simp: lookup_entry_None_iff)
    have mem: "e \<in> \<Union> (set ` set ess)" if "live_entry (newest ess j) = Some e" for e j
      using that by (induction ess)
        (auto simp: live_entry_def split: option.splits entry.splits dest!: lookup_entry_Some)
    show ?thesis
    proof (cases "live_entry (newest ess k)")
      case None
      with m IH sub other self show ?thesis by auto metis
    next
      case (Some e)
      then have "entry_key e = k" by (rule live_entry_key)
      with Some m IH sub other mem greater show ?thesis by auto
    qed
  qed
qed

lemma merged_sorted: "\<forall>es \<in> set ess. key_sorted es \<Longrightarrow> key_sorted (merged ess)"
  using merged_facts by blast

lemma merged_subset: "\<forall>es \<in> set ess. key_sorted es \<Longrightarrow> set (merged ess) \<subseteq> \<Union> (set ` set ess)"
  using merged_facts by blast

lemma merged_lookup:
  "\<forall>es \<in> set ess. key_sorted es \<Longrightarrow> lookup_entry (merged ess) k = live_entry (newest ess k)"
  using merged_facts by blast

lemma lookup_entry_sorted:
  "key_sorted es \<Longrightarrow> e \<in> set es \<Longrightarrow> lookup_entry es (entry_key e) = Some e"
  by (induction es) auto

lemma merged_no_tombstone:
  assumes "\<forall>es \<in> set ess. key_sorted es" and "e \<in> set (merged ess)"
  shows "\<exists>k v. e = Set k v"
proof -
  have "live_entry (newest ess (entry_key e)) = Some e"
    using lookup_entry_sorted [OF merged_sorted [OF assms(1)] assms(2)] merged_lookup [OF assms(1)]
    by simp
  then show ?thesis
    by (auto simp: live_entry_def split: option.splits entry.splits)
qed

section \<open>The model computes it\<close>

text \<open>\<open>cursor_at X w c es\<close>: what the cursor still has to deliver is \<open>es\<close>.\<close>

definition cursor_at :: "crates \<Rightarrow> world \<Rightarrow> cursor \<Rightarrow> entry list \<Rightarrow> bool" where
  "cursor_at X w c es \<longleftrightarrow> (case es of
       [] \<Rightarrow> fst c = None
     | e # es' \<Rightarrow> fst c = Some e \<and> remaining X (snd c) w es')"

definition cursor_fid :: "cursor \<Rightarrow> fid" where
  "cursor_fid c = fid (table_file (snd c))"

lemma advance_ok:
  assumes "faults w = []" and "remaining X t w es"
  shows "\<exists>c. advance X t w = (Inr c, w) \<and> cursor_at X w c es \<and> cursor_fid c = fid (table_file t)"
proof (cases es)
  case Nil
  with read_next_entry_Nil [OF assms(1)] assms(2) show ?thesis
    by (fastforce simp: advance_def cursor_at_def cursor_fid_def)
next
  case (Cons e es')
  with read_next_entry_Cons [OF assms(1)] assms(2) show ?thesis
    by (fastforce simp: advance_def cursor_at_def cursor_fid_def)
qed

definition winner_of :: "entry \<Rightarrow> entry list" where
  "winner_of e = (case e of Set _ _ \<Rightarrow> [e] | Delete _ \<Rightarrow> [])"

lemma esize_bound: "entry_ok X e \<Longrightarrow> esize X e < 2 ^ 33"
  using entry_ok_payload(3,4) [of X e] by (simp add: esize_def)

lemma take_winner_ok:
  assumes "memtable_wf X m" and "entry_ok X e" and "tracked m \<le> 2 ^ 22 \<or> k \<in> seen"
  shows "take_winner X k e (seen, m, w) = (Inr (), if entry_key e = k \<and> k \<notin> seen
    then (insert k seen, fold (inserted X) (winner_of e) m, w) else (seen, m, w))"
proof (cases "entry_key e = k \<and> k \<notin> seen")
  case True
  then have "process X e m = (Inr (memtable_get m (entry_key e)), inserted X e m)"
    using esize_bound [OF assms(2)] assms(3) by (intro process_ok assms(1,2)) auto
  with True show ?thesis
    by (cases e) (auto simp: take_winner_def winner_of_def)
next
  case False
  then show ?thesis by (auto simp: take_winner_def)
qed

lemma visit_ok:
  assumes "faults w = []" and "cursor_at X w c (e # es)" and "memtable_wf X m" and "entry_ok X e"
    and "tracked m \<le> 2 ^ 22 \<or> k \<in> seen"
  shows "\<exists>d. visit X k c (seen, m, w) = (Inr d, if entry_key e = k \<and> k \<notin> seen
      then (insert k seen, fold (inserted X) (winner_of e) m, w) else (seen, m, w)) \<and>
    cursor_at X w d (drop_key k (e # es)) \<and> cursor_fid d = cursor_fid c"
proof -
  obtain t where c: "c = (Some e, t)" and r: "remaining X t w es"
    using assms(2) by (cases c) (auto simp: cursor_at_def)
  obtain d where d: "advance X t w = (Inr d, w)" "cursor_at X w d es" "cursor_fid d = fid (table_file t)"
    using advance_ok [OF assms(1) r] by blast
  have on: "on_snd (on_snd (advance X t)) (s, n, w) = (Inr d, (s, n, w))" for s :: "string set" and n :: memtable
    using d(1) by (simp add: on_snd_def)
  show ?thesis
  proof (cases "entry_key e = k")
    case True
    with c d on show ?thesis
      by (intro exI [of _ d])
        (auto simp: visit_def bindS_def take_winner_ok [OF assms(3-5)] drop_key_def cursor_fid_def)
  next
    case False
    with c assms(2) show ?thesis
      by (intro exI [of _ c])
        (simp add: visit_def bindS_def take_winner_ok [OF assms(3-5)] drop_key_def)
  qed
qed

lemma winner_simps:
  "winner k [] = []"
  "es \<noteq> [] \<Longrightarrow> winner k (es # ess) =
     (if entry_key (hd es) = k then winner_of (hd es) else winner k ess)"
  by (simp_all add: winner_def winner_of_def)

lemma winner_of_wf:
  assumes "memtable_wf X m" and "entry_ok X e" and "tracked m \<le> 2 ^ 22"
  shows "memtable_wf X (fold (inserted X) (winner_of e) m)"
  using assms esize_bound [OF assms(2)] by (cases e) (auto simp: winner_of_def intro: inserted_wf)

lemma visit_all_ok:
  assumes "faults w = []" and "list_all2 (cursor_at X w) cs ess"
    and "\<forall>es \<in> set ess. es \<noteq> [] \<and> list_all (entry_ok X) es"
    and "memtable_wf X m" and "tracked m \<le> 2 ^ 22 \<or> k \<in> seen"
  shows "\<exists>ds. visit_all X k cs (seen, m, w) =
      (Inr ds, (if k \<in> set (head_keys ess) then insert k seen else seen,
        fold (inserted X) (if k \<in> seen then [] else winner k ess) m, w)) \<and>
    list_all2 (cursor_at X w) ds (map (drop_key k) ess) \<and> map cursor_fid ds = map cursor_fid cs"
  using assms(2-5)
proof (induction cs ess arbitrary: seen m rule: list_all2_induct)
  case Nil
  then show ?case by (simp add: head_keys_def winner_simps)
next
  case (Cons c cs es ess)
  obtain e es' where es: "es = e # es'" and e: "entry_ok X e"
    using Cons.prems(1) by (cases es) auto
  let ?hit = "entry_key e = k \<and> k \<notin> seen"
  let ?m = "if ?hit then fold (inserted X) (winner_of e) m else m"
  let ?seen = "if ?hit then insert k seen else seen"
  obtain d where d: "visit X k c (seen, m, w) = (Inr d, (?seen, ?m, w))"
      "cursor_at X w d (drop_key k es)" "cursor_fid d = cursor_fid c"
    using visit_ok [OF assms(1) Cons.hyps(1) [unfolded es] Cons.prems(2) e Cons.prems(3)] es
    by (cases ?hit) auto
  have wf: "memtable_wf X ?m"
    using Cons.prems(2,3) e winner_of_wf by auto
  have room: "tracked ?m \<le> 2 ^ 22 \<or> k \<in> ?seen"
    using Cons.prems(3) by auto
  obtain ds where ds: "visit_all X k cs (?seen, ?m, w) =
      (Inr ds, (if k \<in> set (head_keys ess) then insert k ?seen else ?seen,
        fold (inserted X) (if k \<in> ?seen then [] else winner k ess) ?m, w))"
      "list_all2 (cursor_at X w) ds (map (drop_key k) ess)" "map cursor_fid ds = map cursor_fid cs"
    using Cons.IH [OF _ wf room] Cons.prems(1) by auto
  have "visit_all X k (c # cs) (seen, m, w) =
      (Inr (d # ds), (if k \<in> set (head_keys ess) then insert k ?seen else ?seen,
        fold (inserted X) (if k \<in> ?seen then [] else winner k ess) ?m, w))"
    using d(1) ds(1) by (simp add: bindS_def)
  moreover have "(if k \<in> set (head_keys ess) then insert k ?seen else ?seen) =
      (if k \<in> set (head_keys (es # ess)) then insert k seen else seen)"
    using es by (auto simp: head_keys_def)
  moreover have "fold (inserted X) (if k \<in> ?seen then [] else winner k ess) ?m =
      fold (inserted X) (if k \<in> seen then [] else winner k (es # ess)) m"
    using es by (auto simp: winner_simps)
  ultimately show ?case using d ds by auto
qed

subsection \<open>The loop\<close>

lemma min_key_Some: "ks \<noteq> [] \<Longrightarrow> (case ks of [] \<Rightarrow> None | k # r \<Rightarrow> Some (fold min r k)) = Some (Min (set ks))"
  by (cases ks) (simp_all add: Min.set_eq_fold [symmetric])

lemma cursor_at_keys:
  "list_all2 (cursor_at X w) cs ess \<Longrightarrow> [] \<notin> set ess \<Longrightarrow>
   map entry_key (List.map_filter fst cs) = head_keys ess"
  by (induction rule: list_all2_induct)
    (auto simp: head_keys_def cursor_at_def List.map_filter_def split: list.splits)

lemma cursor_at_filter:
  "list_all2 (cursor_at X w) cs ess \<Longrightarrow>
   list_all2 (cursor_at X w) (filter (\<lambda>c. fst c \<noteq> None) cs) (filter (\<lambda>es. es \<noteq> []) ess)"
  by (induction rule: list_all2_induct) (auto simp: cursor_at_def split: list.splits)

lemma min_key_ok:
  assumes "list_all2 (cursor_at X w) cs ess" and "[] \<notin> set ess"
  shows "min_key cs = (if ess = [] then None else Some (Min (set (head_keys ess))))"
proof (cases "ess = []")
  case True
  with assms show ?thesis by (simp add: min_key_def List.map_filter_def)
next
  case False
  then have "head_keys ess \<noteq> []" by (simp add: head_keys_def)
  with False show ?thesis
    unfolding min_key_def cursor_at_keys [OF assms] by (simp add: min_key_Some)
qed

text \<open>
  The clock behaves for its next \<open>n\<close> readings: they are after the epoch, fit the twenty digits
  of a file name and do not go back, and no file of the directory has a name from the future.
\<close>

definition next_name :: "world \<Rightarrow> string" where
  "next_name w = sst_name (nat (clock w (ticks w)))"

definition clock_ok :: "nat \<Rightarrow> world \<Rightarrow> bool" where
  "clock_ok n w \<longleftrightarrow>
     (\<forall>i < n. 0 \<le> clock w (ticks w + i) \<and> clock w (ticks w + i) < 10 ^ 20) \<and>
     (\<forall>i < n - 1. clock w (ticks w + i) < clock w (ticks w + Suc i)) \<and>
     (0 < n \<longrightarrow> (\<forall>f \<in> set (map fst (ssts w)). f < next_name w))"

lemma flushed_simps [simp]:
  "faults (flushed X es w) = faults w" "clock (flushed X es w) = clock w"
  "ticks (flushed X es w) = Suc (ticks w)" "wal (flushed X es w) = wal w"
  "ssts (flushed X es w) = AList.update (next_name w) (table_image X es) (ssts w)"
  by (simp_all add: flushed_def next_name_def)

lemma names_flushed: "fst ` set (ssts (flushed X es w)) = insert (next_name w) (fst ` set (ssts w))"
  by (simp add: dom_update)

lemma clock_ok_mono: "clock_ok n w \<Longrightarrow> k \<le> n \<Longrightarrow> clock_ok k w"
  by (auto simp: clock_ok_def)

lemma clock_ok_names: "clock_ok (Suc n) w \<Longrightarrow> f \<in> fst ` set (ssts w) \<Longrightarrow> f < next_name w"
  by (auto simp: clock_ok_def)

lemma clock_ok_fresh: "clock_ok (Suc n) w \<Longrightarrow> next_name w \<notin> fst ` set (ssts w)"
  using clock_ok_names by fastforce

lemma clock_ok_now: "clock_ok (Suc n) w \<Longrightarrow> 0 \<le> clock w (ticks w)"
  by (auto simp: clock_ok_def dest: spec [of _ 0])

lemma next_name_flushed:
  assumes "clock_ok (Suc (Suc n)) w"
  shows "next_name w < next_name (flushed X es w)"
proof -
  have "\<forall>i < Suc (Suc n). 0 \<le> clock w (ticks w + i) \<and> clock w (ticks w + i) < 10 ^ 20"
    and "\<forall>i < Suc n. clock w (ticks w + i) < clock w (ticks w + Suc i)"
    using assms by (simp_all add: clock_ok_def)
  from this(1) [rule_format, of 0] this(1) [rule_format, of 1] this(2) [rule_format, of 0]
  have c: "0 \<le> clock w (ticks w)" "clock w (Suc (ticks w)) < 10 ^ 20"
      "clock w (ticks w) < clock w (Suc (ticks w))" by simp_all
  then have "nat (clock w (Suc (ticks w))) < 10 ^ 20" by (simp add: nat_less_iff)
  with c show ?thesis by (simp add: next_name_def sst_name_mono)
qed

lemma clock_ok_flushed:
  assumes "clock_ok (Suc n) w"
  shows "clock_ok n (flushed X es w)"
proof -
  have "f < next_name (flushed X es w)" if "0 < n" and "f \<in> fst ` set (ssts (flushed X es w))" for f
  proof -
    have "f = next_name w \<or> f \<in> fst ` set (ssts w)"
      using that(2) by (auto simp: dom_update)
    moreover have "next_name w < next_name (flushed X es w)"
      using assms that(1) next_name_flushed [of "n - 1" w X es] by simp
    ultimately show ?thesis
      using clock_ok_names [OF assms] by (auto intro: less_trans)
  qed
  moreover have "clock w (Suc (ticks w) + i) < clock w (Suc (ticks w) + Suc i)" if "i < n - 1" for i
    using assms that unfolding clock_ok_def by (auto dest: spec [of _ "Suc i"])
  moreover have "0 \<le> clock w (Suc (ticks w) + i) \<and> clock w (Suc (ticks w) + i) < 10 ^ 20" if "i < n" for i
    using assms that unfolding clock_ok_def by (auto dest: spec [of _ "Suc i"])
  ultimately show ?thesis by (simp add: clock_ok_def del: add_Suc add_Suc_right)
qed

lemma contents_flushed: "f \<noteq> Sst (next_name w) \<Longrightarrow> contents (flushed X es w) f = contents w f"
  by (simp add: flushed_def next_name_def)

text \<open>
  The output of the merge as a run over the merged entries: the chunks that become files, cut
  where the memtable exceeds the flush threshold.
\<close>

fun chunks :: "crates \<Rightarrow> memtable \<Rightarrow> entry list \<Rightarrow> entry list list" where
  "chunks X m [] = (if memtable_values m = [] then [] else [memtable_values m])"
| "chunks X m (e # es) = (let m' = inserted X e m in
     if should_flush m' then memtable_values m' # chunks X memtable_new es else chunks X m' es)"

definition flush_chunks :: "crates \<Rightarrow> entry list list \<Rightarrow> world \<Rightarrow> world" where
  "flush_chunks X cs w = fold (flushed X) cs w"

lemma flush_chunks_simps [simp]:
  "flush_chunks X [] w = w" "flush_chunks X (c # cs) w = flush_chunks X cs (flushed X c w)"
  by (simp_all add: flush_chunks_def)

lemma should_flush_iff: "should_flush m \<longleftrightarrow> 2 ^ 22 < tracked m"
  by (simp add: should_flush_def FLUSH_THRESHOLD_MB_def)

lemma memtable_len_bound:
  assumes "memtable_wf X m"
  shows "memtable_len m \<le> tracked m"
  using length_le_esizes [OF memtable_values_ok [OF assms]] assms by (simp add: memtable_wf_def)

lemma winner_ok:
  assumes "\<forall>es \<in> set ess. es \<noteq> [] \<and> list_all (entry_ok X) es"
  shows "list_all (entry_ok X) (winner k ess)" and "length (winner k ess) \<le> 1"
proof -
  have *: "entry_ok X (hd es)" if "find P ess = Some es" for es P
  proof -
    have "es \<in> set ess" using that by (auto simp: find_Some_iff)
    with assms show ?thesis by (cases es) auto
  qed
  show "list_all (entry_ok X) (winner k ess)" and "length (winner k ess) \<le> 1"
    by (auto simp: winner_def split: option.splits entry.splits dest!: *)
qed

text \<open>The round's memtable, and its flush when it has become too large.\<close>

definition flush_if_needed :: "crates \<Rightarrow> memtable \<times> world \<Rightarrow> memtable \<times> world" where
  "flush_if_needed X s = (if should_flush (fst s)
     then (memtable_new, flushed X (memtable_values (fst s)) (snd s)) else s)"

lemma flush_if_full_ok:
  assumes "faults w = []" and "memtable_wf X m" and "memtable_len m \<le> 2 ^ 22 + 1"
    and "0 \<le> clock w (ticks w)"
  shows "flush_if_full X (m, w) = (Inr (), flush_if_needed X (m, w))"
proof (cases "should_flush m")
  case True
  then have "memtable_values m \<noteq> []"
    using assms(2) by (auto simp: memtable_wf_def should_flush_iff)
  moreover have "memtable_len m * 10 < 2 ^ 32" using assms(3) by simp
  ultimately show ?thesis
    using True assms flush_to_ok [OF assms(1,2)] by (simp add: flush_if_full_def flush_if_needed_def)
next
  case False
  then show ?thesis by (simp add: flush_if_full_def flush_if_needed_def)
qed

lemma fold_winner_bounds:
  assumes "memtable_wf X m" and "tracked m \<le> 2 ^ 22" and "list_all (entry_ok X) es"
    and "length es \<le> 1"
  shows "memtable_wf X (fold (inserted X) es m)"
    and "memtable_len (fold (inserted X) es m) \<le> 2 ^ 22 + 1"
proof -
  have "esizes X es < 2 ^ 33"
    using assms(3,4) esize_bound by (cases es) auto
  then have "tracked m + esizes X es < 2 ^ 64" using assms(2) by simp
  note fw = fold_inserted_wf [OF assms(1,3) this]
  show "memtable_wf X (fold (inserted X) es m)" by (rule fw(1))
  show "memtable_len (fold (inserted X) es m) \<le> 2 ^ 22 + 1"
    using fw(3) memtable_len_bound [OF assms(1)] assms(2,4) by linarith
qed

lemma chunks_winner:
  assumes "length ws \<le> 1" and "\<not> should_flush m" and "flush_if_needed X (fold (inserted X) ws m, w) = (m', w')"
  shows "flush_chunks X (chunks X m (ws @ es)) w = flush_chunks X (chunks X m' es) w'"
  using assms by (cases ws) (auto simp: flush_if_needed_def Let_def split: if_splits)

lemma length_chunks_winner:
  assumes "length ws \<le> 1" and "\<not> should_flush m"
  shows "chunks X m (ws @ es) = (if should_flush (fold (inserted X) ws m)
    then memtable_values (fold (inserted X) ws m) # chunks X memtable_new es
    else chunks X (fold (inserted X) ws m) es)"
  using assms by (cases ws) (auto simp: Let_def)

lemma not_should_flush_new [simp]: "\<not> should_flush memtable_new"
  by (simp add: should_flush_iff)

lemma cursor_at_flushed:
  assumes "list_all2 (cursor_at X w) cs ess" and "\<forall>c \<in> set cs. cursor_fid c \<noteq> Sst (next_name w)"
  shows "list_all2 (cursor_at X (flushed X es w)) cs ess"
  using assms
proof (induction rule: list_all2_induct)
  case Nil
  then show ?case by simp
next
  case (Cons c cs es' ess)
  then have "contents (flushed X es w) (fid (table_file (snd c))) = contents w (fid (table_file (snd c)))"
    by (intro contents_flushed) (simp add: cursor_fid_def)
  then have "remaining X (snd c) (flushed X es w) xs = remaining X (snd c) w xs" for xs
    by (rule remaining_cong)
  then have "cursor_at X (flushed X es w) c es' = cursor_at X w c es'"
    by (simp add: cursor_at_def split: list.split)
  with Cons show ?case by simp
qed

text \<open>
  The state of the loop between two rounds: the cursors have the lists \<open>ess\<close> left to deliver,
  none of whose keys has been seen, and \<open>m\<close> holds the winners since the last flush.
\<close>

definition merging :: "crates \<Rightarrow> world \<Rightarrow> cursor list \<Rightarrow> entry list list \<Rightarrow> string set \<Rightarrow> memtable \<Rightarrow> bool" where
  "merging X w cs ess seen m \<longleftrightarrow> list_all2 (cursor_at X w) cs ess \<and>
     (\<forall>es \<in> set ess. key_sorted es \<and> list_all (entry_ok X) es) \<and> memtable_wf X m \<and> \<not> should_flush m \<and>
     (\<forall>es \<in> set ess. \<forall>e \<in> set es. entry_key e \<notin> seen) \<and>
     (\<forall>c \<in> set cs. \<exists>n \<in> fst ` set (ssts w). cursor_fid c = Sst n)"

lemma mergingD:
  assumes "merging X w cs ess seen m"
  shows "list_all2 (cursor_at X w) cs ess" and "\<forall>es \<in> set ess. key_sorted es"
    and "\<forall>es \<in> set ess. list_all (entry_ok X) es" and "memtable_wf X m" and "\<not> should_flush m"
    and "\<forall>es \<in> set ess. \<forall>e \<in> set es. entry_key e \<notin> seen"
    and "\<forall>c \<in> set cs. \<exists>n \<in> fst ` set (ssts w). cursor_fid c = Sst n"
  using assms by (auto simp: merging_def)

lemma merging_tracked: "merging X w cs ess seen m \<Longrightarrow> tracked m \<le> 2 ^ 22"
  by (simp add: merging_def should_flush_iff)

text \<open>A round that ends with a flush, or without one.\<close>

lemma merging_flushed:
  assumes "merging X w cs ess seen memtable_new" and "next_name w \<notin> fst ` set (ssts w)"
  shows "merging X (flushed X es w) cs ess seen memtable_new"
proof -
  note d = mergingD [OF assms(1)]
  have "\<forall>c \<in> set cs. cursor_fid c \<noteq> Sst (next_name w)" using d(7) assms(2) by (metis fid.inject)
  then have "list_all2 (cursor_at X (flushed X es w)) cs ess" using d(1) by (rule cursor_at_flushed [rotated])
  moreover have "\<forall>c \<in> set cs. \<exists>n \<in> fst ` set (ssts (flushed X es w)). cursor_fid c = Sst n"
    using d(7) unfolding names_flushed by blast
  ultimately show ?thesis using assms(1) by (simp add: merging_def)
qed

lemma merging_round:
  assumes "faults w = []" and "merging X w cs ess seen m" and "filter (\<lambda>es. es \<noteq> []) ess \<noteq> []"
  obtains k ds rest m' where
    "min_key (filter (\<lambda>c. fst c \<noteq> None) cs) = Some k"
    and "visit_all X k (filter (\<lambda>c. fst c \<noteq> None) cs) (seen, m, w) = (Inr ds, (insert k seen, m', w))"
    and "total rest < total ess" and "memtable_wf X m'" and "memtable_len m' \<le> 2 ^ 22 + 1"
    and "chunks X m (merged ess) = (if should_flush m'
      then memtable_values m' # chunks X memtable_new (merged rest) else chunks X m' (merged rest))"
    and "merging X w ds rest (insert k seen) (if should_flush m' then memtable_new else m')"
proof -
  let ?live = "filter (\<lambda>es. es \<noteq> []) ess" and ?cs = "filter (\<lambda>c. fst c \<noteq> None) cs"
  note d = mergingD [OF assms(2)] and tr = merging_tracked [OF assms(2)]
  have cur: "list_all2 (cursor_at X w) ?cs ?live" using d(1) by (rule cursor_at_filter)
  obtain k where md: "merged ess = (case live_entry (newest ess k) of None \<Rightarrow> [] | Some e \<Rightarrow> [e]) @
      merged (map (drop_key k) ?live)"
    and k: "k = Min (set (head_keys ?live))"
    and above: "\<forall>es \<in> set (map (drop_key k) ?live). key_sorted es \<and> (\<forall>e \<in> set es. k < entry_key e)"
    using merged_round [OF d(2) assms(3)] by blast
  let ?rest = "map (drop_key k) ?live" and ?ws = "winner k ?live"
  let ?m = "fold (inserted X) ?ws m"
  have kin: "k \<in> set (head_keys ?live)" using Min_head_keys [OF assms(3)] k by simp
  have md': "merged ess = ?ws @ merged ?rest"
    using assms(3) k by (simp add: merged.simps [of ess] Let_def)
  have okl: "\<forall>es \<in> set ?live. es \<noteq> [] \<and> list_all (entry_ok X) es" using d(3) by auto
  note ws = winner_ok [OF okl, of k]
  note mb = fold_winner_bounds [OF d(4) tr ws]
  have kseen: "k \<notin> seen" using kin d(6) by (force simp: head_keys_def)
  obtain ds where ds: "visit_all X k ?cs (seen, m, w) = (Inr ds, (insert k seen, ?m, w))"
      "list_all2 (cursor_at X w) ds ?rest" "map cursor_fid ds = map cursor_fid ?cs"
    using visit_all_ok [OF assms(1) cur okl d(4), of k seen] tr kseen kin by auto
  have old: "\<exists>es0 \<in> set ess. set es \<subseteq> set es0" if "es \<in> set ?rest" for es
  proof -
    obtain es0 where "es0 \<in> set ess" "es = drop_key k es0" using \<open>es \<in> set ?rest\<close> by auto
    with set_drop_key show ?thesis by blast
  qed
  have "\<forall>es \<in> set ?rest. \<forall>e \<in> set es. entry_key e \<notin> insert k seen"
  proof (intro ballI)
    fix es e assume es: "es \<in> set ?rest" "e \<in> set es"
    then have "k < entry_key e" using above by blast
    moreover have "entry_key e \<notin> seen" using old [OF es(1)] es(2) d(6) by blast
    ultimately show "entry_key e \<notin> insert k seen" by auto
  qed
  moreover have "\<exists>n \<in> fst ` set (ssts w). cursor_fid c = Sst n" if "c \<in> set ds" for c
  proof -
    have "cursor_fid c \<in> set (map cursor_fid ?cs)" using that ds(3) by (metis image_eqI list.set_map)
    with d(7) show ?thesis by auto
  qed
  moreover have "key_sorted es \<and> list_all (entry_ok X) es" if "es \<in> set ?rest" for es
    using above old [OF that] d(3) that unfolding list_all_iff by blast
  ultimately have "merging X w ds ?rest (insert k seen) (if should_flush ?m then memtable_new else ?m)"
    using ds(2) mb(1) by (simp add: merging_def)
  moreover have "total ?rest < total ess" using total_drop_key [OF kin] by (simp add: total_filter)
  moreover have "min_key ?cs = Some k" using min_key_ok [OF cur] assms(3) k by simp
  ultimately show ?thesis
    using that ds(1) mb md' length_chunks_winner [OF ws(2) d(5)] by simp
qed

lemma merge_all_Suc:
  assumes "min_key (filter (\<lambda>c. fst c \<noteq> None) cs) = Some k"
  shows "merge_all X (Suc fuel) cs = bindS (visit_all X k (filter (\<lambda>c. fst c \<noteq> None) cs))
    (\<lambda>ds. bindS (on_snd (flush_if_full X)) (\<lambda>_. merge_all X fuel ds))"
  using assms by (simp add: merge_all_def bindS_assoc)

text \<open>The last flush, when no cursor has anything left.\<close>

lemma last_flush:
  assumes "merging X w cs ess seen m" and "filter (\<lambda>es. es \<noteq> []) ess = []"
  shows "merge_all X (Suc fuel) cs (seen, m, v) =
      (case (if memtable_values m = [] then (Inr (), (m, v)) else flush_to X (m, v)) of (r, t) \<Rightarrow> (r, (seen, t)))"
    and "chunks X m (merged ess) = (if memtable_values m = [] then [] else [memtable_values m])"
    and "memtable_values m = [] \<Longrightarrow> m = memtable_new" and "memtable_len m * 10 < 2 ^ 32"
proof -
  note d = mergingD [OF assms(1)]
  have "min_key (filter (\<lambda>c. fst c \<noteq> None) cs) = None"
    using min_key_ok [OF cursor_at_filter [OF d(1)]] assms(2) by simp
  then show "merge_all X (Suc fuel) cs (seen, m, v) =
      (case (if memtable_values m = [] then (Inr (), (m, v)) else flush_to X (m, v)) of (r, t) \<Rightarrow> (r, (seen, t)))"
    using is_empty_iff [OF d(4)] by (simp add: merge_all_def bindS_def on_snd_def)
  show "chunks X m (merged ess) = (if memtable_values m = [] then [] else [memtable_values m])"
    using assms(2) by (simp add: merged_empty)
  show "memtable_values m = [] \<Longrightarrow> m = memtable_new"
    using is_empty_iff [OF d(4)] by (cases m) (simp add: is_empty_def memtable_new_def)
  show "memtable_len m * 10 < 2 ^ 32" using memtable_len_bound [OF d(4)] merging_tracked [OF assms(1)] by simp
qed

text \<open>
  The loop, from any point of it: with enough fuel it ends without an error, and has written
  exactly the chunks of what is left to merge.
\<close>

lemma merge_all_ok:
  assumes "total ess < fuel" and "faults w = []" and "merging X w cs ess seen m"
    and "clock_ok (length (chunks X m (merged ess))) w"
  shows "\<exists>seen'. merge_all X fuel cs (seen, m, w) =
    (Inr (), (seen', memtable_new, flush_chunks X (chunks X m (merged ess)) w))"
  using assms
proof (induction fuel arbitrary: ess cs seen m w)
  case 0
  then show ?case by simp
next
  case (Suc fuel)
  show ?case
  proof (cases "filter (\<lambda>es. es \<noteq> []) ess = []")
    case True
    note l = last_flush [OF Suc.prems(3) True]
    show ?thesis
    proof (cases "memtable_values m = []")
      case ne: False
      then have "0 \<le> clock w (ticks w)" using Suc.prems(4) l(2) by (auto intro: clock_ok_now)
      then show ?thesis
        using l(1,2) flush_to_ok [OF Suc.prems(2) mergingD(4) [OF Suc.prems(3)] ne l(4)] ne by simp
    qed (use l in simp)
  next
    case False
    obtain k ds rest m' where r: "min_key (filter (\<lambda>c. fst c \<noteq> None) cs) = Some k"
        "visit_all X k (filter (\<lambda>c. fst c \<noteq> None) cs) (seen, m, w) = (Inr ds, (insert k seen, m', w))"
        "total rest < total ess" "memtable_wf X m'" "memtable_len m' \<le> 2 ^ 22 + 1"
        "chunks X m (merged ess) = (if should_flush m'
          then memtable_values m' # chunks X memtable_new (merged rest) else chunks X m' (merged rest))"
        "merging X w ds rest (insert k seen) (if should_flush m' then memtable_new else m')"
      by (rule merging_round [OF Suc.prems(2,3) False])
    obtain m2 w2 where n: "flush_if_needed X (m', w) = (m2, w2)" by fastforce
    have now: "clock_ok (Suc (length (chunks X memtable_new (merged rest)))) w" if "should_flush m'"
      using Suc.prems(4) r(6) that by simp
    have "flush_if_full X (m', w) = (Inr (), (m2, w2))"
      using flush_if_full_ok [OF Suc.prems(2) r(4,5)] now clock_ok_now n
      by (cases "should_flush m'") (auto simp: flush_if_full_def flush_if_needed_def)
    then have step: "merge_all X (Suc fuel) cs (seen, m, w) = merge_all X fuel ds (insert k seen, m2, w2)"
      using r(2) unfolding merge_all_Suc [OF r(1)] by (simp add: bindS_def on_snd_def)
    have "merging X w2 ds rest (insert k seen) m2 \<and> faults w2 = [] \<and>
        clock_ok (length (chunks X m2 (merged rest))) w2 \<and>
        flush_chunks X (chunks X m (merged ess)) w = flush_chunks X (chunks X m2 (merged rest)) w2"
    proof (cases "should_flush m'")
      case True
      then have e: "m2 = memtable_new" "w2 = flushed X (memtable_values m') w"
        using n by (simp_all add: flush_if_needed_def)
      have "merging X w2 ds rest (insert k seen) m2"
        using merging_flushed clock_ok_fresh [OF now [OF True]] r(7) True e by simp
      with e r(6) True now clock_ok_flushed Suc.prems(2) show ?thesis by simp
    next
      case False
      with n r(6,7) Suc.prems(2,4) show ?thesis by (auto simp: flush_if_needed_def)
    qed
    with Suc.IH [of rest w2 ds "insert k seen" m2] r(3) Suc.prems(1) step show ?thesis by simp
  qed
qed

end
