(* ===== verification/Directory.thy ===== *)
theory Directory
  imports Compact "HOL-Library.Multiset"
begin

text \<open>
  The SSTable directory as the store's data: which tables it holds, which of them a lookup
  sees first, and what the flush and the compaction make of it.
\<close>

section \<open>The tables of a directory\<close>

type_synonym tables = "(string \<times> entry list) list"

definition holds :: "crates \<Rightarrow> world \<Rightarrow> tables \<Rightarrow> bool" where
  "holds X w T \<longleftrightarrow> ssts w = map (\<lambda>p. (fst p, table_image X (snd p))) T \<and>
     distinct (map fst T) \<and> (\<forall>p \<in> set T. table_ok X (snd p))"

text \<open>The entries of the tables, the file with the greatest name first.\<close>

definition table_named :: "tables \<Rightarrow> string \<Rightarrow> entry list" where
  "table_named T n = (case map_of T n of None \<Rightarrow> [] | Some es \<Rightarrow> es)"

definition newest_first :: "tables \<Rightarrow> entry list list" where
  "newest_first T = map (table_named T) (sort_desc (map fst T))"

text \<open>The entry a lookup finds in the tables: that of the newest table that has the key.\<close>

definition store_get :: "tables \<Rightarrow> string \<Rightarrow> entry option" where
  "store_get T k = newest (newest_first T) k"

lemma holds_names:
  assumes "holds X w T"
  shows "map fst (ssts w) = map fst T" and "fst ` set (ssts w) = fst ` set T"
proof -
  show "map fst (ssts w) = map fst T" using assms by (simp add: holds_def)
  then show "fst ` set (ssts w) = fst ` set T" by (metis list.set_map)
qed

lemma holds_table:
  assumes "holds X w T" and "n \<in> fst ` set T"
  shows "map_of (ssts w) n = Some (table_image X (table_named T n))" and "table_ok X (table_named T n)"
proof -
  obtain es where es: "map_of T n = Some es"
    using assms(2) by (metis domIff dom_map_of_conv_image_fst not_None_eq)
  have "map_of (map (\<lambda>p. (fst p, table_image X (snd p))) T) n = map_option (table_image X) (map_of T n)"
    by (induction T) auto
  with es assms(1) show "map_of (ssts w) n = Some (table_image X (table_named T n))"
    by (simp add: holds_def table_named_def)
  show "table_ok X (table_named T n)"
    using es assms(1) map_of_SomeD [OF es] by (force simp: holds_def table_named_def)
qed

lemma holds_cong: "ssts v = ssts w \<Longrightarrow> holds X v T = holds X w T"
  by (simp add: holds_def)

lemma length_update_known: "n \<in> fst ` set al \<Longrightarrow> length (AList.update n v al) = length al"
  by (induction al) auto

lemma update_fresh: "n \<notin> fst ` set al \<Longrightarrow> AList.update n v al = al @ [(n, v)]"
  by (induction al) auto

lemma holds_flushed:
  assumes "holds X w T" and "clock_ok (Suc n) w" and "table_ok X es"
  shows "holds X (flushed X es w) (T @ [(next_name w, es)])"
proof -
  have f: "next_name w \<notin> fst ` set (ssts w)" using assms(2) by (rule clock_ok_fresh)
  then have "next_name w \<notin> set (map fst T)" using holds_names [OF assms(1)] by simp
  with assms(1,3) f show ?thesis by (simp add: holds_def update_fresh)
qed

lemma sort_snoc_greatest:
  fixes ns :: "'a::linorder list"
  shows "\<forall>m \<in> set ns. m < n \<Longrightarrow> sort (ns @ [n]) = sort ns @ [n]"
  by (rule properties_for_sort) (auto simp: sorted_append intro: less_imp_le)

lemma table_named_append:
  "n \<notin> fst ` set U \<Longrightarrow> table_named (T @ U) n = table_named T n"
  "n \<notin> fst ` set T \<Longrightarrow> table_named (T @ U) n = table_named U n"
  by (simp_all add: table_named_def map_add_def map_of_eq_None_iff [THEN iffD2] split: option.split)

lemma newest_first_snoc:
  assumes "\<forall>m \<in> fst ` set T. m < n"
  shows "newest_first (T @ [(n, es)]) = es # newest_first T"
proof -
  have "n \<notin> fst ` set T" using assms by auto
  then have "table_named (T @ [(n, es)]) n = es"
    by (simp add: table_named_append(2)) (simp add: table_named_def)
  moreover have "table_named (T @ [(n, es)]) m = table_named T m" if "m \<in> fst ` set T" for m
    using assms that by (intro table_named_append(1)) auto
  moreover have "sort_desc (map fst (T @ [(n, es)])) = n # sort_desc (map fst T)"
    using assms sort_snoc_greatest [of "map fst T" n] by (simp add: sort_desc_def)
  ultimately show ?thesis by (simp add: newest_first_def)
qed

lemma newest_first_ok:
  assumes "holds X w T"
  shows "\<forall>es \<in> set (newest_first T). table_ok X es"
  using holds_table(2) [OF assms] by (auto simp: newest_first_def)

lemma table_ok_sorted: "table_ok X es \<Longrightarrow> key_sorted es"
  by (simp add: table_ok_def key_sorted_def)

lemma newest_first_sorted:
  "holds X w T \<Longrightarrow> \<forall>es \<in> set (newest_first T). key_sorted es \<and> list_all (entry_ok X) es"
  using newest_first_ok table_ok_sorted table_okD(2) by blast

section \<open>Chunks\<close>

lemma btree_insert_greatest:
  "\<forall>p \<in> set m. fst p < k \<Longrightarrow> btree_insert k v m = m @ [(k, v)]"
  by (induction m) (auto simp: not_less_iff_gr_or_eq)

lemma values_inserted_greatest:
  assumes "memtable_wf X m" and "\<forall>d \<in> set (memtable_values m). entry_key d < entry_key e"
  shows "memtable_values (inserted X e m) = memtable_values m @ [e]"
proof -
  have "\<forall>p \<in> set (entries m). fst p < entry_key e"
    using assms by (force simp: memtable_wf_def memtable_values_def btree_values_def)
  from btree_insert_greatest [OF this] show ?thesis
    by (simp add: inserted_def memtable_values_def btree_values_def Let_def)
qed

lemma key_sorted_append:
  "key_sorted (es @ fs) \<longleftrightarrow> key_sorted es \<and> key_sorted fs \<and>
     (\<forall>d \<in> set es. \<forall>e \<in> set fs. entry_key d < entry_key e)"
  by (auto simp: key_sorted_def sorted_wrt_append)

definition chunk_ok :: "crates \<Rightarrow> entry list \<Rightarrow> bool" where
  "chunk_ok X c \<longleftrightarrow> c \<noteq> [] \<and> list_all (entry_ok X) c \<and> length c \<le> 2 ^ 22 + 1 \<and> esizes X c \<le> 2 ^ 22 + 2 ^ 33"

lemma memtable_chunk_ok:
  assumes "memtable_wf X m" and "memtable_values m \<noteq> []" and "tracked m \<le> 2 ^ 22 + 2 ^ 33"
    and "memtable_len m \<le> 2 ^ 22 + 1"
  shows "chunk_ok X (memtable_values m)"
  using assms memtable_values_ok [OF assms(1)] by (simp add: chunk_ok_def memtable_wf_def)

lemma chunks_facts:
  assumes "memtable_wf X m" and "\<not> should_flush m" and "list_all (entry_ok X) es"
    and "key_sorted (memtable_values m @ es)"
  shows "concat (chunks X m es) = memtable_values m @ es \<and> list_all (chunk_ok X) (chunks X m es)"
  using assms
proof (induction es arbitrary: m)
  case Nil
  have "tracked m \<le> 2 ^ 22" using Nil.prems(2) by (simp add: should_flush_iff)
  with memtable_chunk_ok [OF Nil.prems(1)] memtable_len_bound [OF Nil.prems(1)] show ?case by simp
next
  case (Cons e es)
  let ?m = "inserted X e m"
  have tr: "tracked m \<le> 2 ^ 22" using Cons.prems(2) by (simp add: should_flush_iff)
  have e: "entry_ok X e" and es: "list_all (entry_ok X) es" using Cons.prems(3) by simp_all
  have tr': "tracked ?m \<le> 2 ^ 22 + 2 ^ 33"
    using tracked_inserted [OF Cons.prems(1), of e] esize_bound [OF e] tr by linarith
  have wf: "memtable_wf X ?m"
    using esize_bound [OF e] tr by (intro inserted_wf [OF Cons.prems(1) e]) simp
  have vals: "memtable_values ?m = memtable_values m @ [e]"
    using Cons.prems(4) by (intro values_inserted_greatest [OF Cons.prems(1)]) (auto simp: key_sorted_append)
  have len: "memtable_len ?m \<le> 2 ^ 22 + 1"
    using len_inserted [of X e m] memtable_len_bound [OF Cons.prems(1)] tr by linarith
  show ?case
  proof (cases "should_flush ?m")
    case True
    have "concat (chunks X memtable_new es) = es \<and> list_all (chunk_ok X) (chunks X memtable_new es)"
      using Cons.IH [of memtable_new] es Cons.prems(4) by (simp add: key_sorted_append)
    with True vals memtable_chunk_ok [OF wf _ tr' len] show ?thesis by (simp add: Let_def)
  next
    case False
    with Cons.IH [OF wf False es] Cons.prems(4) vals show ?thesis by (simp add: Let_def)
  qed
qed

lemma length_records_bytes: "length (records_bytes X es) \<le> 10 * length es + esizes X es"
  by (induction es) (simp_all add: HEADER_LEN_def esize_def)

lemma length_table_image:
  "length (table_image X es) \<le> 12 * length es + esizes X es + 5"
proof -
  have "div_ceil (length es * 10) 8 \<le> 2 * length es + 1" by (simp add: div_ceil_def)
  with length_records_bytes [of X es] show ?thesis
    by (simp add: table_image_def length_footer_bytes)
qed

lemma chunk_table_ok:
  assumes "chunk_ok X c" and "key_sorted c" and "quiet X (table_footer X c) []"
  shows "table_ok X c"
  using assms length_table_image [of X c]
  by (simp add: chunk_ok_def table_ok_def key_sorted_def)

lemma key_sorted_concat: "key_sorted (concat cs) \<Longrightarrow> c \<in> set cs \<Longrightarrow> key_sorted c"
  by (induction cs) (auto simp: key_sorted_append)

lemma lookup_entry_append:
  "lookup_entry (es @ fs) k = (case lookup_entry es k of None \<Rightarrow> lookup_entry fs k | Some e \<Rightarrow> Some e)"
  by (induction es) auto

lemma newest_snoc:
  "newest (ess @ [es]) k = (case newest ess k of None \<Rightarrow> lookup_entry es k | Some e \<Rightarrow> Some e)"
  by (induction ess) (auto split: option.splits)

text \<open>Tables with disjoint keys can be searched in any order.\<close>

lemma newest_rev_concat: "key_sorted (concat cs) \<Longrightarrow> newest (rev cs) k = lookup_entry (concat cs) k"
proof (induction cs)
  case Nil
  then show ?case by simp
next
  case (Cons c cs)
  then have IH: "newest (rev cs) k = lookup_entry (concat cs) k" by (simp add: key_sorted_append)
  have "lookup_entry c k = None \<or> lookup_entry (concat cs) k = None"
  proof (rule ccontr)
    assume "\<not> ?thesis"
    then obtain d e where "lookup_entry c k = Some d" "lookup_entry (concat cs) k = Some e" by auto
    from this [THEN lookup_entry_Some] Cons.prems show False by (force simp: key_sorted_append)
  qed
  with IH show ?case by (auto simp: newest_snoc lookup_entry_append split: option.splits)
qed

section \<open>Writing the chunks, removing the originals\<close>

lemma flush_chunks_holds:
  assumes "holds X w T" and "clock_ok (length cs + j) w" and "list_all (table_ok X) cs"
  shows "\<exists>ns. length ns = length cs \<and> holds X (flush_chunks X cs w) (T @ zip ns cs) \<and>
    sorted_wrt (<) ns \<and> (\<forall>n \<in> set ns. \<forall>m \<in> fst ` set T. m < n) \<and> clock_ok j (flush_chunks X cs w)"
  using assms
proof (induction cs arbitrary: w T)
  case Nil
  then show ?case by simp
next
  case (Cons c cs)
  let ?n = "next_name w" and ?w = "flushed X c w"
  have ck: "clock_ok (Suc (length cs + j)) w" using Cons.prems(2) by simp
  have h: "holds X ?w (T @ [(?n, c)])"
    using Cons.prems(3) by (intro holds_flushed [OF Cons.prems(1) ck]) simp
  obtain ns where ns: "length ns = length cs" "holds X (flush_chunks X cs ?w) ((T @ [(?n, c)]) @ zip ns cs)"
      "sorted_wrt (<) ns" "\<forall>n \<in> set ns. \<forall>m \<in> fst ` set (T @ [(?n, c)]). m < n"
      "clock_ok j (flush_chunks X cs ?w)"
    using Cons.IH [OF h clock_ok_flushed [OF ck]] Cons.prems(3) by auto
  have "\<forall>m \<in> fst ` set T. m < ?n"
    using clock_ok_names [OF ck] holds_names [OF Cons.prems(1)] by simp
  with ns show ?case by (intro exI [of _ "?n # ns"]) auto
qed

lemma flush_chunks_fields [simp]:
  "faults (flush_chunks X cs w) = faults w" "wal (flush_chunks X cs w) = wal w"
  "clock (flush_chunks X cs w) = clock w" "ticks (flush_chunks X cs w) = ticks w + length cs"
  by (induction cs arbitrary: w) simp_all

lemma delete_filter: "AList.delete n al = filter (\<lambda>p. fst p \<noteq> n) al"
  by (induction al) auto

lemma remove_files_ok:
  assumes "faults w = []" and "distinct ns" and "set ns \<subseteq> fst ` set (ssts w)"
  shows "remove_files ns w = (Inr (), w\<lparr>ssts := filter (\<lambda>p. fst p \<notin> set ns) (ssts w)\<rparr>)"
  using assms
proof (induction ns arbitrary: w)
  case Nil
  then show ?case by simp
next
  case (Cons n ns)
  let ?w = "w\<lparr>ssts := AList.delete n (ssts w)\<rparr>"
  have "set ns \<subseteq> fst ` set (ssts ?w)"
    using Cons.prems(2,3) by (fastforce simp: delete_filter)
  then have "remove_files ns ?w = (Inr (), ?w\<lparr>ssts := filter (\<lambda>p. fst p \<notin> set ns) (ssts ?w)\<rparr>)"
    using Cons.prems by (intro Cons.IH) auto
  moreover have "filter (\<lambda>p. fst p \<notin> set ns) (AList.delete n (ssts w)) =
      filter (\<lambda>p. fst p \<notin> set (n # ns)) (ssts w)"
    unfolding delete_filter filter_filter by (rule filter_cong) auto
  moreover have "remove_file n w = (Inr (), ?w)"
    using Cons.prems by (intro remove_file_ok) auto
  ultimately show ?case by (simp add: bindS_def)
qed

lemma holds_append_remove:
  assumes "holds X w (T @ U)"
  shows "holds X (w\<lparr>ssts := filter (\<lambda>p. fst p \<notin> fst ` set T) (ssts w)\<rparr>) U"
proof -
  have "filter (\<lambda>p. fst p \<notin> fst ` set T) (map (\<lambda>p. (fst p, table_image X (snd p))) T) = []"
    by (auto simp: filter_empty_conv)
  moreover have "fst p \<notin> fst ` set T" if "p \<in> set U" for p
    using assms that by (simp add: holds_def) blast
  then have "filter (\<lambda>p. fst p \<notin> fst ` set T) (map (\<lambda>p. (fst p, table_image X (snd p))) U) =
      map (\<lambda>p. (fst p, table_image X (snd p))) U"
    by (intro filter_True) simp
  ultimately show ?thesis using assms by (simp add: holds_def)
qed

section \<open>Opening all tables\<close>

lemma open_all_ok:
  assumes "faults w = []" and "holds X w T" and "set ns \<subseteq> fst ` set T"
  shows "\<exists>ts. open_all X ns w = (Inr (map Some ts), w) \<and>
    map (fid \<circ> table_file) ts = map Sst ns \<and>
    list_all2 (\<lambda>t es. remaining X t w es) ts (map (table_named T) ns)"
  using assms(3)
proof (induction ns)
  case Nil
  then show ?case by simp
next
  case (Cons n ns)
  have "set ns \<subseteq> fst ` set T" using Cons.prems by simp
  from Cons.IH [OF this] obtain ts where ts: "open_all X ns w = (Inr (map Some ts), w)"
      "map (fid \<circ> table_file) ts = map Sst ns"
      "list_all2 (\<lambda>t es. remaining X t w es) ts (map (table_named T) ns)" by blast
  have "n \<in> fst ` set T" using Cons.prems by simp
  from holds_table [OF assms(2) this] obtain t where t: "from_path X n w = (Inr (Some t), w)"
      "fid (table_file t) = Sst n" "remaining X t w (table_named T n)"
    using from_path_ok [OF assms(1)] by blast
  have "map (fid \<circ> table_file) (t # ts) = map Sst (n # ns)" using t(2) ts(2) by simp
  moreover have "open_all X (n # ns) w = (Inr (map Some (t # ts)), w)"
    using t(1) ts(1) by (simp add: bindS_def)
  moreover have "list_all2 (\<lambda>t es. remaining X t w es) (t # ts) (map (table_named T) (n # ns))"
    using t(3) ts(3) by simp
  ultimately show ?case by blast
qed

lemma prime_ok:
  assumes "faults w = []" and "list_all2 (\<lambda>t es. remaining X t w es) ts ess"
  shows "\<exists>cs. prime X ts w = (Inr cs, w) \<and> list_all2 (cursor_at X w) cs ess \<and>
    map cursor_fid cs = map (fid \<circ> table_file) ts"
  using assms(2)
proof (induction rule: list_all2_induct)
  case Nil
  then show ?case by simp
next
  case (Cons t ts es ess)
  then obtain cs where "prime X ts w = (Inr cs, w)" "list_all2 (cursor_at X w) cs ess"
      "map cursor_fid cs = map (fid \<circ> table_file) ts" by blast
  moreover obtain c where "advance X t w = (Inr c, w)" "cursor_at X w c es"
      "cursor_fid c = fid (table_file t)"
    using advance_ok [OF assms(1) Cons.hyps(1)] by blast
  ultimately show ?case by (intro exI [of _ "c # cs"]) (simp add: bindS_def)
qed

lemma map_filter_Some [simp]: "List.map_filter (\<lambda>t. t) (map Some ts) = ts"
  by (induction ts) (simp_all add: List.map_filter_def)

lemma table_named_member:
  assumes "distinct (map fst T)" and "p \<in> set T"
  shows "table_named T (fst p) = snd p"
proof -
  have "map_of T (fst p) = Some (snd p)" using assms by (intro map_of_is_SomeI) simp_all
  then show ?thesis by (simp add: table_named_def)
qed

lemma total_newest_first:
  assumes "distinct (map fst T)"
  shows "total (newest_first T) = total (map snd T)"
proof -
  let ?f = "length \<circ> table_named T"
  have "mset (map ?f (sort_desc (map fst T))) = mset (map ?f (map fst T))"
    by (simp only: mset_map sort_desc_def mset_rev mset_sort)
  then have "sum_list (map ?f (sort_desc (map fst T))) = sum_list (map ?f (map fst T))"
    by (metis sum_mset_sum_list)
  then have "total (newest_first T) = sum_list (map ?f (map fst T))"
    by (simp only: total_def newest_first_def map_map)
  also have "\<dots> = sum_list (map (\<lambda>p. length (snd p)) T)"
    unfolding map_map
    by (rule arg_cong [of _ _ sum_list], rule map_cong) (simp_all add: table_named_member [OF assms])
  finally show ?thesis by (simp add: total_def comp_def)
qed

lemma length_le_records_bytes: "length es \<le> length (records_bytes X es)"
  by (induction es) (auto simp: HEADER_LEN_def)

lemma compact_fuel_enough:
  assumes "holds X w T"
  shows "total (newest_first T) < compact_fuel w"
proof -
  have "total (map snd T) \<le> sum_list (map (\<lambda>p. length (table_image X (snd p))) T)"
    unfolding total_def map_map
    by (rule sum_list_mono) (simp add: table_image_def length_le_records_bytes trans_le_add1)
  also have "\<dots> = sum_list (map (length \<circ> snd) (ssts w))"
    using assms by (simp add: holds_def comp_def)
  finally show ?thesis
    using assms by (simp add: compact_fuel_def holds_def total_newest_first)
qed

section \<open>The compaction\<close>

text \<open>What a compaction of the tables writes.\<close>

definition compacted :: "crates \<Rightarrow> tables \<Rightarrow> entry list list" where
  "compacted X T = chunks X memtable_new (merged (newest_first T))"

lemma compacted_facts:
  assumes "holds X w T"
  shows "concat (compacted X T) = merged (newest_first T)" and "list_all (chunk_ok X) (compacted X T)"
    and "key_sorted (concat (compacted X T))"
proof -
  let ?m = "merged (newest_first T)"
  have s: "\<forall>es \<in> set (newest_first T). key_sorted es"
    using newest_first_sorted [OF assms] by blast
  have "\<forall>e \<in> \<Union> (set ` set (newest_first T)). entry_ok X e"
    using newest_first_sorted [OF assms] by (auto simp: list_all_iff)
  then have "list_all (entry_ok X) ?m"
    using merged_subset [OF s] by (auto simp: list_all_iff)
  then have "concat (compacted X T) = ?m \<and> list_all (chunk_ok X) (compacted X T)"
    using chunks_facts [of X memtable_new ?m] merged_sorted [OF s] by (simp add: compacted_def)
  then show "concat (compacted X T) = ?m" "list_all (chunk_ok X) (compacted X T)"
    and "key_sorted (concat (compacted X T))" using merged_sorted [OF s] by simp_all
qed

lemma compacted_tables_ok:
  assumes "holds X w T" and "\<forall>c \<in> set (compacted X T). quiet X (table_footer X c) []"
  shows "list_all (table_ok X) (compacted X T)"
  unfolding list_all_iff
proof
  fix c assume c: "c \<in> set (compacted X T)"
  show "table_ok X c"
  proof (rule chunk_table_ok)
    show "chunk_ok X c" using compacted_facts(2) [OF assms(1)] c by (simp add: list_all_iff)
    show "key_sorted c" using compacted_facts(3) [OF assms(1)] c by (rule key_sorted_concat)
    show "quiet X (table_footer X c) []" using assms(2) c by simp
  qed
qed

lemma newest_first_zip:
  "length ns = length cs \<Longrightarrow> sorted_wrt (<) ns \<Longrightarrow> newest_first (zip ns cs) = rev cs"
proof (induction ns cs rule: rev_induct2)
  case 1
  then show ?case by (simp add: newest_first_def sort_desc_def)
next
  case (4 n ns c cs)
  then have "length ns = length cs" and "sorted_wrt (<) ns" and "\<forall>m \<in> set ns. m < n"
    by (auto simp: sorted_wrt_append)
  moreover from this have "\<forall>m \<in> fst ` set (zip ns cs). m < n"
    by (auto dest: set_zip_leftD)
  ultimately show ?case using 4 by (simp add: newest_first_snoc)
qed simp_all

text \<open>The tables are opened, the newest first, and a cursor is put on the first entry of each.\<close>

lemma compact_start:
  assumes "faults w = []" and "holds X w T"
  obtains ts cs where "open_all X (sort_desc (map fst T)) w = (Inr (map Some ts), w)"
    and "prime X ts w = (Inr cs, w)" and "merging X w cs (newest_first T) {} memtable_new"
proof -
  let ?ns = "sort_desc (map fst T)"
  obtain ts where ts: "open_all X ?ns w = (Inr (map Some ts), w)" "map (fid \<circ> table_file) ts = map Sst ?ns"
      "list_all2 (\<lambda>t es. remaining X t w es) ts (newest_first T)"
    using open_all_ok [OF assms, of ?ns] by (auto simp: newest_first_def)
  obtain cs where cs: "prime X ts w = (Inr cs, w)" "list_all2 (cursor_at X w) cs (newest_first T)"
      "map cursor_fid cs = map Sst ?ns"
    using prime_ok [OF assms(1) ts(3)] ts(2) by auto
  have "\<exists>n \<in> fst ` set (ssts w). cursor_fid c = Sst n" if "c \<in> set cs" for c
  proof -
    have "cursor_fid c \<in> set (map Sst ?ns)" using that cs(3) by (metis image_eqI list.set_map)
    then show ?thesis using holds_names [OF assms(2)] by auto
  qed
  then have "merging X w cs (newest_first T) {} memtable_new"
    using cs(2) newest_first_sorted [OF assms(2)] by (simp add: merging_def)
  with that ts(1) cs(1) show ?thesis by blast
qed

text \<open>
  Everything but the deletions: the new tables are complete, and newer than the originals,
  before the first original is deleted.
\<close>

lemma compact_merged:
  assumes "faults w = []" and "holds X w T" and "clock_ok (length (compacted X T) + j) w"
    and "\<forall>c \<in> set (compacted X T). quiet X (table_footer X c) []"
  shows "compact X w = remove_files (sort_desc (map fst T)) (flush_chunks X (compacted X T) w)"
    and "\<exists>ns. length ns = length (compacted X T) \<and>
      holds X (flush_chunks X (compacted X T) w) (T @ zip ns (compacted X T)) \<and> sorted_wrt (<) ns \<and>
      (\<forall>n \<in> set ns. \<forall>m \<in> fst ` set T. m < n) \<and> clock_ok j (flush_chunks X (compacted X T) w)"
proof -
  let ?ns = "sort_desc (map fst T)" and ?CH = "compacted X T"
  obtain ts cs where start: "open_all X ?ns w = (Inr (map Some ts), w)" "prime X ts w = (Inr cs, w)"
      "merging X w cs (newest_first T) {} memtable_new"
    by (rule compact_start [OF assms(1,2)])
  from merge_all_ok [OF compact_fuel_enough [OF assms(2)] assms(1) start(3)] clock_ok_mono [OF assms(3)]
  obtain seen where merge: "merge_all X (compact_fuel w) cs ({}, memtable_new, w) =
      (Inr (), (seen, memtable_new, flush_chunks X ?CH w))"
    by (auto simp: compacted_def)
  let ?w = "flush_chunks X ?CH w"
  obtain ns where ns: "length ns = length ?CH" "holds X ?w (T @ zip ns ?CH)" "sorted_wrt (<) ns"
      "\<forall>n \<in> set ns. \<forall>m \<in> fst ` set T. m < n" "clock_ok j ?w"
    using flush_chunks_holds [OF assms(2,3) compacted_tables_ok [OF assms(2,4)]] by blast
  show "compact X w = remove_files ?ns ?w"
    using assms(1) start(1,2) merge holds_names(1) [OF assms(2)]
    by (simp add: compact_def bindS_def calls_ok with_local_def Let_def)
  show "\<exists>ns. length ns = length ?CH \<and> holds X ?w (T @ zip ns ?CH) \<and> sorted_wrt (<) ns \<and>
      (\<forall>n \<in> set ns. \<forall>m \<in> fst ` set T. m < n) \<and> clock_ok j ?w"
    using ns by blast
qed

lemma compact_ok:
  assumes "faults w = []" and "holds X w T" and "clock_ok (length (compacted X T) + j) w"
    and "\<forall>c \<in> set (compacted X T). quiet X (table_footer X c) []"
  shows "\<exists>ns w'. compact X w = (Inr (), w') \<and> holds X w' (zip ns (compacted X T)) \<and>
    length ns = length (compacted X T) \<and> sorted_wrt (<) ns \<and>
    (\<forall>n \<in> set ns. \<forall>m \<in> fst ` set T. m < n) \<and>
    faults w' = [] \<and> wal w' = wal w \<and> clock w' = clock w \<and> clock_ok j w'"
proof -
  let ?ns = "sort_desc (map fst T)" and ?CH = "compacted X T"
  let ?w = "flush_chunks X ?CH w"
  note run = compact_merged(1) [OF assms]
  obtain ns where ns: "length ns = length ?CH" "holds X ?w (T @ zip ns ?CH)" "sorted_wrt (<) ns"
      "\<forall>n \<in> set ns. \<forall>m \<in> fst ` set T. m < n" "clock_ok j ?w"
    using compact_merged(2) [OF assms] by blast
  let ?w' = "?w\<lparr>ssts := filter (\<lambda>p. fst p \<notin> fst ` set T) (ssts ?w)\<rparr>"
  have "set ?ns \<subseteq> fst ` set (ssts ?w)"
    unfolding holds_names(2) [OF ns(2)] by auto
  moreover have "distinct ?ns" using assms(2) by (simp add: holds_def)
  ultimately have "remove_files ?ns ?w = (Inr (), ?w')"
    using remove_files_ok [of ?w ?ns] assms(1) by simp
  then have "compact X w = (Inr (), ?w')" by (simp add: run)
  moreover have "clock_ok j ?w'"
    using ns(5) by (auto simp: clock_ok_def next_name_def)
  ultimately show ?thesis
    using holds_append_remove [OF ns(2)] ns assms(1) by (intro exI [of _ ns] exI [of _ ?w']) simp
qed

text \<open>Lookups see the same live entries in the compacted tables; tombstones are gone.\<close>

lemma store_get_compacted:
  assumes "holds X w T" and "length ns = length (compacted X T)" and "sorted_wrt (<) ns"
  shows "store_get (zip ns (compacted X T)) k = live_entry (store_get T k)"
proof -
  have s: "\<forall>es \<in> set (newest_first T). key_sorted es"
    using newest_first_sorted [OF assms(1)] by blast
  show ?thesis
    using newest_rev_concat [OF compacted_facts(3) [OF assms(1)], of k] merged_lookup [OF s]
    by (simp add: store_get_def newest_first_zip [OF assms(2,3)] compacted_facts(1) [OF assms(1)])
qed

text \<open>A compaction does not add entries.\<close>

lemma length_merged: "\<forall>es \<in> set ess. key_sorted es \<Longrightarrow> length (merged ess) \<le> total ess"
proof (induction "total ess" arbitrary: ess rule: less_induct)
  case less
  let ?live = "filter (\<lambda>es. es \<noteq> []) ess"
  show ?case
  proof (cases "?live = []")
    case True
    then show ?thesis by (simp add: merged_empty)
  next
    case False
    obtain k where m: "merged ess = (case live_entry (newest ess k) of None \<Rightarrow> [] | Some e \<Rightarrow> [e]) @
        merged (map (drop_key k) ?live)"
      and k: "k = Min (set (head_keys ?live))"
      and above: "\<forall>es \<in> set (map (drop_key k) ?live). key_sorted es \<and> (\<forall>e \<in> set es. k < entry_key e)"
      using merged_round [OF less.prems False] by blast
    have lt: "total (map (drop_key k) ?live) < total ess"
      using total_drop_key [of k ?live] Min_head_keys [OF False] k by (simp add: total_filter)
    have "length (merged (map (drop_key k) ?live)) \<le> total (map (drop_key k) ?live)"
      using above by (intro less.hyps [OF lt]) blast
    moreover have "length (case live_entry (newest ess k) of None \<Rightarrow> [] | Some e \<Rightarrow> [e]) \<le> 1"
      by (simp split: option.split)
    ultimately show ?thesis using lt unfolding m length_append by linarith
  qed
qed

lemma length_le_concat: "[] \<notin> set cs \<Longrightarrow> length cs \<le> length (concat cs)"
proof (induction cs)
  case Nil
  then show ?case by simp
next
  case (Cons c cs)
  then have "c \<noteq> []" by auto
  then have "Suc 0 \<le> length c" by (cases c) simp_all
  moreover have "length cs \<le> length (concat cs)" using Cons by simp
  ultimately show ?case unfolding concat.simps length_append list.size by linarith
qed

lemma compacted_length:
  assumes "holds X w T"
  shows "length (concat (compacted X T)) \<le> total (map snd T)"
    and "length (compacted X T) \<le> total (map snd T)"
proof -
  have "\<forall>es \<in> set (newest_first T). key_sorted es" using newest_first_sorted [OF assms] by blast
  from length_merged [OF this] show *: "length (concat (compacted X T)) \<le> total (map snd T)"
    using assms by (simp add: compacted_facts(1) [OF assms] total_newest_first holds_def)
  have "[] \<notin> set (compacted X T)"
    using compacted_facts(2) [OF assms] by (auto simp: chunk_ok_def list_all_iff)
  from length_le_concat [OF this] * show "length (compacted X T) \<le> total (map snd T)" by linarith
qed

lemma set_newest_first: "\<Union> (set ` set (newest_first T)) \<subseteq> \<Union> (set ` set (map snd T))"
proof -
  have "set (table_named T n) \<subseteq> \<Union> (set ` set (map snd T))" for n
  proof (cases "map_of T n")
    case None
    then show ?thesis by (simp add: table_named_def)
  next
    case (Some es)
    from map_of_SomeD [OF this] Some show ?thesis by (force simp: table_named_def)
  qed
  then show ?thesis by (auto simp: newest_first_def)
qed

lemma compacted_entries:
  assumes "holds X w T"
  shows "set (concat (compacted X T)) \<subseteq> \<Union> (set ` set (map snd T))"
    and "e \<in> set (concat (compacted X T)) \<Longrightarrow> \<exists>k v. e = Set k v"
proof -
  have s: "\<forall>es \<in> set (newest_first T). key_sorted es" using newest_first_sorted [OF assms] by blast
  show "set (concat (compacted X T)) \<subseteq> \<Union> (set ` set (map snd T))"
    using merged_subset [OF s] set_newest_first [of T] unfolding compacted_facts(1) [OF assms] by blast
  show "e \<in> set (concat (compacted X T)) \<Longrightarrow> \<exists>k v. e = Set k v"
    using merged_no_tombstone [OF s] unfolding compacted_facts(1) [OF assms] .
qed

end
