(* ===== verification/Store.thy ===== *)
theory Store
  imports Entry
begin

text \<open>
  The contract between the log store and its clients (the commands, the connections of the
  server): a map from keys to values behind \<open>get\<close>, \<open>write\<close> and \<open>maybe_flush\<close>. \<open>room n s\<close>
  says that the resources last for \<open>n\<close> more commands, \<open>busy n s\<close> that they do after the flush
  check that ends each of them. \<open>Log\<close> provides the contract.
\<close>

text \<open>The entry of a lookup result, and what an entry does to a map.\<close>

definition apply_entry :: "entry \<Rightarrow> (string \<Rightarrow> string option) \<Rightarrow> string \<Rightarrow> string option" where
  "apply_entry e m = m(entry_key e := entry_value e)"

lemma apply_entry_simps [simp]:
  "apply_entry (Set k v) m = m(k \<mapsto> v)" "apply_entry (Delete k) m = m(k := None)"
  by (simp_all add: apply_entry_def)

locale kv_store =
  fixes inv :: "'s \<Rightarrow> bool"
    and room :: "nat \<Rightarrow> 's \<Rightarrow> bool"
    and busy :: "nat \<Rightarrow> 's \<Rightarrow> bool"
    and good :: "'s \<Rightarrow> entry \<Rightarrow> bool"
    and val :: "'s \<Rightarrow> string \<Rightarrow> string option"
    and get :: "string \<Rightarrow> ('s, entry option) sio"
    and put :: "entry \<Rightarrow> ('s, unit) sio"
    and tidy :: "('s, unit) sio"
  assumes get_law: "inv s \<Longrightarrow> get k s = (Inr (map_option (Set k) (val s k)), s)"
    and put_law: "inv s \<Longrightarrow> room (Suc n) s \<Longrightarrow> good s e \<Longrightarrow>
      \<exists>t. put e s = (Inr (), t) \<and> inv t \<and> busy n t \<and> val t = apply_entry e (val s) \<and> good t = good s"
    and tidy_law: "inv s \<Longrightarrow> busy n s \<Longrightarrow>
      \<exists>t. tidy s = (Inr (), t) \<and> inv t \<and> room n t \<and> val t = val s \<and> good t = good s"
    and room_busy: "room (Suc n) s \<Longrightarrow> busy n s"
    and room_less: "room (Suc n) s \<Longrightarrow> room n s"
begin

lemma put_tidy:
  assumes "inv s" and "room (Suc n) s" and "good s e"
  shows "\<exists>t u. put e s = (Inr (), t) \<and> tidy t = (Inr (), u) \<and> inv u \<and> room n u \<and>
    val u = apply_entry e (val s) \<and> good u = good s"
  using put_law [OF assms] tidy_law [where n = n] by metis

lemma tidy_only:
  assumes "inv s" and "room (Suc n) s"
  shows "\<exists>u. tidy s = (Inr (), u) \<and> inv u \<and> room n u \<and> val u = val s \<and> good u = good s"
  using tidy_law [OF assms(1) room_busy [OF assms(2)]] .

end

text \<open>
  A store with maintenance: flushing it, compacting it and opening it again are operations of
  their own, which a client may call whenever it likes. Every sequence of operations is then
  a sequence of operations on a map, whatever maintenance is in between.
\<close>

datatype action =
    Write entry
  | Get string
  | Contains string
  | Flush
  | MaybeFlush
  | Compact
  | Reopen

datatype answer =
    Done
  | Found "entry option"
  | Known bool

fun spec_answer :: "action \<Rightarrow> (string \<Rightarrow> string option) \<Rightarrow> answer" where
  "spec_answer (Get k) m = Found (map_option (Set k) (m k))"
| "spec_answer (Contains k) m = Known (m k \<noteq> None)"
| "spec_answer a m = Done"

fun spec_effect :: "action \<Rightarrow> (string \<Rightarrow> string option) \<Rightarrow> string \<Rightarrow> string option" where
  "spec_effect (Write e) m = apply_entry e m"
| "spec_effect a m = m"

fun spec_script :: "action list \<Rightarrow> (string \<Rightarrow> string option) \<Rightarrow> answer list" where
  "spec_script [] m = []"
| "spec_script (a # as) m = spec_answer a m # spec_script as (spec_effect a m)"

locale kept_store = kv_store +
  fixes reopen :: "('a, unit) sio"
    and contains :: "string \<Rightarrow> ('a, bool) sio"
    and flush :: "('a, unit) sio"
    and compaction :: "('a, unit) sio"
  assumes reopen_law: "inv s \<Longrightarrow> room n s \<Longrightarrow>
      \<exists>t. reopen s = (Inr (), t) \<and> inv t \<and> room n t \<and> val t = val s \<and> good t = good s"
    and contains_law: "inv s \<Longrightarrow> contains k s = (Inr (val s k \<noteq> None), s)"
    and flush_law: "inv s \<Longrightarrow> busy n s \<Longrightarrow>
      \<exists>t. flush s = (Inr (), t) \<and> inv t \<and> room n t \<and> val t = val s \<and> good t = good s"
    and compaction_law: "inv s \<Longrightarrow> busy n s \<Longrightarrow>
      \<exists>t. compaction s = (Inr (), t) \<and> inv t \<and> room n t \<and> val t = val s \<and> good t = good s"
    and busy_room: "busy n s \<Longrightarrow> room n s"
begin

primrec act :: "action \<Rightarrow> ('a, answer) sio" where
  "act (Write e) = bindS (put e) (\<lambda>_. ret Done)"
| "act (Get k) = bindS (get k) (\<lambda>r. ret (Found r))"
| "act (Contains k) = bindS (contains k) (\<lambda>b. ret (Known b))"
| "act Flush = bindS flush (\<lambda>_. ret Done)"
| "act MaybeFlush = bindS tidy (\<lambda>_. ret Done)"
| "act Compact = bindS compaction (\<lambda>_. ret Done)"
| "act Reopen = bindS reopen (\<lambda>_. ret Done)"

primrec script :: "action list \<Rightarrow> ('a, answer list) sio" where
  "script [] = ret []"
| "script (a # as) = bindS (act a) (\<lambda>r. bindS (script as) (\<lambda>rs. ret (r # rs)))"

lemma act_ok:
  assumes "inv s" and "room (Suc n) s" and "\<forall>e. a = Write e \<longrightarrow> good s e"
  shows "\<exists>t. act a s = (Inr (spec_answer a (val s)), t) \<and> inv t \<and> room n t \<and>
    val t = spec_effect a (val s) \<and> good t = good s"
proof -
  note b = room_busy [OF assms(2)] and r = room_less [OF assms(2)]
  show ?thesis
  proof (cases a)
    case (Write e)
    then have g: "good s e" using assms(3) by simp
    show ?thesis using put_law [OF assms(1,2) g] busy_room Write by (fastforce simp: bindS_def)
  next
    case Flush
    then show ?thesis using flush_law [OF assms(1) b] by (fastforce simp: bindS_def)
  next
    case MaybeFlush
    then show ?thesis using tidy_law [OF assms(1) b] by (fastforce simp: bindS_def)
  next
    case Compact
    then show ?thesis using compaction_law [OF assms(1) b] by (fastforce simp: bindS_def)
  next
    case Reopen
    then show ?thesis using reopen_law [OF assms(1) r] by (fastforce simp: bindS_def)
  qed (use assms(1) r get_law contains_law in \<open>simp_all add: bindS_def\<close>)
qed

lemma script_ok:
  assumes "inv s" and "room (length as + n) s" and "\<forall>e. Write e \<in> set as \<longrightarrow> good s e"
  shows "\<exists>t. script as s = (Inr (spec_script as (val s)), t) \<and> inv t \<and> room n t \<and>
    val t = fold spec_effect as (val s)"
  using assms
proof (induction as arbitrary: s)
  case Nil
  then show ?case by simp
next
  case (Cons a as)
  have "room (Suc (length as + n)) s" using Cons.prems(2) by simp
  from act_ok [OF Cons.prems(1) this, of a] Cons.prems(3) obtain t where
    t: "act a s = (Inr (spec_answer a (val s)), t)" "inv t" "room (length as + n) t"
      "val t = spec_effect a (val s)" "good t = good s" by auto
  have "\<forall>e. Write e \<in> set as \<longrightarrow> good t e" using Cons.prems(3) t(5) by simp
  from Cons.IH [OF t(2,3) this] t(1,4) show ?case by (auto simp: bindS_def)
qed

end

end
