(* ===== verification/Log.thy ===== *)
theory Log
  imports Directory Store
begin

text \<open>
  \<open>src/lib/log/mod.rs\<close>: the log store. Its state is the \<open>Log\<close> value together with the
  world: the WAL and the SSTables are files, which survive the \<open>Log\<close>.
\<close>

section \<open>The model\<close>

record log =
  wal_file :: fh
  log_memtable :: memtable
  flush_count :: nat

definition COMPACT_EVERY_N_FLUSHES :: nat where
  "COMPACT_EVERY_N_FLUSHES = 10"

text \<open>A call on the field \<open>wal_file\<close>, on the field \<open>memtable\<close>, and on the memtable and the files.\<close>

definition on_wal :: "'a file_op \<Rightarrow> (log \<times> world, 'a) sio" where
  "on_wal m s = (case m (wal_file (fst s), snd s) of
     (r, (h, w)) \<Rightarrow> (r, ((fst s)\<lparr>wal_file := h\<rparr>, w)))"

definition on_memtable :: "(memtable \<times> world, 'a) sio \<Rightarrow> (log \<times> world, 'a) sio" where
  "on_memtable m s = (case m (log_memtable (fst s), snd s) of
     (r, (t, w)) \<Rightarrow> (r, ((fst s)\<lparr>log_memtable := t\<rparr>, w)))"

definition u64_try_from :: "nat \<Rightarrow> err + nat" where
  "u64_try_from n = (if n < 2 ^ 64 then Inr n else Inl TryFromIntError)"

definition log_new :: "crates \<Rightarrow> bool \<Rightarrow> (world, log) sio" where
  "log_new X trunc =
     bindS create_dir_all (\<lambda>_.
     bindS create_dir_all (\<lambda>_.
     bindS (if trunc then open_truncated Wal else open_kept Wal) (\<lambda>h.
     with_local h (
       bindS (from_file X) (\<lambda>m.
       bindS (on_snd read_dir) (\<lambda>names.
       bindS (of_result (u64_try_from (length names))) (\<lambda>n s.
         (Inr \<lparr>wal_file = fst s, log_memtable = m, flush_count = n\<rparr>, s))))))))"

definition log_write :: "crates \<Rightarrow> entry \<Rightarrow> (log \<times> world, unit) sio" where
  "log_write X e =
     bindS (on_wal (header_write X e)) (\<lambda>_.
     bindS (on_wal sync_all) (\<lambda>_.
     bindS (on_memtable (on_fst (process X e))) (\<lambda>_. ret ())))"

text \<open>\<open>match entry { Set => Some(entry), Delete => None }\<close>.\<close>

definition visible :: "entry \<Rightarrow> entry option" where
  "visible e = (case e of Set _ _ \<Rightarrow> Some e | Delete _ \<Rightarrow> None)"

fun get_scan :: "crates \<Rightarrow> string \<Rightarrow> string list \<Rightarrow> (world, entry option) sio" where
  "get_scan X key [] = ret None"
| "get_scan X key (n # ns) = bindS (from_path X n) (\<lambda>opt. case opt of
       None \<Rightarrow> get_scan X key ns
     | Some t \<Rightarrow>
         if may_contain X (table_filter t) (as_bytes key)
         then bindS (with_local t (find_in_table X key)) (\<lambda>r. case r of
             Some e \<Rightarrow> ret (visible e)
           | None \<Rightarrow> get_scan X key ns)
         else get_scan X key ns)"

definition log_get :: "crates \<Rightarrow> string \<Rightarrow> (log \<times> world, entry option) sio" where
  "log_get X key s = (case memtable_get (log_memtable (fst s)) key of
       Some e \<Rightarrow> (Inr (visible e), s)
     | None \<Rightarrow> on_snd (bindS read_dir (\<lambda>names. get_scan X key (sort_desc names))) s)"

definition log_contains :: "crates \<Rightarrow> string \<Rightarrow> (log \<times> world, bool) sio" where
  "log_contains X key = bindS (log_get X key) (\<lambda>r. ret (r \<noteq> None))"

definition log_flush :: "crates \<Rightarrow> (log \<times> world, unit) sio" where
  "log_flush X =
     bindS (on_memtable (flush_to X)) (\<lambda>_.
     bindS (on_wal set_len_zero) (\<lambda>_.
     bindS (on_wal (seek_start 0)) (\<lambda>_ s.
       let l = (fst s)\<lparr>flush_count := saturating_add (flush_count (fst s)) 1\<rparr> in
       if flush_count l mod COMPACT_EVERY_N_FLUSHES = 0 then on_snd (compact X) (l, snd s)
       else (Inr (), (l, snd s)))))"

definition maybe_flush :: "crates \<Rightarrow> (log \<times> world, unit) sio" where
  "maybe_flush X s = (if should_flush (log_memtable (fst s)) then log_flush X s else (Inr (), s))"

section \<open>The store as a map\<close>

text \<open>
  The tables and the map the files of the store stand for. Both are read off the bytes, so
  they are defined for every world, and depend on nothing a \<open>Log\<close> keeps in memory.
\<close>

definition tables_of :: "crates \<Rightarrow> world \<Rightarrow> tables" where
  "tables_of X w = map (\<lambda>p. (fst p, read_records X (snd p))) (ssts w)"

definition wal_entries :: "crates \<Rightarrow> world \<Rightarrow> entry list" where
  "wal_entries X w = read_records X (wal w)"

definition latest :: "crates \<Rightarrow> world \<Rightarrow> string \<Rightarrow> entry option" where
  "latest X w k = (case lookup_entry (rev (wal_entries X w)) k of
       Some e \<Rightarrow> Some e
     | None \<Rightarrow> store_get (tables_of X w) k)"

definition disk_map :: "crates \<Rightarrow> world \<Rightarrow> string \<Rightarrow> string option" where
  "disk_map X w k = (case latest X w k of None \<Rightarrow> None | Some e \<Rightarrow> entry_value e)"

text \<open>
  \<open>universe X U\<close>: entries the store can be used with. wincode round trips each of them, and
  the filter bytes of a table of them do not happen to contain a whole record with a
  matching checksum (a table of up to four entries has a footer too short for that).
\<close>

definition universe :: "crates \<Rightarrow> entry set \<Rightarrow> bool" where
  "universe X U \<longleftrightarrow> (\<forall>e \<in> U. entry_ok X e) \<and>
     (\<forall>es. set es \<subseteq> U \<longrightarrow> key_sorted es \<longrightarrow> quiet X (table_footer X es) [])"

definition MAX_WAL_ENTRIES :: nat where
  "MAX_WAL_ENTRIES = 2 ^ 28"

text \<open>
  \<open>appendable X U bs\<close>: records written behind \<open>bs\<close> are read back behind what \<open>bs\<close> holds. A WAL
  of whole records is appendable; one that ends in the beginning of a record, after a write
  that failed, is too, if the reader does not take that beginning for a record.
\<close>

definition appendable :: "crates \<Rightarrow> entry set \<Rightarrow> u8 list \<Rightarrow> bool" where
  "appendable X U bs \<longleftrightarrow> (\<forall>fs. set fs \<subseteq> U \<longrightarrow>
     read_records X (bs @ records_bytes X fs) = read_records X bs @ fs)"

definition MAX_JUNK :: nat where
  "MAX_JUNK = 2 ^ 62"

definition wal_ok :: "crates \<Rightarrow> entry set \<Rightarrow> world \<Rightarrow> bool" where
  "wal_ok X U w \<longleftrightarrow> universe X U \<and> appendable X U (wal w) \<and> set (wal_entries X w) \<subseteq> U \<and>
     length (wal_entries X w) \<le> MAX_WAL_ENTRIES \<and>
     length (wal w) \<le> MAX_JUNK + length (records_bytes X (wal_entries X w))"

definition disk_ok :: "crates \<Rightarrow> entry set \<Rightarrow> world \<Rightarrow> bool" where
  "disk_ok X U w \<longleftrightarrow> wal_ok X U w \<and>
     holds X w (tables_of X w) \<and> (\<forall>p \<in> set (tables_of X w). set (snd p) \<subseteq> U)"

text \<open>The memtable is the replay of the WAL: nothing in memory is not on disk.\<close>

definition log_inv :: "crates \<Rightarrow> entry set \<Rightarrow> log \<times> world \<Rightarrow> bool" where
  "log_inv X U s \<longleftrightarrow> disk_ok X U (snd s) \<and> faults (snd s) = [] \<and>
     fid (wal_file (fst s)) = Wal \<and>
     log_memtable (fst s) = fold (inserted X) (wal_entries X (snd s)) memtable_new"

lemma universeD:
  assumes "universe X U"
  shows "e \<in> U \<Longrightarrow> entry_ok X e"
    and "set es \<subseteq> U \<Longrightarrow> list_all (entry_ok X) es"
    and "set es \<subseteq> U \<Longrightarrow> key_sorted es \<Longrightarrow> quiet X (table_footer X es) []"
  using assms by (auto simp: universe_def list_all_iff)

lemma short_footer_quiet:
  assumes "length es \<le> 4"
  shows "quiet X (table_footer X es) []"
proof -
  have "length (table_footer X es) \<le> HEADER_LEN"
    using assms by (simp add: table_footer_def length_footer_bytes div_ceil_def HEADER_LEN_def)
  then show ?thesis
    by (auto simp: quiet_iff header_deserialize_def)
qed

lemma read_records_bytes:
  "list_all (entry_ok X) es \<Longrightarrow> read_records X (records_bytes X es) = es"
  using hdr.read_all_append [of X es "[]"] hdr.read_all_None [of X "[]"]
  by (simp add: records_bytes_def)

lemma read_records_image: "table_ok X es \<Longrightarrow> read_records X (table_image X es) = es"
  using hdr.read_all_append [of X es "table_footer X es"] table_okD(2,6) [of X es]
    hdr.read_all_None [of X "table_footer X es"] scan_windows_quiet
  by (simp add: table_image_footer records_bytes_def)

lemma tables_of_holds:
  assumes "holds X w T"
  shows "tables_of X w = T"
proof -
  have "map (\<lambda>p. (fst p, read_records X (table_image X (snd p)))) T = map (\<lambda>p. p) T"
    using assms by (intro map_cong) (auto simp: holds_def read_records_image)
  with assms show ?thesis by (simp add: holds_def tables_of_def comp_def)
qed

section \<open>Consequences of the invariant\<close>

lemma wal_okD:
  assumes "wal_ok X U w"
  shows "universe X U" and "appendable X U (wal w)" and "set (wal_entries X w) \<subseteq> U"
    and "list_all (entry_ok X) (wal_entries X w)" and "length (wal_entries X w) \<le> 2 ^ 28"
    and "length (wal w) \<le> 2 ^ 62 + length (records_bytes X (wal_entries X w))"
  using assms universeD(2) [of X U] by (auto simp: wal_ok_def MAX_WAL_ENTRIES_def MAX_JUNK_def)

lemma disk_ok_wal: "disk_ok X U w \<Longrightarrow> wal_ok X U w"
  by (simp add: disk_ok_def)

lemma disk_okD:
  assumes "disk_ok X U w"
  shows "universe X U" and "holds X w (tables_of X w)"
    and "appendable X U (wal w)" and "set (wal_entries X w) \<subseteq> U"
    and "list_all (entry_ok X) (wal_entries X w)" and "length (wal_entries X w) \<le> 2 ^ 28"
    and "p \<in> set (tables_of X w) \<Longrightarrow> set (snd p) \<subseteq> U"
    and "length (wal w) \<le> 2 ^ 62 + length (records_bytes X (wal_entries X w))"
  using assms wal_okD [OF disk_ok_wal [OF assms]] by (auto simp: disk_ok_def)

lemma tables_of_cong: "ssts v = ssts w \<Longrightarrow> tables_of X v = tables_of X w"
  by (simp add: tables_of_def)

lemma wal_entries_cong: "wal v = wal w \<Longrightarrow> wal_entries X v = wal_entries X w"
  by (simp add: wal_entries_def)

lemma disk_map_cong: "wal v = wal w \<Longrightarrow> ssts v = ssts w \<Longrightarrow> disk_map X v = disk_map X w"
  using tables_of_cong [of v w] wal_entries_cong [of v w]
  by (intro ext) (simp add: disk_map_def latest_def cong: option.case_cong)

lemma wal_ok_cong: "wal v = wal w \<Longrightarrow> wal_ok X U v = wal_ok X U w"
  using wal_entries_cong [of v w X] by (simp add: wal_ok_def)

lemma disk_ok_cong:
  assumes "wal v = wal w" and "ssts v = ssts w"
  shows "disk_ok X U v = disk_ok X U w"
  using tables_of_cong [OF assms(2)] wal_ok_cong [OF assms(1)] holds_cong [OF assms(2)]
  by (simp add: disk_ok_def)

lemma esizes_le: "list_all (entry_ok X) es \<Longrightarrow> esizes X es \<le> length es * 2 ^ 33"
proof (induction es)
  case Nil
  then show ?case by simp
next
  case (Cons e es)
  with esize_bound [of X e] show ?case by simp
qed

lemma length_records_bytes_le: "list_all (entry_ok X) es \<Longrightarrow> length (records_bytes X es) \<le> length es * (2 ^ 33 + 10)"
  using length_records_bytes [of X es] esizes_le [of X es] by simp

definition memtable_of :: "crates \<Rightarrow> entry list \<Rightarrow> memtable" where
  "memtable_of X es = fold (inserted X) es memtable_new"

lemma memtable_of_facts:
  assumes "list_all (entry_ok X) es" and "length es \<le> 2 ^ 29"
  shows "memtable_wf X (memtable_of X es)" and "tracked (memtable_of X es) \<le> length es * 2 ^ 33"
    and "memtable_len (memtable_of X es) \<le> length es"
    and "set (memtable_values (memtable_of X es)) \<subseteq> set es"
    and "memtable_get (memtable_of X es) k = lookup_entry (rev es) k"
proof -
  have b: "tracked memtable_new + esizes X es < 2 ^ 64"
    using esizes_le [OF assms(1)] assms(2) by simp
  note fw = fold_inserted_wf [OF memtable_new_wf assms(1) b]
  show "memtable_wf X (memtable_of X es)" using fw(1) by (simp add: memtable_of_def)
  show "tracked (memtable_of X es) \<le> length es * 2 ^ 33"
    using fw(2) esizes_le [OF assms(1)] by (simp add: memtable_of_def)
  show "memtable_len (memtable_of X es) \<le> length es" using fw(3) by (simp add: memtable_of_def)
  show "set (memtable_values (memtable_of X es)) \<subseteq> set es"
    using set_values_fold_inserted [of X es memtable_new] by (simp add: memtable_of_def)
  show "memtable_get (memtable_of X es) k = lookup_entry (rev es) k"
    using memtable_get_fold [of memtable_new X es k]
    by (simp add: memtable_of_def btree_wf_def split: option.split)
qed

lemma log_invD:
  assumes "log_inv X U (l, w)"
  shows "disk_ok X U w" and "faults w = []" and "fid (wal_file l) = Wal"
    and "log_memtable l = memtable_of X (wal_entries X w)"
  using assms by (simp_all add: log_inv_def memtable_of_def)

lemma wal_ok_memtable:
  assumes "wal_ok X U w"
  shows "memtable_wf X (memtable_of X (wal_entries X w))"
    and "tracked (memtable_of X (wal_entries X w)) \<le> 2 ^ 28 * 2 ^ 33"
    and "memtable_len (memtable_of X (wal_entries X w)) \<le> length (wal_entries X w)"
    and "set (memtable_values (memtable_of X (wal_entries X w))) \<subseteq> U"
    and "memtable_get (memtable_of X (wal_entries X w)) k = lookup_entry (rev (wal_entries X w)) k"
proof -
  note d = wal_okD [OF assms]
  have n: "length (wal_entries X w) \<le> 2 ^ 29" using d(5) by simp
  note m = memtable_of_facts [OF d(4) n]
  show "memtable_wf X (memtable_of X (wal_entries X w))" by (rule m(1))
  show "tracked (memtable_of X (wal_entries X w)) \<le> 2 ^ 28 * 2 ^ 33" using m(2) d(5) by simp
  show "memtable_len (memtable_of X (wal_entries X w)) \<le> length (wal_entries X w)" by (rule m(3))
  show "set (memtable_values (memtable_of X (wal_entries X w))) \<subseteq> U" using m(4) d(3) by blast
  show "memtable_get (memtable_of X (wal_entries X w)) k = lookup_entry (rev (wal_entries X w)) k"
    by (rule m(5))
qed

lemmas wal_memtable = wal_ok_memtable [OF disk_ok_wal]

section \<open>Lookups\<close>

lemma visible_live: "visible e = live_entry (Some e)"
  by (simp add: visible_def live_entry_def split: entry.split)

lemma get_scan_ok:
  assumes "faults w = []"
    and "\<forall>n \<in> set ns. map_of (ssts w) n = Some (table_image X (table_named T n)) \<and> table_ok X (table_named T n)"
  shows "get_scan X k ns w = (Inr (live_entry (newest (map (table_named T) ns) k)), w)"
  using assms(2)
proof (induction ns)
  case Nil
  then show ?case by (simp add: live_entry_def)
next
  case (Cons n ns)
  let ?es = "table_named T n"
  have IH: "get_scan X k ns w = (Inr (live_entry (newest (map (table_named T) ns) k)), w)"
    using Cons.prems by (intro Cons.IH) simp
  obtain t where t: "from_path X n w = (Inr (Some t), w)"
      "table_filter t = bloom_of X (length ?es * 10) (map entry_key ?es)" "remaining X t w ?es"
    using from_path_ok [OF assms(1), of n X ?es] Cons.prems by auto
  show ?case
  proof (cases "may_contain X (table_filter t) (as_bytes k)")
    case True
    obtain t' where "find_in_table X k (t, w) = (Inr (lookup_entry ?es k), (t', w))"
      using find_in_table_ok [OF assms(1) t(3)] by blast
    then have "with_local t (find_in_table X k) w = (Inr (lookup_entry ?es k), w)"
      by (rule with_local_apply)
    with True t(1) IH show ?thesis
      by (cases "lookup_entry ?es k") (simp_all add: bindS_def visible_live)
  next
    case False
    then have "k \<notin> set (map entry_key ?es)" using bloom_of_may_contain t(2) by metis
    then have "lookup_entry ?es k = None" by (simp add: lookup_entry_None_iff)
    with False t(1) IH show ?thesis by (simp add: bindS_def)
  qed
qed

text \<open>A lookup returns the latest entry of the key, unless that is a tombstone.\<close>

lemma log_get_latest:
  assumes "log_inv X U (l, w)"
  shows "log_get X k (l, w) = (Inr (live_entry (latest X w k)), (l, w))"
proof -
  note i = log_invD [OF assms]
  note d = disk_okD [OF i(1)]
  have "\<forall>n \<in> set (sort_desc (map fst (ssts w))). map_of (ssts w) n =
      Some (table_image X (table_named (tables_of X w) n)) \<and> table_ok X (table_named (tables_of X w) n)"
    using holds_names [OF d(2)] holds_table [OF d(2)] by simp
  note scan = get_scan_ok [OF i(2) this]
  show ?thesis
  proof (cases "lookup_entry (rev (wal_entries X w)) k")
    case None
    then have "memtable_get (log_memtable l) k = None"
      by (simp add: i(4) wal_memtable(5) [OF i(1)])
    with None i(2) scan show ?thesis
      by (simp add: log_get_def on_snd_def bindS_def calls_ok latest_def store_get_def newest_first_def
          holds_names [OF d(2)])
  next
    case (Some e)
    then have "memtable_get (log_memtable l) k = Some e"
      by (simp add: i(4) wal_memtable(5) [OF i(1)])
    with Some show ?thesis by (simp add: log_get_def latest_def visible_live)
  qed
qed

section \<open>Writes\<close>

definition appended :: "crates \<Rightarrow> entry \<Rightarrow> world \<Rightarrow> world" where
  "appended X e w = w\<lparr>wal := wal w @ record_bytes X e\<rparr>"

lemma appended_simps [simp]:
  "wal (appended X e w) = wal w @ record_bytes X e" "ssts (appended X e w) = ssts w"
  "faults (appended X e w) = faults w" "clock (appended X e w) = clock w"
  "ticks (appended X e w) = ticks w" "tables_of X' (appended X e w) = tables_of X' w"
  by (simp_all add: appended_def tables_of_def)

lemma appendable_records:
  assumes "universe X U" and "set es \<subseteq> U"
  shows "appendable X U (records_bytes X es)"
  unfolding appendable_def
proof (intro allI impI)
  fix fs assume "set fs \<subseteq> U"
  then have "list_all (entry_ok X) (es @ fs)" and "list_all (entry_ok X) es"
    using assms universeD(2) [OF assms(1)] by simp_all
  then show "read_records X (records_bytes X es @ records_bytes X fs) =
      read_records X (records_bytes X es) @ fs"
    by (metis read_records_bytes records_bytes_simps(3))
qed

lemma wal_entries_append:
  assumes "disk_ok X U w" and "e \<in> U"
  shows "wal_entries X (appended X e w) = wal_entries X w @ [e]"
  using disk_okD(3) [OF assms(1)] assms(2)
  by (simp add: appendable_def wal_entries_def) (metis append_Nil2 empty_subsetI insert_subset
      list.set(1,2) records_bytes_simps(1,2))

lemma appendable_append:
  assumes "appendable X U bs" and "e \<in> U"
  shows "appendable X U (bs @ record_bytes X e)"
  unfolding appendable_def
proof (intro allI impI)
  fix fs assume fs: "set fs \<subseteq> U"
  have "read_records X (bs @ records_bytes X (e # fs)) = read_records X bs @ e # fs"
    using assms fs by (simp add: appendable_def del: records_bytes_simps)
  moreover have "read_records X (bs @ records_bytes X [e]) = read_records X bs @ [e]"
    using assms by (simp add: appendable_def del: records_bytes_simps)
  ultimately show "read_records X ((bs @ record_bytes X e) @ records_bytes X fs) =
      read_records X (bs @ record_bytes X e) @ fs" by simp
qed

lemma latest_append:
  assumes "disk_ok X U w" and "e \<in> U"
  shows "latest X (appended X e w) k = (if k = entry_key e then Some e else latest X w k)"
  using wal_entries_append [OF assms] by (simp add: latest_def cong: option.case_cong)

lemma disk_map_append:
  assumes "disk_ok X U w" and "e \<in> U"
  shows "disk_map X (appended X e w) = (disk_map X w)(entry_key e := entry_value e)"
  using latest_append [OF assms] by (auto simp: disk_map_def)

lemma disk_ok_append:
  assumes "disk_ok X U w" and "e \<in> U" and "length (wal_entries X w) < MAX_WAL_ENTRIES"
  shows "disk_ok X U (appended X e w)"
  using assms wal_entries_append [OF assms(1,2)] holds_cong [of "appended X e w" w]
    appendable_append [OF disk_okD(3) [OF assms(1)] assms(2)]
  by (simp add: disk_ok_def wal_ok_def)

lemma log_write_ok:
  assumes "log_inv X U (l, w)" and "e \<in> U" and "length (wal_entries X w) < MAX_WAL_ENTRIES"
  shows "\<exists>h. log_write X e (l, w) =
      (Inr (), (l\<lparr>wal_file := h, log_memtable := inserted X e (log_memtable l)\<rparr>, appended X e w)) \<and>
    log_inv X U (l\<lparr>wal_file := h, log_memtable := inserted X e (log_memtable l)\<rparr>, appended X e w)"
proof -
  note i = log_invD [OF assms(1)]
  note m = wal_memtable [OF i(1)]
  have e: "entry_ok X e" using disk_okD(1) [OF i(1)] assms(2) by (rule universeD(1))
  let ?h = "(wal_file l)\<lparr>cur := length (wal w) + length (record_bytes X e)\<rparr>"
  have hw: "header_write X e (wal_file l, w) = (Inr (), (?h, appended X e w))"
    using header_write_ok [OF i(2) e, of "wal_file l"] i(3)
    by (simp add: appended_def set_contents.simps)
  have pr: "process X e (log_memtable l) =
      (Inr (memtable_get (log_memtable l) (entry_key e)), inserted X e (log_memtable l))"
    using m(1,2) esize_bound [OF e] unfolding i(4) by (intro process_ok e) auto
  have "log_write X e (l, w) =
      (Inr (), (l\<lparr>wal_file := ?h, log_memtable := inserted X e (log_memtable l)\<rparr>, appended X e w))"
    using hw pr i(2)
    by (simp add: log_write_def bindS_def on_wal_def on_memtable_def on_fst_def calls_ok)
  moreover have "log_inv X U
      (l\<lparr>wal_file := ?h, log_memtable := inserted X e (log_memtable l)\<rparr>, appended X e w)"
    using disk_ok_append [OF i(1) assms(2,3)] i
    by (simp add: log_inv_def wal_entries_append [OF i(1) assms(2)] memtable_of_def)
  ultimately show ?thesis by blast
qed

section \<open>Flushes\<close>

text \<open>The tables after the memtable is written, and after the compaction if one is due.\<close>

definition with_memtable :: "memtable \<Rightarrow> world \<Rightarrow> tables \<Rightarrow> tables" where
  "with_memtable m w T = (if memtable_values m = [] then T else T @ [(next_name w, memtable_values m)])"

definition compaction_due :: "log \<Rightarrow> bool" where
  "compaction_due l \<longleftrightarrow> saturating_add (flush_count l) 1 mod COMPACT_EVERY_N_FLUSHES = 0"

definition table_cost :: "memtable \<Rightarrow> nat" where
  "table_cost m = (if memtable_values m = [] then 0 else 1)"

definition flush_cost :: "crates \<Rightarrow> log \<times> world \<Rightarrow> nat" where
  "flush_cost X s = (let m = log_memtable (fst s) in
     table_cost m + (if compaction_due (fst s)
      then length (compacted X (with_memtable m (snd s) (tables_of X (snd s)))) else 0))"

lemma table_ok_memtable:
  assumes "disk_ok X U w" and "memtable_values (memtable_of X (wal_entries X w)) \<noteq> []"
  shows "table_ok X (memtable_values (memtable_of X (wal_entries X w)))"
proof -
  let ?m = "memtable_of X (wal_entries X w)"
  note d = disk_okD [OF assms(1)] and m = wal_memtable [OF assms(1)]
  have ks: "key_sorted (memtable_values ?m)"
    using memtable_values_sorted [OF m(1)] by (simp add: key_sorted_def)
  have "quiet X (table_footer X (memtable_values ?m)) []"
    using d(1) m(4) ks by (rule universeD(3))
  moreover have "length (table_image X (memtable_values ?m)) < 2 ^ 64"
    using length_table_image [of X "memtable_values ?m"] m(1,2,3) d(6)
    by (simp add: memtable_wf_def)
  moreover have "length (memtable_values ?m) * 10 < 2 ^ 32" using m(3) d(6) by simp
  ultimately show ?thesis
    using assms(2) memtable_values_ok [OF m(1)] ks by (simp add: table_ok_def key_sorted_def)
qed

lemma latest_with_memtable:
  assumes "disk_ok X U w" and "clock_ok (table_cost (memtable_of X (wal_entries X w)) + n) w"
  shows "store_get (with_memtable (memtable_of X (wal_entries X w)) w (tables_of X w)) k = latest X w k"
proof -
  let ?m = "memtable_of X (wal_entries X w)" and ?T = "tables_of X w"
  note d = disk_okD [OF assms(1)] and m = wal_memtable [OF assms(1)]
  have lk: "lookup_entry (rev (wal_entries X w)) k = lookup_entry (memtable_values ?m) k"
    using m(5) memtable_get_lookup [OF m(1)] by metis
  show ?thesis
  proof (cases "memtable_values ?m = []")
    case True
    with lk show ?thesis by (simp add: with_memtable_def latest_def)
  next
    case False
    then have "clock_ok (Suc n) w" using assms(2) by (simp add: table_cost_def)
    then have "\<forall>f \<in> fst ` set ?T. f < next_name w"
      using clock_ok_names holds_names [OF d(2)] by simp
    with False lk show ?thesis
      by (simp add: with_memtable_def latest_def store_get_def newest_first_snoc cong: option.case_cong)
  qed
qed

lemma is_empty_new: "is_empty m \<Longrightarrow> m = memtable_new"
  by (cases m) (simp add: is_empty_def memtable_new_def)

lemma flush_to_holds:
  assumes "disk_ok X U w" and "faults w = []"
    and "clock_ok (table_cost (memtable_of X (wal_entries X w)) + n) w"
  shows "\<exists>w'. flush_to X (memtable_of X (wal_entries X w), w) = (Inr (), (memtable_new, w')) \<and>
    holds X w' (with_memtable (memtable_of X (wal_entries X w)) w (tables_of X w)) \<and>
    faults w' = [] \<and> wal w' = wal w \<and> clock w' = clock w \<and> clock_ok n w'"
proof (cases "memtable_values (memtable_of X (wal_entries X w)) = []")
  case True
  note d = disk_okD [OF assms(1)] and m = wal_memtable [OF assms(1)]
  have "is_empty (memtable_of X (wal_entries X w))" using True is_empty_iff [OF m(1)] by simp
  from flush_to_empty [OF this] is_empty_new [OF this] True d(2) assms(2,3) show ?thesis
    by (intro exI [of _ w]) (simp add: with_memtable_def table_cost_def)
next
  case False
  let ?m = "memtable_of X (wal_entries X w)"
  note d = disk_okD [OF assms(1)] and m = wal_memtable [OF assms(1)]
  have ck: "clock_ok (Suc n) w" using False assms(3) by (simp add: table_cost_def)
  have "memtable_len ?m * 10 < 2 ^ 32" using m(3) d(6) by simp
  then have "flush_to X (?m, w) = (Inr (), (memtable_new, flushed X (memtable_values ?m) w))"
    using False clock_ok_now [OF ck] by (intro flush_to_ok [OF assms(2) m(1)]) auto
  moreover have "holds X (flushed X (memtable_values ?m) w) (with_memtable ?m w (tables_of X w))"
    using holds_flushed [OF d(2) ck table_ok_memtable [OF assms(1) False]] False
    by (simp add: with_memtable_def)
  ultimately show ?thesis
    using assms(2) clock_ok_flushed [OF ck]
    by (intro exI [of _ "flushed X (memtable_values ?m) w"]) simp
qed

section \<open>The flush of the log\<close>

definition stored :: "crates \<Rightarrow> world \<Rightarrow> nat" where
  "stored X w = total (map snd (tables_of X w)) + length (wal_entries X w)"

lemma compacted_universe:
  assumes "universe X U" and "holds X w T" and "\<forall>p \<in> set T. set (snd p) \<subseteq> U"
  shows "\<forall>c \<in> set (compacted X T). set c \<subseteq> U"
    and "\<forall>c \<in> set (compacted X T). quiet X (table_footer X c) []"
proof -
  show sub: "\<forall>c \<in> set (compacted X T). set c \<subseteq> U"
    using compacted_entries(1) [OF assms(2)] assms(3) by fastforce
  show "\<forall>c \<in> set (compacted X T). quiet X (table_footer X c) []"
    using sub key_sorted_concat [OF compacted_facts(3) [OF assms(2)]] universeD(3) [OF assms(1)] by blast
qed

lemma compact_in_universe:
  assumes "universe X U" and "holds X w T" and "\<forall>p \<in> set T. set (snd p) \<subseteq> U"
    and "faults w = []" and "clock_ok (length (compacted X T) + j) w"
  shows "\<exists>ns w'. compact X w = (Inr (), w') \<and> holds X w' (zip ns (compacted X T)) \<and>
    length ns = length (compacted X T) \<and> sorted_wrt (<) ns \<and> (\<forall>c \<in> set (compacted X T). set c \<subseteq> U) \<and>
    faults w' = [] \<and> wal w' = wal w \<and> clock w' = clock w \<and> clock_ok j w' \<and>
    (\<forall>n \<in> set ns. \<forall>m \<in> fst ` set T. m < n)"
  using compact_ok [OF assms(4,2,5) compacted_universe(2) [OF assms(1-3)]]
    compacted_universe(1) [OF assms(1-3)] by blast

text \<open>
  A compaction of a store: the map stays, the tables are the chunks of the merge, under names
  after all old ones.
\<close>

lemma disk_map_compacted:
  assumes "wal w' = wal w" and "\<And>k. store_get (tables_of X w') k = live_entry (store_get (tables_of X w) k)"
  shows "disk_map X w' = disk_map X w"
  using wal_entries_cong [OF assms(1)]
  by (intro ext) (simp add: disk_map_def latest_def assms(2) live_entry_def
      split: option.split entry.split)

lemma compact_disk:
  assumes "disk_ok X U w" and "faults w = []" and "clock_ok (length (compacted X (tables_of X w)) + j) w"
  shows "\<exists>w'. compact X w = (Inr (), w') \<and> disk_ok X U w' \<and> disk_map X w' = disk_map X w \<and>
    wal w' = wal w \<and> map snd (tables_of X w') = compacted X (tables_of X w) \<and>
    (\<forall>n \<in> fst ` set (ssts w'). \<forall>m \<in> fst ` set (ssts w). m < n) \<and> faults w' = [] \<and> clock_ok j w'"
proof -
  note d = disk_okD [OF assms(1)]
  let ?T = "tables_of X w"
  have sub: "\<forall>p \<in> set ?T. set (snd p) \<subseteq> U" using d(7) by blast
  obtain ns w' where c: "compact X w = (Inr (), w')" "holds X w' (zip ns (compacted X ?T))"
      "length ns = length (compacted X ?T)" "sorted_wrt (<) ns" "\<forall>c \<in> set (compacted X ?T). set c \<subseteq> U"
      "faults w' = []" "wal w' = wal w" "clock_ok j w'" "\<forall>n \<in> set ns. \<forall>m \<in> fst ` set ?T. m < n"
    using compact_in_universe [OF d(1,2) sub assms(2,3)] by blast
  note T = tables_of_holds [OF c(2)]
  have "wal_ok X U w'" using wal_ok_cong [OF c(7)] disk_ok_wal [OF assms(1)] by simp
  moreover have "\<forall>p \<in> set (zip ns (compacted X ?T)). set (snd p) \<subseteq> U"
    using c(5) set_zip_rightD by (metis prod.collapse)
  ultimately have "disk_ok X U w'" using c(2) by (simp add: disk_ok_def T)
  moreover have "disk_map X w' = disk_map X w"
    using store_get_compacted [OF d(2) c(3,4)] c(7) by (intro disk_map_compacted) (simp_all add: T)
  moreover have "fst ` set (ssts w') \<subseteq> set ns"
    unfolding holds_names(2) [OF c(2)] by (auto dest: set_zip_leftD)
  then have "\<forall>n \<in> fst ` set (ssts w'). \<forall>m \<in> fst ` set (ssts w). m < n"
    using c(9) unfolding holds_names(2) [OF d(2)] by blast
  ultimately show ?thesis using c(1,3,6-8) by (intro exI [of _ w']) (simp add: T)
qed

text \<open>The tables of the world \<open>w'\<close> a flush of \<open>(l, w)\<close> leaves behind.\<close>

definition flushed_tables :: "crates \<Rightarrow> log \<Rightarrow> world \<Rightarrow> tables \<Rightarrow> bool" where
  "flushed_tables X l w T' \<longleftrightarrow> (let T = with_memtable (log_memtable l) w (tables_of X w) in
     if compaction_due l
     then map snd T' = compacted X T \<and> sorted_wrt (<) (map fst T')
     else T' = T)"

lemma log_flush_steps:
  assumes "flush_to X (log_memtable l, w) = (Inr (), (memtable_new, w1))" and "faults w1 = []"
    and "fid (wal_file l) = Wal"
  shows "\<exists>h. fid h = Wal \<and> log_flush X (l, w) =
    (let l' = l\<lparr>log_memtable := memtable_new, wal_file := h,
         flush_count := saturating_add (flush_count l) 1\<rparr>;
       w' = w1\<lparr>wal := []\<rparr>
     in if compaction_due l then on_snd (compact X) (l', w') else (Inr (), (l', w')))"
  using assms
  by (intro exI [of _ "(wal_file l)\<lparr>cur := 0\<rparr>"])
    (simp add: log_flush_def bindS_def on_memtable_def on_wal_def calls_ok Let_def
      compaction_due_def set_contents.simps)

lemma disk_map_flushed:
  assumes "wal w' = []" and "\<And>k. live_entry (store_get (tables_of X w') k) = live_entry (latest X w k)"
  shows "disk_map X w' = disk_map X w"
proof
  fix k
  have v: "(case x of None \<Rightarrow> None | Some e \<Rightarrow> entry_value e) =
      (case live_entry x of None \<Rightarrow> None | Some e \<Rightarrow> entry_value e)" for x
    by (simp add: live_entry_def split: option.split entry.split)
  have "wal_entries X w' = []"
    using assms(1) by (simp add: wal_entries_def hdr.read_all_None)
  then have "latest X w' k = store_get (tables_of X w') k" by (simp add: latest_def)
  with assms(2) [of k] v [of "latest X w' k"] v [of "latest X w k"]
  show "disk_map X w' k = disk_map X w k" by (simp add: disk_map_def)
qed

lemma wal_entries_empty: "wal w = [] \<Longrightarrow> wal_entries X w = []"
  by (simp add: wal_entries_def hdr.read_all_None)

lemma fresh_disk_ok:
  assumes "universe X U" and "wal w = []" and "ssts w = []"
  shows "disk_ok X U w"
proof -
  have "tables_of X w = []" using assms(3) by (simp add: tables_of_def)
  then show ?thesis
    using appendable_records [OF assms(1), of "[]"] assms wal_entries_empty [OF assms(2)]
    by (simp add: disk_ok_def wal_ok_def holds_def)
qed

lemma live_entry_twice [simp]: "live_entry (live_entry x) = live_entry x"
  by (simp add: live_entry_def split: option.split entry.split)

lemma total_with_memtable: "total (map snd (with_memtable m w T)) = memtable_len m + total (map snd T)"
  by (simp add: with_memtable_def total_def) (metis length_0_conv length_memtable_values)

text \<open>
  A flush leaves the map as it is, empties the WAL and the memtable, counts itself, and runs
  the compaction when it is due.
\<close>

lemma log_flush_ok:
  assumes "log_inv X U (l, w)" and "clock_ok (flush_cost X (l, w) + j) w"
  shows "\<exists>l' w'. log_flush X (l, w) = (Inr (), (l', w')) \<and> log_inv X U (l', w') \<and>
    disk_map X w' = disk_map X w \<and> wal w' = [] \<and> log_memtable l' = memtable_new \<and>
    flush_count l' = saturating_add (flush_count l) 1 \<and> flushed_tables X l w (tables_of X w') \<and>
    clock w' = clock w \<and> clock_ok j w' \<and> stored X w' \<le> stored X w"
proof -
  note i = log_invD [OF assms(1)]
  note d = disk_okD [OF i(1)]
  let ?m = "memtable_of X (wal_entries X w)"
  let ?T = "with_memtable ?m w (tables_of X w)"
  let ?j = "(if compaction_due l then length (compacted X ?T) else 0) + j"
  have ck: "clock_ok (table_cost ?m + ?j) w"
    using assms(2) by (cases "compaction_due l") (simp_all add: flush_cost_def i(4) Let_def add.assoc)
  obtain w1 where w1: "flush_to X (?m, w) = (Inr (), (memtable_new, w1))" "holds X w1 ?T"
      "faults w1 = []" "wal w1 = wal w" "clock w1 = clock w" "clock_ok ?j w1"
    using flush_to_holds [OF i(1,2) ck] by blast
  let ?w = "w1\<lparr>wal := []\<rparr>"
  obtain h where h: "fid h = Wal" "log_flush X (l, w) =
    (let l' = l\<lparr>log_memtable := memtable_new, wal_file := h,
         flush_count := saturating_add (flush_count l) 1\<rparr>
     in if compaction_due l then on_snd (compact X) (l', ?w) else (Inr (), (l', ?w)))"
    using log_flush_steps [of X l w w1] w1(1,3) i(3,4) by (auto simp: Let_def)
  let ?l = "l\<lparr>log_memtable := memtable_new, wal_file := h, flush_count := saturating_add (flush_count l) 1\<rparr>"
  have hw: "holds X ?w ?T" using w1(2) by (simp add: holds_def)
  have ckw: "clock_ok ?j ?w" using w1(6) by (simp add: clock_ok_def next_name_def)
  have sub: "\<forall>p \<in> set ?T. set (snd p) \<subseteq> U"
    using d(7) wal_memtable(4) [OF i(1)] by (auto simp: with_memtable_def split: if_splits)
  have look: "store_get ?T k = latest X w k" for k
    using latest_with_memtable [OF i(1) ck] .
  have tot: "total (map snd ?T) \<le> stored X w"
    using wal_memtable(3) [OF i(1)] by (simp add: total_with_memtable stored_def)
  have "\<exists>w' T'. log_flush X (l, w) = (Inr (), (?l, w')) \<and> holds X w' T' \<and>
      (\<forall>p \<in> set T'. set (snd p) \<subseteq> U) \<and> faults w' = [] \<and> wal w' = [] \<and> clock w' = clock w \<and>
      clock_ok j w' \<and> flushed_tables X l w T' \<and> total (map snd T') \<le> stored X w \<and>
      (\<forall>k. live_entry (store_get T' k) = live_entry (latest X w k))"
  proof (cases "compaction_due l")
    case True
    then have ckc: "clock_ok (length (compacted X ?T) + j) ?w" using ckw by simp
    have fw: "faults ?w = []" using w1(3) by simp
    obtain ns w' where c: "compact X ?w = (Inr (), w')" "holds X w' (zip ns (compacted X ?T))"
        "length ns = length (compacted X ?T)" "sorted_wrt (<) ns" "\<forall>c \<in> set (compacted X ?T). set c \<subseteq> U"
        "faults w' = []" "wal w' = wal ?w" "clock w' = clock ?w" "clock_ok j w'"
      using compact_in_universe [OF d(1) hw sub fw ckc] by blast
    have "log_flush X (l, w) = (Inr (), (?l, w'))"
      using True h(2) c(1) by (simp add: Let_def on_snd_def)
    moreover have "flushed_tables X l w (zip ns (compacted X ?T))"
      using True c(3,4) i(4) by (simp add: flushed_tables_def Let_def)
    moreover have "total (map snd (zip ns (compacted X ?T))) \<le> stored X w"
      using c(3) compacted_length(1) [OF hw] tot by (simp add: total_def length_concat)
    moreover have "\<forall>p \<in> set (zip ns (compacted X ?T)). set (snd p) \<subseteq> U"
      using c(5) set_zip_rightD by (metis prod.collapse)
    moreover have "\<forall>k. live_entry (store_get (zip ns (compacted X ?T)) k) = live_entry (latest X w k)"
      using store_get_compacted [OF hw c(3,4)] look by simp
    ultimately show ?thesis using c(2,6-9) w1(5) by (intro exI conjI) simp_all
  next
    case False
    have "log_flush X (l, w) = (Inr (), (?l, ?w))" using False h(2) by (simp add: Let_def)
    moreover have "flushed_tables X l w ?T" using False i(4) by (simp add: flushed_tables_def Let_def)
    ultimately show ?thesis
      using False hw sub ckw w1(3,5) tot look by (intro exI [of _ ?w] exI [of _ ?T]) simp
  qed
  then obtain w' T' where r: "log_flush X (l, w) = (Inr (), (?l, w'))" "holds X w' T'"
      "\<forall>p \<in> set T'. set (snd p) \<subseteq> U" "faults w' = []" "wal w' = []" "clock w' = clock w"
      "clock_ok j w'" "flushed_tables X l w T'" "total (map snd T') \<le> stored X w"
      "\<forall>k. live_entry (store_get T' k) = live_entry (latest X w k)" by blast
  note T' = tables_of_holds [OF r(2)] and we = wal_entries_empty [OF r(5)]
  have "log_inv X U (?l, w')"
    using d(1) r(2-5) h(1) appendable_records [OF d(1), of "[]"]
    by (simp add: log_inv_def disk_ok_def wal_ok_def T' we)
  moreover have "disk_map X w' = disk_map X w"
    using r(5,10) by (intro disk_map_flushed) (simp_all add: T')
  ultimately show ?thesis
    using r by (intro exI [of _ ?l] exI [of _ w']) (simp add: T' we stored_def)
qed

section \<open>Opening the store\<close>

lemma from_file_reads:
  assumes "faults w = []" and "length (contents w (fid h)) < 2 ^ 64"
    and "list_all (entry_ok X) (read_records X (contents w (fid h)))"
    and "length (read_records X (contents w (fid h))) \<le> 2 ^ 29"
  shows "\<exists>h'. fid h' = fid h \<and>
    from_file X (h, w) = (Inr (memtable_of X (read_records X (contents w (fid h)))), (h', w))"
proof -
  let ?es = "read_records X (contents w (fid h))"
  have "esizes X ?es \<le> length ?es * 2 ^ 33" by (rule esizes_le [OF assms(3)])
  also have "\<dots> \<le> 2 ^ 29 * 2 ^ 33" using assms(4) by simp
  finally have "tracked memtable_new + esizes X ?es < 2 ^ 64" by simp
  then show ?thesis
    using replay_ok [of w "h\<lparr>cur := 0\<rparr>" X memtable_new] assms(1-3)
    by (auto simp: from_file_def bindS_def calls_ok memtable_of_def)
qed

text \<open>Opening reads the WAL, whatever is in it, and counts the tables; it does not look into them.\<close>

lemma log_new_reads:
  assumes "faults w = []" and "length (wal w) < 2 ^ 64" and "list_all (entry_ok X) (wal_entries X w)"
    and "length (wal_entries X w) \<le> 2 ^ 29" and "length (ssts w) < 2 ^ 64"
  shows "\<exists>h. fid h = Wal \<and> log_new X False w = (Inr \<lparr>wal_file = h,
    log_memtable = memtable_of X (wal_entries X w), flush_count = length (ssts w)\<rparr>, w)"
proof -
  obtain h where "fid h = Wal" and "from_file X (\<lparr>fid = Wal, cur = 0\<rparr>, w) = (Inr (memtable_of X (wal_entries X w)), (h, w))"
    using from_file_reads [of w "\<lparr>fid = Wal, cur = 0\<rparr>" X] assms(1-4) by (auto simp: wal_entries_def)
  then show ?thesis using assms(1,5)
    by (intro exI [of _ h])
      (simp add: log_new_def bindS_def with_local_def on_snd_def calls_ok u64_try_from_def)
qed

text \<open>
  A replay whose calls fail: \<open>from_file\<close> takes an error of \<open>header_read_next\<close> for the end of
  the file. A read of a record makes six calls, and opening makes four before the first one.
\<close>

lemma header_read_next_calls:
  assumes "faults w = replicate 6 None @ fs" and "drop (cur h) (contents w (fid h)) = record_bytes X e @ rest"
    and "entry_ok X e" and "length (contents w (fid h)) < 2 ^ 64"
  shows "header_read_next X (h, w) = (Inr (Some e), (h\<lparr>cur := cur h + length (record_bytes X e)\<rparr>, w\<lparr>faults := fs\<rparr>))"
proof -
  have s: "scan_windows X 0 (drop (cur h) (contents w (fid h))) = Some (0, e, length (record_bytes X e))"
    using hdr.scan_enc [OF assms(3), of 0 rest] assms(2) by simp
  have l: "length (contents w (fid h)) - cur h = length (record_bytes X e) + length rest"
    using arg_cong [OF assms(2), of length] by simp
  then have c: "cur h < length (contents w (fid h))" by (simp add: HEADER_LEN_def)
  have n: "cur h + length (record_bytes X e) \<le> length (contents w (fid h))" using l c by simp
  have f: "faults w = None # None # None # None # None # None # fs" using assms(1) by (simp add: numeral_eq_Suc)
  show ?thesis
    using f c s n assms(4)
    by (simp add: header_read_next_def bindS_def stream_position_def seek_end_def seek_start_def read_to_end_def
        on_snd_def os_call_def pop_fault_def set_cur_def file_len_def checked_add_def)
qed

lemma header_read_next_fails:
  assumes "faults w = replicate j None @ [Some b]" and "j < 6" and "drop (cur h) (contents w (fid h)) = record_bytes X e @ rest"
    and "entry_ok X e" and "length (contents w (fid h)) < 2 ^ 64"
  shows "\<exists>h'. header_read_next X (h, w) = (Inl IoError, (h', w\<lparr>faults := []\<rparr>)) \<and> fid h' = fid h"
proof -
  have s: "scan_windows X 0 (drop (cur h) (contents w (fid h))) = Some (0, e, length (record_bytes X e))"
    using hdr.scan_enc [OF assms(4), of 0 rest] assms(3) by simp
  have l: "length (contents w (fid h)) - cur h = length (record_bytes X e) + length rest"
    using arg_cong [OF assms(3), of length] by simp
  then have c: "cur h < length (contents w (fid h))" by (simp add: HEADER_LEN_def)
  have n: "cur h + length (record_bytes X e) \<le> length (contents w (fid h))" using l c by simp
  have "j \<in> {0, 1, 2, 3, 4, 5}" using assms(2) by auto
  then have f: "faults w \<in> {[Some b], [None, Some b], [None, None, Some b], [None, None, None, Some b],
      [None, None, None, None, Some b], [None, None, None, None, None, Some b]}" using assms(1) by (auto simp: numeral_eq_Suc)
  show ?thesis
    using f c s n assms(5)
    by (auto simp: header_read_next_def bindS_def stream_position_def seek_end_def seek_start_def read_to_end_def
        on_snd_def os_call_def pop_fault_def set_cur_def file_len_def checked_add_def)
qed

lemma replay_cut:
  assumes "list_all (entry_ok X) es" and "k < length es" and "j < 6" and "faults w = replicate (6 * k + j) None @ [Some b]"
    and "drop (cur h) (contents w (fid h)) = records_bytes X es" and "length (contents w (fid h)) < 2 ^ 64"
    and "memtable_wf X m" and "tracked m + esizes X es < 2 ^ 64"
  shows "\<exists>h'. replay X m (h, w) = (Inr (fold (inserted X) (take k es) m), (h', w\<lparr>faults := []\<rparr>)) \<and> fid h' = fid h"
  using assms
proof (induction k arbitrary: es m h w)
  case 0
  then obtain e rest where es: "es = e # rest" by (cases es) auto
  have "drop (cur h) (contents w (fid h)) = record_bytes X e @ records_bytes X rest" using 0 es by simp
  from header_read_next_fails [of w j b h X e, OF _ 0(3) this] 0 es
  obtain h' where "header_read_next X (h, w) = (Inl IoError, (h', w\<lparr>faults := []\<rparr>))" "fid h' = fid h" by auto
  then show ?case by (simp add: replay.simps [of X m "(h, w)"])
next
  case (Suc k)
  then obtain e rest where es: "es = e # rest" by (cases es) auto
  let ?fs = "replicate (6 * k + j) None @ [Some b]" and ?h = "h\<lparr>cur := cur h + length (record_bytes X e)\<rparr>"
  have f: "faults w = replicate 6 None @ ?fs" using Suc.prems(4) by (simp add: replicate_add [symmetric] flip: append_assoc)
  have d: "drop (cur h) (contents w (fid h)) = record_bytes X e @ records_bytes X rest" using Suc.prems es by simp
  have ok: "entry_ok X e" "list_all (entry_ok X) rest" using Suc.prems(1) es by simp_all
  have n: "header_read_next X (h, w) = (Inr (Some e), (?h, w\<lparr>faults := ?fs\<rparr>))"
    using header_read_next_calls [OF f d ok(1) Suc.prems(6)] .
  have size: "tracked m + esize X e < 2 ^ 64" using Suc.prems(8) es by (simp add: esizes_def)
  have p: "process X e m = (Inr (memtable_get m (entry_key e)), inserted X e m)"
    using process_ok [OF Suc.prems(7) ok(1) size] .
  have wf: "memtable_wf X (inserted X e m)" using inserted_wf [OF Suc.prems(7) ok(1) size] .
  have "drop (cur ?h) (contents w (fid ?h)) = drop (length (record_bytes X e)) (drop (cur h) (contents w (fid h)))"
    by (simp add: add.commute)
  then have d': "drop (cur ?h) (contents w (fid ?h)) = records_bytes X rest" unfolding d by simp
  have t: "tracked (inserted X e m) + esizes X rest < 2 ^ 64"
    using tracked_inserted [OF Suc.prems(7), of e] Suc.prems(8) es by (simp add: esizes_def)
  have "contents (w\<lparr>faults := ?fs\<rparr>) i = contents w i" for i by (cases i) (simp_all add: contents.simps)
  then obtain h' where "replay X (inserted X e m) (?h, w\<lparr>faults := ?fs\<rparr>) =
      (Inr (fold (inserted X) (take k rest) (inserted X e m)), (h', w\<lparr>faults := []\<rparr>))" "fid h' = fid h"
    using Suc.IH [OF ok(2) _ Suc.prems(3), of "w\<lparr>faults := ?fs\<rparr>" ?h "inserted X e m"] Suc.prems(2,6) d' wf t es by auto
  with n p es show ?case by (simp add: replay.simps [of X m "(h, w)"])
qed

lemma log_new_cut:
  assumes "faults w = []" and "wal w = records_bytes X es" and "list_all (entry_ok X) es" and "length es \<le> 2 ^ 29"
    and "k < length es" and "j < 6" and "length (ssts w) < 2 ^ 64"
  shows "\<exists>h. log_new X False (w\<lparr>faults := replicate (4 + 6 * k + j) None @ [Some b]\<rparr>) =
    (Inr \<lparr>wal_file = h, log_memtable = memtable_of X (take k es), flush_count = length (ssts w)\<rparr>, w)"
proof -
  let ?fs = "replicate (6 * k + j) None @ [Some b]"
  have "length (wal w) \<le> length es * 8589934602" using length_records_bytes_le [OF assms(3)] assms(2) by simp
  then have len: "length (wal w) < 2 ^ 64" using assms(4) by simp
  have "esizes X es \<le> length es * 2 ^ 33" by (rule esizes_le [OF assms(3)])
  also have "\<dots> \<le> 2 ^ 29 * 2 ^ 33" using assms(4) by simp
  finally have t: "tracked memtable_new + esizes X es < 2 ^ 64" by simp
  have w: "w\<lparr>faults := []\<rparr> = w" using assms(1) by (cases w) simp
  obtain h where h: "replay X memtable_new (\<lparr>fid = Wal, cur = 0\<rparr>, w\<lparr>faults := ?fs\<rparr>) =
      (Inr (fold (inserted X) (take k es) memtable_new), (h, w))" "fid h = Wal"
    using replay_cut [OF assms(3,5,6), of "w\<lparr>faults := ?fs\<rparr>" b "\<lparr>fid = Wal, cur = 0\<rparr>" memtable_new] assms(2) len t w
    by (auto simp: contents.simps)
  have f: "replicate (4 + 6 * k + j) None @ [Some b] = None # None # None # None # ?fs"
    by (simp add: numeral_eq_Suc)
  show ?thesis
    unfolding f using h assms(1,7)
    by (intro exI [of _ h]) (simp add: log_new_def bindS_def with_local_def on_snd_def create_dir_all_def os_call_def pop_fault_def
        open_kept_def from_file_def seek_start_def set_cur_def read_dir_def u64_try_from_def memtable_of_def)
qed

lemma log_new_wal:
  assumes "wal_ok X U w" and "faults w = []" and "length (ssts w) < 2 ^ 64"
  shows "\<exists>h. fid h = Wal \<and> log_new X False w = (Inr \<lparr>wal_file = h,
    log_memtable = memtable_of X (wal_entries X w), flush_count = length (ssts w)\<rparr>, w)"
proof -
  note d = wal_okD [OF assms(1)]
  have "length (wal w) < 2 ^ 64" using length_records_bytes_le [OF d(4)] d(5,6) by simp
  moreover have "length (wal_entries X w) \<le> 2 ^ 29" using d(5) by simp
  ultimately show ?thesis using log_new_reads [OF assms(2)] d(4) assms(3) by blast
qed

text \<open>
  Opening an existing store reads back what it had. Nothing a \<open>Log\<close> holds in memory matters,
  so this is also the recovery after the process was killed.
\<close>

lemma log_new_ok:
  assumes "disk_ok X U w" and "faults w = []" and "length (ssts w) < 2 ^ 64"
  shows "\<exists>l. log_new X False w = (Inr l, w) \<and> log_inv X U (l, w) \<and> flush_count l = length (ssts w)"
proof -
  obtain h where h: "fid h = Wal" "log_new X False w = (Inr \<lparr>wal_file = h,
      log_memtable = memtable_of X (wal_entries X w), flush_count = length (ssts w)\<rparr>, w)"
    using log_new_wal [OF disk_ok_wal [OF assms(1)] assms(2,3)] by blast
  with assms(1,2) show ?thesis by (simp add: log_inv_def memtable_of_def)
qed

text \<open>With \<open>truncate\<close> the WAL is emptied first: what was not flushed is gone.\<close>

lemma log_new_truncate:
  assumes "disk_ok X U w" and "faults w = []" and "length (ssts w) < 2 ^ 64"
  shows "\<exists>l. log_new X True w = (Inr l, w\<lparr>wal := []\<rparr>) \<and> log_inv X U (l, w\<lparr>wal := []\<rparr>) \<and>
    log_memtable l = memtable_new \<and> flush_count l = length (ssts w)"
proof -
  let ?w = "w\<lparr>wal := []\<rparr>"
  note d = disk_okD [OF assms(1)]
  have we: "wal_entries X ?w = []" by (simp add: wal_entries_empty)
  have "holds X ?w (tables_of X ?w)" using d(2) by (simp add: holds_def tables_of_def)
  moreover have "tables_of X ?w = tables_of X w" by (rule tables_of_cong) simp
  ultimately have ok: "disk_ok X U ?w"
    using d(1,7) appendable_records [OF d(1), of "[]"] by (simp add: disk_ok_def wal_ok_def we)
  obtain l where l: "log_new X False ?w = (Inr l, ?w)" "log_inv X U (l, ?w)" "flush_count l = length (ssts w)"
    using log_new_ok [OF ok] assms(2,3) by auto
  have "log_new X True w = log_new X False ?w"
    using assms(2) by (simp add: log_new_def bindS_def calls_ok set_contents.simps)
  with l log_invD(4) [OF l(2)] we show ?thesis
    by (intro exI [of _ l]) (simp add: memtable_of_def)
qed

section \<open>The operations on the map\<close>

lemma latest_key:
  assumes "latest X w k = Some e"
  shows "entry_key e = k"
proof -
  have "newest ess k = Some e \<Longrightarrow> entry_key e = k" for ess
    by (induction ess) (auto split: option.splits dest: lookup_entry_Some)
  with assms show ?thesis
    by (auto simp: latest_def store_get_def split: option.splits dest: lookup_entry_Some)
qed

lemma live_latest: "live_entry (latest X w k) = map_option (Set k) (disk_map X w k)"
  using latest_key [of X w k]
  by (auto simp: disk_map_def live_entry_def split: option.split entry.split)

lemma log_get_map:
  "log_inv X U (l, w) \<Longrightarrow> log_get X k (l, w) = (Inr (map_option (Set k) (disk_map X w k)), (l, w))"
  by (simp add: log_get_latest live_latest)

lemma log_contains_map:
  "log_inv X U (l, w) \<Longrightarrow> log_contains X k (l, w) = (Inr (k \<in> dom (disk_map X w)), (l, w))"
  by (auto simp: log_contains_def bindS_def log_get_map)

section \<open>The log provides the store\<close>

text \<open>
  How long the resources last: the entries that can still come, and the clock readings the
  flushes and compactions can need. A flush needs one, and a compaction at most as many as
  there are entries, because no table is empty.
\<close>

definition disk_room :: "crates \<Rightarrow> nat \<Rightarrow> world \<Rightarrow> bool" where
  "disk_room X n w \<longleftrightarrow> stored X w + n \<le> MAX_WAL_ENTRIES \<and>
     clock_ok (n * (stored X w + n + 2)) w"

definition log_room :: "crates \<Rightarrow> nat \<Rightarrow> log \<times> world \<Rightarrow> bool" where
  "log_room X n s \<longleftrightarrow> disk_room X n (snd s)"

definition log_busy :: "crates \<Rightarrow> nat \<Rightarrow> log \<times> world \<Rightarrow> bool" where
  "log_busy X n s \<longleftrightarrow> stored X (snd s) + n \<le> MAX_WAL_ENTRIES \<and>
     clock_ok (n * (stored X (snd s) + n + 2) + Suc (stored X (snd s))) (snd s)"

definition log_good :: "crates \<Rightarrow> entry set \<Rightarrow> log \<times> world \<Rightarrow> entry \<Rightarrow> bool" where
  "log_good X U s e \<longleftrightarrow> e \<in> U"

definition reopen :: "crates \<Rightarrow> (log \<times> world, unit) sio" where
  "reopen X s = (case log_new X False (snd s) of
       (Inl e, w) \<Rightarrow> (Inl e, (fst s, w))
     | (Inr l, w) \<Rightarrow> (Inr (), (l, w)))"

lemma disk_room_mono:
  assumes "disk_room X n w" and "k \<le> n"
  shows "disk_room X k w"
proof -
  have "k * (stored X w + k + 2) \<le> n * (stored X w + n + 2)" using assms(2) by (intro mult_le_mono) simp_all
  with assms show ?thesis by (auto simp: disk_room_def intro: clock_ok_mono)
qed

lemma log_room_less: "log_room X (Suc n) s \<Longrightarrow> log_room X n s"
  by (auto simp: log_room_def disk_room_def elim!: clock_ok_mono)

lemma log_room_busy: "log_room X (Suc n) s \<Longrightarrow> log_busy X n s"
  by (auto simp: log_room_def disk_room_def log_busy_def elim!: clock_ok_mono)

lemma log_busy_room: "log_busy X n s \<Longrightarrow> log_room X n s"
  by (auto simp: log_room_def disk_room_def log_busy_def elim!: clock_ok_mono)

lemma stored_append:
  "disk_ok X U w \<Longrightarrow> e \<in> U \<Longrightarrow> stored X (appended X e w) = Suc (stored X w)"
  by (simp add: stored_def wal_entries_append)

lemma clock_ok_appended [simp]: "clock_ok n (appended X e w) = clock_ok n w"
  by (simp add: clock_ok_def next_name_def)

lemma log_room_append:
  assumes "disk_ok X U w" and "e \<in> U" and "log_room X (Suc n) (l, w)"
  shows "log_busy X n (l', appended X e w)"
proof -
  have "n * (Suc (stored X w) + n + 2) + Suc (Suc (stored X w)) \<le> Suc n * (stored X w + Suc n + 2)"
    by simp
  then show ?thesis
    using assms(3) clock_ok_mono unfolding log_room_def disk_room_def log_busy_def snd_conv stored_append [OF assms(1,2)]
      clock_ok_appended by (metis add_Suc add_Suc_right)
qed

lemma table_cost_le:
  assumes "disk_ok X U w"
  shows "table_cost (memtable_of X (wal_entries X w)) \<le> 1"
  by (simp add: table_cost_def)

lemma flush_cost_le:
  assumes "log_inv X U (l, w)" and "clock_ok (Suc j) w"
  shows "flush_cost X (l, w) \<le> Suc (stored X w)"
proof -
  note i = log_invD [OF assms(1)]
  let ?m = "memtable_of X (wal_entries X w)"
  have "clock_ok (table_cost ?m + 0) w"
    using clock_ok_mono [OF assms(2)] table_cost_le [OF i(1)] by simp
  then obtain w1 where "holds X w1 (with_memtable ?m w (tables_of X w))"
    using flush_to_holds [OF i(1,2)] by blast
  from compacted_length(2) [OF this]
  have "length (compacted X (with_memtable ?m w (tables_of X w))) \<le> stored X w"
    using wal_memtable(3) [OF i(1)] by (simp add: total_with_memtable stored_def)
  then show ?thesis
    using table_cost_le [OF i(1)] by (simp add: flush_cost_def i(4) Let_def)
qed

text \<open>A flush and a compaction use up the resources of one command at most.\<close>

lemma log_flush_room:
  assumes "log_inv X U (l, w)" and "log_busy X n (l, w)"
  shows "\<exists>l' w'. log_flush X (l, w) = (Inr (), (l', w')) \<and> log_inv X U (l', w') \<and>
    log_room X n (l', w') \<and> disk_map X w' = disk_map X w \<and> log_memtable l' = memtable_new \<and> wal w' = []"
proof -
  let ?k = "n * (stored X w + n + 2)"
  have ck: "clock_ok (?k + Suc (stored X w)) w" and max: "stored X w + n \<le> MAX_WAL_ENTRIES"
    using assms(2) by (simp_all add: log_busy_def)
  then have "clock_ok (Suc (?k + stored X w)) w" by simp
  from flush_cost_le [OF assms(1) this] clock_ok_mono [OF ck]
  have "clock_ok (flush_cost X (l, w) + ?k) w" by simp
  from log_flush_ok [OF assms(1) this] obtain l' w' where
    r: "log_flush X (l, w) = (Inr (), (l', w'))" "log_inv X U (l', w')"
      "disk_map X w' = disk_map X w" "log_memtable l' = memtable_new" "clock_ok ?k w'"
      "stored X w' \<le> stored X w" "wal w' = []" by blast
  have "n * (stored X w' + n + 2) \<le> ?k" using r(6) by simp
  then have "log_room X n (l', w')"
    using clock_ok_mono [OF r(5)] r(6) max by (simp add: log_room_def disk_room_def)
  with r show ?thesis by blast
qed

lemma maybe_flush_ok:
  assumes "log_inv X U (l, w)" and "log_busy X n (l, w)"
  shows "\<exists>l' w'. maybe_flush X (l, w) = (Inr (), (l', w')) \<and> log_inv X U (l', w') \<and>
    log_room X n (l', w') \<and> disk_map X w' = disk_map X w \<and> \<not> should_flush (log_memtable l')"
proof (cases "should_flush (log_memtable l)")
  case True
  with log_flush_room [OF assms] show ?thesis by (fastforce simp: maybe_flush_def)
next
  case False
  with assms log_busy_room show ?thesis by (simp add: maybe_flush_def)
qed

lemma maybe_flush_wal:
  assumes "log_inv X U (l, w)" and "log_busy X n (l, w)" and "maybe_flush X (l, w) = (Inr (), (l', v))"
  shows "wal v = wal w \<or> wal v = []"
  using log_flush_room [OF assms(1,2)] assms(3) by (auto simp: maybe_flush_def split: if_splits)

text \<open>\<open>Log::compact\<close> as an operation of the store.\<close>

definition log_compact :: "crates \<Rightarrow> (log \<times> world, unit) sio" where
  "log_compact X = on_snd (compact X)"

lemma log_compact_room:
  assumes "log_inv X U (l, w)" and "log_busy X n (l, w)"
  shows "\<exists>w'. log_compact X (l, w) = (Inr (), (l, w')) \<and> log_inv X U (l, w') \<and>
    log_room X n (l, w') \<and> disk_map X w' = disk_map X w"
proof -
  note i = log_invD [OF assms(1)]
  let ?T = "tables_of X w" and ?k = "n * (stored X w + n + 2)"
  note h = disk_okD(2) [OF i(1)]
  have len: "length (compacted X ?T) \<le> stored X w" using compacted_length(2) [OF h] by (simp add: stored_def)
  have ck: "clock_ok (?k + Suc (stored X w)) w" and max: "stored X w + n \<le> MAX_WAL_ENTRIES"
    using assms(2) by (simp_all add: log_busy_def)
  have "clock_ok (length (compacted X ?T) + ?k) w" using clock_ok_mono [OF ck] len by simp
  from compact_disk [OF i(1,2) this] obtain w' where
    c: "compact X w = (Inr (), w')" "disk_ok X U w'" "disk_map X w' = disk_map X w" "wal w' = wal w"
      "map snd (tables_of X w') = compacted X ?T" "faults w' = []" "clock_ok ?k w'" by blast
  have we: "wal_entries X w' = wal_entries X w" using c(4) by (rule wal_entries_cong)
  have st: "stored X w' \<le> stored X w"
    using compacted_length(1) [OF h] c(5) we by (simp add: stored_def total_def length_concat)
  have "n * (stored X w' + n + 2) \<le> ?k" using st by simp
  then have "log_room X n (l, w')"
    using clock_ok_mono [OF c(7)] st max by (simp add: log_room_def disk_room_def)
  moreover have "log_inv X U (l, w')" using c(2,6) i(3,4) we by (simp add: log_inv_def memtable_of_def)
  ultimately show ?thesis using c(1,3) by (simp add: log_compact_def on_snd_def)
qed

lemma length_ssts_le:
  assumes "holds X w T"
  shows "length (ssts w) \<le> total (map snd T)"
proof -
  have "length cs \<le> total cs" if "[] \<notin> set cs" for cs :: "entry list list"
    using length_le_concat [OF that] by (simp add: total_def length_concat)
  moreover have "[] \<notin> set (map snd T)"
    using assms by (auto simp: holds_def table_ok_def)
  ultimately have "length (map snd T) \<le> total (map snd T)" by blast
  with assms show ?thesis by (simp add: holds_def)
qed

lemma room_tables:
  assumes "disk_ok X U w" and "disk_room X n w"
  shows "length (ssts w) < 2 ^ 64"
  using length_ssts_le [OF disk_okD(2) [OF assms(1)]] assms(2)
  by (simp add: stored_def disk_room_def MAX_WAL_ENTRIES_def)

lemma reopen_ok:
  assumes "log_inv X U (l, w)" and "stored X w < 2 ^ 64"
  shows "\<exists>l'. reopen X (l, w) = (Inr (), (l', w)) \<and> log_inv X U (l', w)"
proof -
  note i = log_invD [OF assms(1)]
  have "length (ssts w) < 2 ^ 64"
    using length_ssts_le [OF disk_okD(2) [OF i(1)]] assms(2) by (simp add: stored_def)
  from log_new_ok [OF i(1,2) this] show ?thesis by (auto simp: reopen_def)
qed

interpretation store: kept_store "log_inv X U" "log_room X" "log_busy X" "log_good X U"
    "\<lambda>s. disk_map X (snd s)" "log_get X" "log_write X" "maybe_flush X" "reopen X"
    "log_contains X" "log_flush X" "log_compact X" for X U
proof (unfold_locales, goal_cases)
  case (1 s k)
  then show ?case by (cases s) (simp add: log_get_map)
next
  case (2 s n e)
  obtain l w where s: "s = (l, w)" by (cases s)
  have e: "e \<in> U" using 2(3) by (simp add: log_good_def)
  have "length (wal_entries X w) < MAX_WAL_ENTRIES"
    using 2(2) s by (simp add: log_room_def disk_room_def stored_def)
  from log_write_ok [OF 2(1) [unfolded s] e this] obtain l' where
    "log_write X e (l, w) = (Inr (), (l', appended X e w))" "log_inv X U (l', appended X e w)" by blast
  moreover have "log_busy X n (l', appended X e w)"
    using log_room_append [OF log_invD(1) [OF 2(1) [unfolded s]] e] 2(2) s by blast
  ultimately show ?case
    using disk_map_append [OF log_invD(1) [OF 2(1) [unfolded s]] e] s
    by (simp add: apply_entry_def log_good_def fun_eq_iff)
next
  case (3 s n)
  then show ?case using maybe_flush_ok [of X U _ _ n] by (cases s) (fastforce simp: log_good_def)
next
  case (4 n s)
  then show ?case by (rule log_room_busy)
next
  case (5 n s)
  then show ?case by (rule log_room_less)
next
  case (6 s n)
  obtain l w where s: "s = (l, w)" by (cases s)
  have "stored X w < 2 ^ 64" using 6(2) s by (simp add: log_room_def disk_room_def MAX_WAL_ENTRIES_def)
  from reopen_ok [OF 6(1) [unfolded s] this] 6(2) s show ?case
    by (fastforce simp: log_room_def disk_room_def log_good_def)
next
  case (7 s k)
  then show ?case by (cases s) (simp add: log_contains_map dom_def)
next
  case (8 s n)
  then show ?case using log_flush_room [of X U _ _ n] by (cases s) (fastforce simp: log_good_def)
next
  case (9 s n)
  then show ?case using log_compact_room [of X U _ _ n] by (cases s) (fastforce simp: log_good_def)
next
  case (10 n s)
  then show ?case by (rule log_busy_room)
qed

text \<open>Clients of the store, as the contract runs them.\<close>

primrec act :: "crates \<Rightarrow> action \<Rightarrow> (log \<times> world, answer) sio" where
  "act X (Write e) = bindS (log_write X e) (\<lambda>_. ret Done)"
| "act X (Get k) = bindS (log_get X k) (\<lambda>r. ret (Found r))"
| "act X (Contains k) = bindS (log_contains X k) (\<lambda>b. ret (Known b))"
| "act X Flush = bindS (log_flush X) (\<lambda>_. ret Done)"
| "act X MaybeFlush = bindS (maybe_flush X) (\<lambda>_. ret Done)"
| "act X Compact = bindS (log_compact X) (\<lambda>_. ret Done)"
| "act X Reopen = bindS (reopen X) (\<lambda>_. ret Done)"

primrec script :: "crates \<Rightarrow> action list \<Rightarrow> (log \<times> world, answer list) sio" where
  "script X [] = ret []"
| "script X (a # as) = bindS (act X a) (\<lambda>r. bindS (script X as) (\<lambda>rs. ret (r # rs)))"

lemma act_store: "store.act X a = act X a"
  by (cases a) simp_all

lemma script_store: "store.script X as = script X as"
  by (induction as) (simp_all add: act_store)

lemmas script_ok = store.script_ok [unfolded script_store]

end
