(* ===== verification/Sample.thy ===== *)
theory Sample
  imports Log
begin

text \<open>
  Concrete functions for the crates the store calls, and a concrete store, on which the
  theorems of the development are evaluated: a codec with wincode's layout (a four-byte
  discriminant, eight-byte lengths), the CRC-32 of the polynomial \<open>0xEDB88320\<close>, and the
  64-bit FNV-1a hash started from the seed. The theorems themselves hold for all such
  functions.
\<close>

section \<open>A codec\<close>

definition of_bytes :: "u8 list \<Rightarrow> string" where
  "of_bytes bs = map (\<lambda>b. char_of (unat b)) bs"

lemma of_bytes_as_bytes [simp]: "of_bytes (as_bytes s) = s"
proof -
  have "char_of (unat (of_nat (of_char c) :: u8)) = c" for c :: char
    by (simp add: unat_of_nat)
  then show ?thesis by (simp add: of_bytes_def as_bytes_def comp_def)
qed

definition put_string :: "string \<Rightarrow> u8 list" where
  "put_string s = le_bytes 8 (length s) @ as_bytes s"

definition get_string :: "u8 list \<Rightarrow> (string \<times> u8 list) option" where
  "get_string bs = (case split_first_chunk 8 bs of None \<Rightarrow> None | Some (len, rest) \<Rightarrow>
     case split_first_chunk (le_value len) rest of None \<Rightarrow> None | Some (s, r) \<Rightarrow> Some (of_bytes s, r))"

lemma get_put_string: "length s < 2 ^ 64 \<Longrightarrow> get_string (put_string s @ r) = Some (s, r)"
  by (simp add: get_string_def put_string_def)

fun toy_serialize :: "entry \<Rightarrow> u8 list option" where
  "toy_serialize (Set k v) = Some (le_bytes 4 0 @ put_string k @ put_string v)"
| "toy_serialize (Delete k) = Some (le_bytes 4 1 @ put_string k)"

definition toy_deserialize :: "u8 list \<Rightarrow> entry option" where
  "toy_deserialize bs = (case split_first_chunk 4 bs of None \<Rightarrow> None | Some (tag, rest) \<Rightarrow>
     case get_string rest of None \<Rightarrow> None | Some (k, rest') \<Rightarrow>
     if le_value tag = 0 then (case get_string rest' of None \<Rightarrow> None | Some (v, r) \<Rightarrow> Some (Set k v))
     else if le_value tag = 1 then Some (Delete k) else None)"

section \<open>Two hashes\<close>

definition crc_bit :: "u32 \<Rightarrow> u32" where
  "crc_bit c = (if bit c 0 then drop_bit 1 c XOR 0xEDB88320 else drop_bit 1 c)"

definition crc_byte :: "u8 \<Rightarrow> u32 \<Rightarrow> u32" where
  "crc_byte b c = (crc_bit ^^ 8) (c XOR ucast b)"

definition toy_crc32 :: "u8 list \<Rightarrow> u32" where
  "toy_crc32 bs = NOT (fold crc_byte bs (NOT 0))"

definition fnv1a :: "u8 list \<Rightarrow> u64 \<Rightarrow> u64" where
  "fnv1a bs seed = fold (\<lambda>b h. (h XOR ucast b) * 0x100000001B3) bs (0xCBF29CE484222325 + seed)"

definition toy :: crates where
  "toy = \<lparr>wincode_serialize = toy_serialize, wincode_deserialize = toy_deserialize,
     crc32 = toy_crc32, xxh3 = fnv1a\<rparr>"

lemma le_bytes_ne: "0 < n \<Longrightarrow> le_bytes n x \<noteq> []"
  by (cases n) simp_all

lemma toy_entry_ok:
  assumes "length (entry_key e) < 2 ^ 16" and "\<forall>v. entry_value e = Some v \<longrightarrow> length v < 2 ^ 16"
  shows "entry_ok toy e"
proof (cases e)
  case (Set k v)
  then have len: "length k < 2 ^ 16" "length v < 2 ^ 16" using assms by simp_all
  have "get_string (put_string v) = Some (v, [])"
    using get_put_string [of v "[]"] len by simp
  moreover have "length (put_string s) = 8 + length s" for s by (simp add: put_string_def)
  ultimately show ?thesis
    using Set len
    by (simp add: entry_ok_def toy_def toy_deserialize_def get_put_string le_bytes_ne)
next
  case (Delete k)
  then have len: "length k < 2 ^ 16" using assms by simp
  have "get_string (put_string k) = Some (k, [])"
    using get_put_string [of k "[]"] len by simp
  moreover have "length (put_string s) = 8 + length s" for s by (simp add: put_string_def)
  ultimately show ?thesis
    using Delete len by (simp add: entry_ok_def toy_def toy_deserialize_def le_bytes_ne)
qed

section \<open>A store\<close>

text \<open>Entries over at most four keys are usable, whatever the hash: their footers are short.\<close>

lemma small_universe:
  assumes "\<forall>e \<in> U. entry_ok X e" and "finite (entry_key ` U)" and "card (entry_key ` U) \<le> 4"
  shows "universe X U"
  unfolding universe_def
proof (intro conjI allI impI)
  show "\<forall>e \<in> U. entry_ok X e" by (rule assms(1))
next
  fix es assume "set es \<subseteq> U" and "key_sorted es"
  then have "distinct (map entry_key es)"
    by (simp add: key_sorted_def strict_sorted_iff)
  then have "length es = card (entry_key ` set es)"
    by (metis distinct_card length_map list.set_map)
  also have "\<dots> \<le> card (entry_key ` U)"
    using \<open>set es \<subseteq> U\<close> assms(2) by (intro card_mono image_mono)
  finally show "quiet X (table_footer X es) []"
    using assms(3) by (intro short_footer_quiet) simp
qed

definition toy_entries :: "entry set" where
  "toy_entries = {Set ''a'' ''1'', Set ''a'' ''2'', Delete ''a'', Set ''b'' ''3'', Delete ''b''}"

lemma toy_universe: "universe toy toy_entries"
proof (rule small_universe)
  show "\<forall>e \<in> toy_entries. entry_ok toy e"
    by (auto simp: toy_entries_def intro!: toy_entry_ok)
  have k: "entry_key ` toy_entries = {''a'', ''b''}" by (auto simp: toy_entries_def)
  show "finite (entry_key ` toy_entries)" unfolding k by simp
  show "card (entry_key ` toy_entries) \<le> 4" unfolding k by simp
qed

text \<open>An empty directory, and a clock that ticks once per reading.\<close>

definition empty_world :: world where
  "empty_world = \<lparr>wal = [], ssts = [], clock = (\<lambda>i. 1700000000000000 + int i), ticks = 0, faults = []\<rparr>"

definition empty_log :: log where
  "empty_log = \<lparr>wal_file = \<lparr>fid = Wal, cur = 0\<rparr>, log_memtable = memtable_new, flush_count = 0\<rparr>"

lemma empty_world_simps [simp]:
  "wal empty_world = []" "ssts empty_world = []" "faults empty_world = []" "ticks empty_world = 0"
  "clock empty_world i = 1700000000000000 + int i"
  by (simp_all add: empty_world_def)

lemma empty_world_data [simp]:
  "wal_entries X empty_world = []" "tables_of X empty_world = []" "stored X empty_world = 0"
  "disk_map X empty_world = Map.empty"
proof -
  show w: "wal_entries X empty_world = []" by (simp add: wal_entries_empty)
  show t: "tables_of X empty_world = []" by (simp add: tables_of_def)
  show "stored X empty_world = 0" by (simp add: stored_def w t)
  show "disk_map X empty_world = Map.empty"
    by (rule ext) (simp add: disk_map_def latest_def w t store_get_def newest_first_def sort_desc_def)
qed

lemma empty_clock_ok: "n \<le> 10 ^ 15 \<Longrightarrow> clock_ok n empty_world"
  by (simp add: clock_ok_def)

lemma empty_disk_ok: "universe X U \<Longrightarrow> disk_ok X U empty_world"
  using appendable_records [of X U "[]"] by (simp add: disk_ok_def wal_ok_def holds_def)

lemma empty_log_inv: "universe X U \<Longrightarrow> log_inv X U (empty_log, empty_world)"
  using empty_disk_ok [of X U] by (simp add: log_inv_def empty_log_def)

lemma empty_log_room: "n \<le> 1000 \<Longrightarrow> log_room X n (empty_log, empty_world)"
proof -
  assume n: "n \<le> 1000"
  then have "n * (n + 2) \<le> 1000 * 1002" by (intro mult_mono) simp_all
  with n show ?thesis by (simp add: log_room_def disk_room_def MAX_WAL_ENTRIES_def empty_clock_ok)
qed

lemmas toy_inv = empty_log_inv [OF toy_universe]

text \<open>A directory with two tables: the newer one deletes a key of the older one.\<close>

definition toy_tables :: tables where
  "toy_tables = [(sst_name 1, [Set ''a'' ''1'']), (sst_name 2, [Delete ''a'', Set ''b'' ''3''])]"

definition toy_world :: world where
  "toy_world = empty_world\<lparr>ssts := map (\<lambda>p. (fst p, table_image toy (snd p))) toy_tables\<rparr>"

lemma toy_world_simps [simp]:
  "wal toy_world = []" "faults toy_world = []" "ticks toy_world = 0"
  "clock toy_world i = 1700000000000000 + int i"
  "ssts toy_world = map (\<lambda>p. (fst p, table_image toy (snd p))) toy_tables"
  by (simp_all add: toy_world_def)

lemma toy_table_ok:
  assumes "es \<noteq> []" and "key_sorted es" and "set es \<subseteq> toy_entries" and "length es \<le> 4"
  shows "table_ok toy es"
proof -
  have ok: "list_all (entry_ok toy) es" using toy_universe assms(3) by (rule universeD(2))
  have "length (table_image toy es) < 2 ^ 64"
    using length_table_image [of toy es] esizes_le [OF ok] assms(4) by simp
  then show ?thesis
    using assms ok short_footer_quiet [OF assms(4)] by (simp add: table_ok_def key_sorted_def)
qed

lemma toy_names: "sst_name 1 < sst_name 2" "sst_name 2 < sst_name 1700000000000000"
  "sst_name 1 < sst_name 1700000000000000"
  by (rule sst_name_mono; simp)+

lemma less_ab: "''a'' < (''b'' :: string)"
  by (simp add: Cons_less_Cons)

lemma toy_holds: "holds toy toy_world toy_tables"
proof -
  have "table_ok toy [Set ''a'' ''1'']"
    by (rule toy_table_ok) (simp_all add: toy_entries_def)
  moreover have "table_ok toy [Delete ''a'', Set ''b'' ''3'']"
    by (rule toy_table_ok) (simp_all add: toy_entries_def less_ab)
  moreover have "sst_name 1 \<noteq> sst_name 2" using toy_names(1) by auto
  ultimately show ?thesis by (simp add: holds_def toy_tables_def)
qed

lemmas toy_tables_of = tables_of_holds [OF toy_holds]

lemma toy_disk_ok: "disk_ok toy toy_entries toy_world"
proof -
  have "wal_ok toy toy_entries toy_world"
    using disk_ok_wal [OF empty_disk_ok [OF toy_universe]] wal_ok_cong [of toy_world empty_world] by simp
  then show ?thesis
    using toy_holds by (simp add: disk_ok_def toy_tables_of) (simp add: toy_tables_def toy_entries_def)
qed

lemma toy_clock_ok: "n \<le> 10 ^ 15 \<Longrightarrow> clock_ok n toy_world"
  using toy_names by (simp add: clock_ok_def next_name_def toy_tables_def)

lemma toy_newest: "newest_first toy_tables = [[Delete ''a'', Set ''b'' ''3''], [Set ''a'' ''1'']]"
proof -
  have "sort [sst_name 1, sst_name 2] = [sst_name 1, sst_name 2]"
    using toy_names(1) by (intro sorted_sort_id) (simp add: less_imp_le)
  then have "sort_desc (map fst toy_tables) = [sst_name 2, sst_name 1]"
    by (simp add: sort_desc_def toy_tables_def)
  moreover have "sst_name 1 \<noteq> sst_name 2" using toy_names(1) by auto
  ultimately show ?thesis by (simp add: newest_first_def table_named_def) (simp add: toy_tables_def)
qed

lemma toy_disk_map: "disk_map toy toy_world = [''b'' \<mapsto> ''3'']"
  by (rule ext) (simp add: disk_map_def latest_def store_get_def wal_entries_empty toy_tables_of toy_newest)

end
