(* ===== verification/Utf8.thy ===== *)
theory Utf8
  imports Prelude
begin

text \<open>
  The part of Rust's \<open>str\<close> the command parser uses: splitting the UTF-8 bytes of a string
  into characters, \<open>split_whitespace\<close>, \<open>trim\<close>, and \<open>to_lowercase\<close> as far as a comparison
  with an ASCII word can tell. A character is the list of its bytes.
\<close>

section \<open>Characters\<close>

definition byte :: "char \<Rightarrow> nat" where
  "byte c = of_char c"

definition bytes_string :: "nat list \<Rightarrow> string" where
  "bytes_string ns = map char_of ns"

definition continuation :: "char \<Rightarrow> bool" where
  "continuation c \<longleftrightarrow> 0x80 \<le> byte c \<and> byte c \<le> 0xBF"

text \<open>
  The length of the well-formed character a string starts with (Unicode, table 3-7): what the
  lead byte announces, and the restrictions on the second byte.
\<close>

definition lead_len :: "nat \<Rightarrow> nat" where
  "lead_len x =
     (if x < 0x80 then 1
      else if 0xC2 \<le> x \<and> x \<le> 0xDF then 2
      else if 0xE0 \<le> x \<and> x \<le> 0xEF then 3
      else if 0xF0 \<le> x \<and> x \<le> 0xF4 then 4
      else 0)"

definition second_ok :: "nat \<Rightarrow> nat \<Rightarrow> bool" where
  "second_ok x b \<longleftrightarrow> (x = 0xE0 \<longrightarrow> 0xA0 \<le> b) \<and> (x = 0xED \<longrightarrow> b \<le> 0x9F) \<and>
     (x = 0xF0 \<longrightarrow> 0x90 \<le> b) \<and> (x = 0xF4 \<longrightarrow> b \<le> 0x8F)"

definition tail_ok :: "nat \<Rightarrow> string \<Rightarrow> bool" where
  "tail_ok x t \<longleftrightarrow> 0 < lead_len x \<and> Suc (length t) = lead_len x \<and> list_all continuation t \<and>
     (t \<noteq> [] \<longrightarrow> second_ok x (byte (hd t)))"

definition first_len :: "string \<Rightarrow> nat option" where
  "first_len s = (case s of [] \<Rightarrow> None | a # r \<Rightarrow>
     let n = lead_len (byte a) in
     if tail_ok (byte a) (take (n - 1) r) then Some n else None)"

lemma first_len_Some:
  "first_len s = Some n \<longleftrightarrow> (\<exists>a t r. s = a # t @ r \<and> n = Suc (length t) \<and> tail_ok (byte a) t)"
proof
  assume "first_len s = Some n"
  then obtain a r where "s = a # r" "n = lead_len (byte a)" "tail_ok (byte a) (take (n - 1) r)"
    by (auto simp: first_len_def Let_def split: list.splits if_splits)
  then show "\<exists>a t r. s = a # t @ r \<and> n = Suc (length t) \<and> tail_ok (byte a) t"
    by (intro exI [of _ a] exI [of _ "take (n - 1) r"] exI [of _ "drop (n - 1) r"])
      (simp add: tail_ok_def)
next
  assume "\<exists>a t r. s = a # t @ r \<and> n = Suc (length t) \<and> tail_ok (byte a) t"
  then obtain a t r where *: "s = a # t @ r" "n = Suc (length t)" "tail_ok (byte a) t" by blast
  then have "lead_len (byte a) = n" by (simp add: tail_ok_def)
  with * show "first_len s = Some n" by (simp add: first_len_def)
qed

lemma first_len_bounds: "first_len s = Some n \<Longrightarrow> 0 < n \<and> n \<le> length s"
  by (auto simp: first_len_Some)

lemma first_len_append: "first_len s = Some n \<Longrightarrow> first_len (s @ t) = Some n"
  unfolding first_len_Some by (metis append.assoc append_Cons)

function chars_of :: "string \<Rightarrow> string list option" where
  "chars_of s = (if s = [] then Some [] else case first_len s of
       None \<Rightarrow> None
     | Some n \<Rightarrow> map_option ((#) (take n s)) (chars_of (drop n s)))"
  by pat_completeness auto
termination
  by (relation "measure length") (auto dest: first_len_bounds)

declare chars_of.simps [simp del]

definition utf8_valid :: "string \<Rightarrow> bool" where
  "utf8_valid s \<longleftrightarrow> chars_of s \<noteq> None"

text \<open>The characters of a \<open>&str\<close>, whose bytes are always valid UTF-8.\<close>

definition str_chars :: "string \<Rightarrow> string list" where
  "str_chars s = (case chars_of s of None \<Rightarrow> [] | Some cs \<Rightarrow> cs)"

section \<open>White space\<close>

text \<open>The characters with the property \<open>White_Space\<close>, in UTF-8.\<close>

definition white_space :: "string list" where
  "white_space = map bytes_string
     ([[0x09], [0x0A], [0x0B], [0x0C], [0x0D], [0x20], [0xC2, 0x85], [0xC2, 0xA0], [0xE1, 0x9A, 0x80]] @
      map (\<lambda>i. [0xE2, 0x80, 0x80 + i]) [0..<11] @
      [[0xE2, 0x80, 0xA8], [0xE2, 0x80, 0xA9], [0xE2, 0x80, 0xAF], [0xE2, 0x81, 0x9F], [0xE3, 0x80, 0x80]])"

definition is_white_space :: "string \<Rightarrow> bool" where
  "is_white_space c \<longleftrightarrow> c \<in> set white_space"

fun words :: "string \<Rightarrow> string list \<Rightarrow> string list" where
  "words cur [] = (if cur = [] then [] else [cur])"
| "words cur (c # cs) = (if is_white_space c
     then (if cur = [] then words [] cs else cur # words [] cs)
     else words (cur @ c) cs)"

definition split_whitespace :: "string \<Rightarrow> string list" where
  "split_whitespace s = words [] (str_chars s)"

definition str_trim :: "string \<Rightarrow> string" where
  "str_trim s = concat (rev (dropWhile is_white_space (rev (dropWhile is_white_space (str_chars s)))))"

text \<open>
  \<open>to_lowercase\<close> maps a string to an ASCII word without the letter \<open>k\<close> only by lowercasing
  its ASCII capitals (the Kelvin sign is the one other character with an ASCII lowercase), so
  bytewise ASCII lowercasing decides every comparison the parser makes.
\<close>

definition lower_char :: "char \<Rightarrow> char" where
  "lower_char c = (if 0x41 \<le> byte c \<and> byte c \<le> 0x5A then char_of (byte c + 0x20) else c)"

definition lowercase :: "string \<Rightarrow> string" where
  "lowercase s = map lower_char s"

section \<open>Valid strings\<close>

lemma chars_of_Nil [simp]: "chars_of [] = Some []"
  by (simp add: chars_of.simps)

lemma chars_of_append:
  "chars_of s = Some cs \<Longrightarrow> chars_of (s @ t) = map_option ((@) cs) (chars_of t)"
proof (induction s arbitrary: cs rule: chars_of.induct)
  case (1 s)
  show ?case
  proof (cases "s = []")
    case True
    with "1.prems" show ?thesis by (cases "chars_of t") simp_all
  next
    case False
    with "1.prems" obtain n ds where n: "first_len s = Some n"
      and ds: "chars_of (drop n s) = Some ds" and cs: "cs = take n s # ds"
      by (subst (asm) chars_of.simps) (auto split: option.splits)
    have IH: "chars_of (drop n s @ t) = map_option ((@) ds) (chars_of t)"
      using "1.IH" [OF False n ds] .
    have le: "n \<le> length s" using first_len_bounds [OF n] by simp
    have "chars_of (s @ t) = map_option ((#) (take n s)) (chars_of (drop n s @ t))"
      using False first_len_append [OF n, of t] le by (subst chars_of.simps) simp
    with IH cs show ?thesis by (simp add: option.map_comp comp_def)
  qed
qed

lemma concat_chars_of: "chars_of s = Some cs \<Longrightarrow> concat cs = s"
proof (induction s arbitrary: cs rule: chars_of.induct)
  case (1 s)
  show ?case
  proof (cases "s = []")
    case True
    with "1.prems" show ?thesis by simp
  next
    case False
    with "1.prems" obtain n ds where n: "first_len s = Some n"
      and ds: "chars_of (drop n s) = Some ds" and cs: "cs = take n s # ds"
      by (subst (asm) chars_of.simps) (auto split: option.splits)
    from "1.IH" [OF False n ds] cs show ?thesis by simp
  qed
qed

text \<open>A character of a valid string, as a string, has itself as its only character.\<close>

lemma first_len_take: "first_len s = Some n \<Longrightarrow> first_len (take n s) = Some n"
  unfolding first_len_Some by (metis append.right_neutral append_eq_conv_conj append_Cons length_Cons)

lemma chars_of_char: "chars_of s = Some cs \<Longrightarrow> c \<in> set cs \<Longrightarrow> chars_of c = Some [c]"
proof (induction s arbitrary: cs rule: chars_of.induct)
  case (1 s)
  show ?case
  proof (cases "s = []")
    case True
    with "1.prems" show ?thesis by simp
  next
    case False
    with "1.prems"(1) obtain n ds where n: "first_len s = Some n"
      and ds: "chars_of (drop n s) = Some ds" and cs: "cs = take n s # ds"
      by (subst (asm) chars_of.simps) (auto split: option.splits)
    note b = first_len_bounds [OF n]
    have "chars_of (take n s) = Some [take n s]"
      using b first_len_take [OF n] False by (subst chars_of.simps) simp
    with "1.IH" [OF False n ds] "1.prems"(2) cs show ?thesis by auto
  qed
qed

lemma chars_of_concat: "\<forall>c \<in> set cs. chars_of c = Some [c] \<Longrightarrow> chars_of (concat cs) = Some cs"
proof (induction cs)
  case Nil
  then show ?case by simp
next
  case (Cons c cs)
  then have "chars_of c = Some [c]" and "chars_of (concat cs) = Some cs" by simp_all
  then show ?case using chars_of_append [of c "[c]" "concat cs"] by simp
qed

lemma str_chars_valid: "utf8_valid s \<Longrightarrow> chars_of s = Some (str_chars s)"
  by (auto simp: utf8_valid_def str_chars_def)

lemma concat_str_chars: "utf8_valid s \<Longrightarrow> concat (str_chars s) = s"
  by (rule concat_chars_of) (rule str_chars_valid)

lemma chars_of_append_valid:
  assumes "utf8_valid s" and "utf8_valid t"
  shows "chars_of (s @ t) = Some (str_chars s @ str_chars t)"
  unfolding chars_of_append [OF str_chars_valid [OF assms(1)]] str_chars_valid [OF assms(2)] by simp

lemma utf8_valid_append: "utf8_valid s \<Longrightarrow> utf8_valid t \<Longrightarrow> utf8_valid (s @ t)"
  using chars_of_append_valid by (simp add: utf8_valid_def)

lemma str_chars_append:
  "utf8_valid s \<Longrightarrow> utf8_valid t \<Longrightarrow> str_chars (s @ t) = str_chars s @ str_chars t"
  using chars_of_append_valid by (simp add: str_chars_def)

section \<open>Words\<close>

lemma words_skip: "list_all is_white_space cs \<Longrightarrow> words [] (cs @ ds) = words [] ds"
  by (induction cs) simp_all

lemma words_trailing: "list_all is_white_space ds \<Longrightarrow> words cur (cs @ ds) = words cur cs"
proof (induction cs arbitrary: cur)
  case Nil
  show ?case
  proof (cases ds)
    case Nil
    then show ?thesis by simp
  next
    case (Cons d es)
    then have "list_all is_white_space es" using Nil.prems by simp
    from words_skip [OF this, of "[]"] Cons Nil.prems show ?thesis by simp
  qed
next
  case (Cons c cs)
  then show ?case by simp
qed

lemma words_take: "list_all (\<lambda>c. \<not> is_white_space c) cs \<Longrightarrow> words cur (cs @ ds) = words (cur @ concat cs) ds"
  by (induction cs arbitrary: cur) simp_all

lemma list_all_takeWhile: "list_all P (takeWhile P xs)"
  by (induction xs) simp_all

lemma str_chars_concat_sub:
  assumes "utf8_valid s" and "set cs \<subseteq> set (str_chars s)"
  shows "str_chars (concat cs) = cs" and "utf8_valid (concat cs)"
proof -
  have "chars_of (concat cs) = Some cs"
    using assms chars_of_char [OF str_chars_valid [OF assms(1)]] by (intro chars_of_concat) blast
  then show "str_chars (concat cs) = cs" and "utf8_valid (concat cs)"
    by (simp_all add: str_chars_def utf8_valid_def)
qed

text \<open>Trimming does not change the words.\<close>

lemma split_whitespace_trim:
  assumes "utf8_valid s"
  shows "split_whitespace (str_trim s) = split_whitespace s" and "utf8_valid (str_trim s)"
proof -
  let ?cs = "str_chars s"
  let ?ds = "dropWhile is_white_space ?cs"
  let ?es = "rev (dropWhile is_white_space (rev ?ds))"
  have sub: "set ?es \<subseteq> set ?cs" by (auto dest!: set_dropWhileD)
  have "?cs = takeWhile is_white_space ?cs @ ?ds" by simp
  then have 1: "words [] ?cs = words [] ?ds"
    using words_skip [OF list_all_takeWhile] by metis
  have "?ds = ?es @ rev (takeWhile is_white_space (rev ?ds))"
    by (metis rev_append rev_rev_ident takeWhile_dropWhile_id)
  moreover have "list_all is_white_space (rev (takeWhile is_white_space (rev ?ds)))"
    using list_all_takeWhile by (simp add: list_all_iff)
  ultimately have 2: "words [] ?ds = words [] ?es" using words_trailing by metis
  have "split_whitespace (str_trim s) = words [] ?es"
    using str_chars_concat_sub [OF assms sub] by (simp add: split_whitespace_def str_trim_def)
  with 1 2 show "split_whitespace (str_trim s) = split_whitespace s"
    by (simp add: split_whitespace_def)
  show "utf8_valid (str_trim s)"
    using str_chars_concat_sub [OF assms sub] by (simp add: str_trim_def)
qed

text \<open>A word: what \<open>split_whitespace\<close> can return as one piece.\<close>

definition word_ok :: "string \<Rightarrow> bool" where
  "word_ok w \<longleftrightarrow> w \<noteq> [] \<and> utf8_valid w \<and> list_all (\<lambda>c. \<not> is_white_space c) (str_chars w)"

lemma str_chars_space: "chars_of '' '' = Some ['' '']" "is_white_space '' ''"
proof -
  have "first_len '' '' = Some 1"
    by (simp add: first_len_def lead_len_def byte_def tail_ok_def)
  then show "chars_of '' '' = Some ['' '']" by (simp add: chars_of.simps)
  have "bytes_string [0x20] = '' ''" by (simp add: bytes_string_def) code_simp
  then show "is_white_space '' ''"
    by (simp add: is_white_space_def white_space_def)
qed

lemma split_whitespace_word: "word_ok w \<Longrightarrow> split_whitespace w = [w]"
  using words_take [of "str_chars w" "[]" "[]"] concat_str_chars [of w]
  by (simp add: word_ok_def split_whitespace_def)

lemma split_whitespace_Cons:
  assumes "word_ok w" and "utf8_valid s"
  shows "split_whitespace (w @ '' '' @ s) = w # split_whitespace s"
proof -
  have v: "utf8_valid w" and n: "list_all (\<lambda>c. \<not> is_white_space c) (str_chars w)" and "w \<noteq> []"
    using assms(1) by (simp_all add: word_ok_def)
  have sp: "utf8_valid '' ''" "str_chars '' '' = ['' '']"
    using str_chars_space(1) by (simp_all add: utf8_valid_def str_chars_def)
  have "str_chars (w @ '' '' @ s) = str_chars w @ '' '' # str_chars s"
    using str_chars_append [OF v utf8_valid_append [OF sp(1) assms(2)]]
      str_chars_append [OF sp(1) assms(2)] sp(2) by simp
  then show ?thesis
    using words_take [OF n, of "[]" "'' '' # str_chars s"] concat_str_chars [OF v] \<open>w \<noteq> []\<close> str_chars_space(2)
    by (simp add: split_whitespace_def)
qed

lemma words_ok:
  assumes "\<forall>c \<in> set cs. chars_of c = Some [c]" and "\<forall>c \<in> set ds. chars_of c = Some [c]"
    and "list_all (\<lambda>c. \<not> is_white_space c) ds" and "w \<in> set (words (concat ds) cs)"
  shows "word_ok w"
  using assms
proof (induction cs arbitrary: ds)
  case Nil
  then show ?case
    using chars_of_concat [OF Nil.prems(2)]
    by (auto simp: word_ok_def utf8_valid_def str_chars_def split: if_splits)
next
  case (Cons c cs)
  show ?case
  proof (cases "is_white_space c")
    case True
    have now: "concat ds \<noteq> [] \<Longrightarrow> word_ok (concat ds)"
      using chars_of_concat [OF Cons.prems(2)] Cons.prems(3)
      by (simp add: word_ok_def utf8_valid_def str_chars_def)
    from True Cons.prems(4) consider "w \<in> set (words (concat []) cs)" | "w = concat ds" "concat ds \<noteq> []"
      by (auto split: if_splits)
    then show ?thesis
    proof cases
      case 1
      then show ?thesis using Cons.IH [of "[]"] Cons.prems(1) by simp
    next
      case 2
      with now show ?thesis by simp
    qed
  next
    case False
    then have "w \<in> set (words (concat (ds @ [c])) cs)" using Cons.prems(4) by simp
    then show ?thesis using Cons.IH [of "ds @ [c]"] Cons.prems(1-3) False by auto
  qed
qed

lemma split_whitespace_ok: "utf8_valid s \<Longrightarrow> w \<in> set (split_whitespace s) \<Longrightarrow> word_ok w"
  using words_ok [of "str_chars s" "[]" w] chars_of_char [OF str_chars_valid]
  by (auto simp: split_whitespace_def)

text \<open>ASCII words.\<close>

lemma first_len_ascii: "byte c < 0x80 \<Longrightarrow> first_len (c # s) = Some 1"
  by (simp add: first_len_def lead_len_def tail_ok_def)

lemma chars_of_ascii: "list_all (\<lambda>c. byte c < 0x80) s \<Longrightarrow> chars_of s = Some (map (\<lambda>c. [c]) s)"
  by (induction s) (simp_all add: chars_of.simps [of "_ # _"] first_len_ascii)

lemma is_white_space_single: "is_white_space [c] \<Longrightarrow> byte c \<in> {0x09, 0x0A, 0x0B, 0x0C, 0x0D, 0x20}"
  by (auto simp: is_white_space_def white_space_def bytes_string_def byte_def)

lemma str_chars_ascii: "list_all (\<lambda>c. byte c < 0x80) s \<Longrightarrow> str_chars s = map (\<lambda>c. [c]) s"
  by (simp add: str_chars_def chars_of_ascii)

lemma utf8_valid_ascii: "list_all (\<lambda>c. byte c < 0x80) s \<Longrightarrow> utf8_valid s"
  by (simp add: utf8_valid_def chars_of_ascii)

lemma white_space_ascii: "is_white_space [c] \<longleftrightarrow> byte c \<in> {0x09, 0x0A, 0x0B, 0x0C, 0x0D, 0x20}"
proof
  assume b: "byte c \<in> {0x09, 0x0A, 0x0B, 0x0C, 0x0D, 0x20}"
  have "[c] = bytes_string [byte c]" by (simp add: bytes_string_def byte_def)
  with b show "is_white_space [c]" by (auto simp: is_white_space_def white_space_def)
qed (rule is_white_space_single)

lemmas ascii_text = str_chars_ascii white_space_ascii byte_def

lemma ascii_word:
  assumes "w \<noteq> []" and "list_all (\<lambda>c. 0x20 < byte c \<and> byte c < 0x80) w"
  shows "word_ok w"
proof -
  have c: "chars_of w = Some (map (\<lambda>c. [c]) w)"
    using assms(2) by (intro chars_of_ascii) (simp add: list_all_iff)
  have "\<not> is_white_space [c]" if "c \<in> set w" for c
    using that assms(2) is_white_space_single [of c] by (auto simp: list_all_iff)
  with c assms(1) show ?thesis
    by (simp add: word_ok_def utf8_valid_def str_chars_def list_all_iff)
qed

text \<open>A newline byte is a newline character: no other character has a byte below 128.\<close>

lemma newline_char:
  "chars_of s = Some cs \<Longrightarrow> CHR 0x0A \<in> set s \<Longrightarrow> [CHR 0x0A] \<in> set cs"
proof (induction s arbitrary: cs rule: chars_of.induct)
  case (1 s)
  then have "s \<noteq> []" by auto
  with "1.prems"(1) obtain n ds where n: "first_len s = Some n"
    and ds: "chars_of (drop n s) = Some ds" and cs: "cs = take n s # ds"
    by (subst (asm) chars_of.simps) (auto split: option.splits)
  obtain a t r where s: "s = a # t @ r" "n = Suc (length t)" "tail_ok (byte a) t"
    using n by (auto simp: first_len_Some)
  show ?case
  proof (cases "CHR 0x0A \<in> set (drop n s)")
    case True
    with "1.IH" [OF \<open>s \<noteq> []\<close> n ds] cs show ?thesis by simp
  next
    case False
    have "CHR 0x0A \<notin> set t"
      using s(3) by (auto simp: tail_ok_def list_all_iff continuation_def byte_def)
    then have "a = CHR 0x0A" using False "1.prems"(2) s by auto
    then have "t = []" using s(3) by (simp add: tail_ok_def lead_len_def byte_def)
    with \<open>a = CHR 0x0A\<close> s cs show ?thesis by simp
  qed
qed

lemma newline_white: "is_white_space [CHR 0x0A]"
proof -
  have "bytes_string [0x0A] = [CHR 0x0A]" by (simp add: bytes_string_def) code_simp
  then show ?thesis by (simp add: is_white_space_def white_space_def)
qed

lemma word_no_newline: "word_ok w \<Longrightarrow> CHR 0x0A \<notin> set w"
  using newline_char [OF str_chars_valid, of w] newline_white
  by (auto simp: word_ok_def list_all_iff)

lemma newline_valid: "utf8_valid [CHR 0x0A]" "str_chars [CHR 0x0A] = [[CHR 0x0A]]"
  using chars_of_ascii [of "[CHR 0x0A]"] by (simp_all add: byte_def utf8_valid_def str_chars_def)

lemma split_whitespace_line:
  "utf8_valid s \<Longrightarrow> split_whitespace (s @ [CHR 0x0A]) = split_whitespace s"
  using words_trailing [of "[[CHR 0x0A]]" "[]" "str_chars s"]
  by (simp add: split_whitespace_def str_chars_append newline_valid newline_white)

end
