(* ===== verification/Tui.thy ===== *)
theory Tui
  imports Prelude
begin

text \<open>
  \<open>src/lib/tui.rs\<close>: the command list that \<open>help\<close> prints, and the lines of the banner the CLI
  prints before its first prompt.
\<close>

definition newline :: string where
  "newline = [CHR 0x0A]"

definition command_hint :: string where
  "command_hint =
     ''set <key> <value>    (alias: s)'' @ newline @
     ''get <key>            (alias: g)'' @ newline @
     ''delete <key>         (alias: d, del)'' @ newline @
     ''quit                 (alias: q, exit)''"

definition HR_CHAR :: string where
  "HR_CHAR = ''-''"

definition HR_WIDTH :: nat where
  "HR_WIDTH = 36"

text \<open>The line \<open>hr\<close> prints, and the lines of \<open>welcome\<close>, each printed by one \<open>println!\<close>.\<close>

definition hr :: string where
  "hr = concat (replicate HR_WIDTH HR_CHAR)"

definition welcome_lines :: "string list" where
  "welcome_lines = [''Welcome to chickadee'', ''Try the following commands'', hr, command_hint, hr]"

end
