(* ===== verification/Command.thy ===== *)
theory Command
  imports Log Utf8 Tui
begin

text \<open>
  \<open>src/lib/log/command.rs\<close>: parsing a line into a command, and running a command against the
  log. The commands of the code are \<open>CSet\<close>, \<open>CGet\<close>, \<open>CDelete\<close>, \<open>CQuit\<close> and \<open>CHelp\<close> here, because
  \<open>Set\<close> and \<open>Delete\<close> are the entries.
\<close>

section \<open>Parsing\<close>

datatype command_error =
    UnrecognizedCommand
  | MissingRequiredArguments
  | TooManyArguments

fun error_text :: "command_error \<Rightarrow> string" where
  "error_text UnrecognizedCommand = ''unrecognized command''"
| "error_text MissingRequiredArguments = ''missing required arguments''"
| "error_text TooManyArguments = ''too many arguments''"

datatype command =
    CSet string string
  | CGet string
  | CDelete string
  | CQuit
  | CHelp

definition command_set :: "string \<Rightarrow> string \<Rightarrow> command" where
  [simp]: "command_set k v = CSet k v"

definition command_get :: "string \<Rightarrow> command" where
  [simp]: "command_get k = CGet k"

definition command_delete :: "string \<Rightarrow> command" where
  [simp]: "command_delete k = CDelete k"

fun command_key :: "command \<Rightarrow> string option" where
  "command_key (CSet k v) = Some k"
| "command_key (CGet k) = Some k"
| "command_key (CDelete k) = Some k"
| "command_key CQuit = None"
| "command_key CHelp = None"

fun command_value :: "command \<Rightarrow> string option" where
  "command_value (CSet k v) = Some v"
| "command_value (CGet k) = None"
| "command_value (CDelete k) = None"
| "command_value CQuit = None"
| "command_value CHelp = None"

definition one_key :: "(string \<Rightarrow> command) \<Rightarrow> string list \<Rightarrow> command_error + command" where
  "one_key mk parts = (case parts of
       [] \<Rightarrow> Inl MissingRequiredArguments
     | key # rest \<Rightarrow> if rest \<noteq> [] then Inl TooManyArguments else Inr (mk key))"

definition try_from :: "string \<Rightarrow> command_error + command" where
  "try_from s = (case split_whitespace s of
       [] \<Rightarrow> Inl MissingRequiredArguments
     | word # parts \<Rightarrow>
         (let command_str = lowercase word in
          if command_str \<in> {''set'', ''s''} then
            (case parts of
               key # v # rest \<Rightarrow> if rest \<noteq> [] then Inl TooManyArguments else Inr (CSet key v)
             | _ \<Rightarrow> Inl MissingRequiredArguments)
          else if command_str \<in> {''get'', ''g''} then one_key CGet parts
          else if command_str \<in> {''delete'', ''del'', ''d''} then one_key CDelete parts
          else if command_str \<in> {''quit'', ''q'', ''exit''} then Inr CQuit
          else if command_str \<in> {''help'', ''h''} then Inr CHelp
          else Inl UnrecognizedCommand))"

section \<open>Running\<close>

text \<open>
  The \<open>writer\<close>: what it has accepted, and how the calls to come turn out, as for the files.
  A failing \<open>writeln!\<close> may have written a part of its text.
\<close>

record writer =
  out :: string
  out_faults :: "nat option list"

definition writeln :: "string \<Rightarrow> (writer, unit) sio" where
  "writeln text s = (let line = text @ newline in
     case out_faults s of
       [] \<Rightarrow> (Inr (), s\<lparr>out := out s @ line\<rparr>)
     | None # fs \<Rightarrow> (Inr (), s\<lparr>out := out s @ line, out_faults := fs\<rparr>)
     | Some n # fs \<Rightarrow> (Inl IoError, s\<lparr>out := out s @ take n line, out_faults := fs\<rparr>))"

definition writer_flush :: "(writer, unit) sio" where
  "writer_flush s = (case out_faults s of
       [] \<Rightarrow> (Inr (), s)
     | None # fs \<Rightarrow> (Inr (), s\<lparr>out_faults := fs\<rparr>)
     | Some n # fs \<Rightarrow> (Inl IoError, s\<lparr>out_faults := fs\<rparr>))"

type_synonym session = "(log \<times> world) \<times> writer"

definition execute :: "crates \<Rightarrow> command \<Rightarrow> (session, unit) sio" where
  "execute X command = (case command of
       CSet k v \<Rightarrow>
         bindS (on_snd (writeln (k @ '' => '' @ v))) (\<lambda>_.
         bindS (on_fst (log_write X (entry_set k v))) (\<lambda>_.
         on_fst (maybe_flush X)))
     | CGet k \<Rightarrow>
         bindS (on_fst (log_get X k)) (\<lambda>r. case r of
           Some (Set _ v) \<Rightarrow> on_snd (writeln (k @ '' => '' @ v))
         | Some (Delete _) \<Rightarrow> on_snd (writeln (k @ '' not found''))
         | None \<Rightarrow> on_snd (writeln (k @ '' not found'')))
     | CDelete k \<Rightarrow>
         bindS (on_fst (log_contains X k)) (\<lambda>found.
         bindS (if found then
             bindS (on_snd (writeln (k @ '' deleted''))) (\<lambda>_.
             on_fst (log_write X (entry_delete k)))
           else on_snd (writeln (k @ '' not found''))) (\<lambda>_.
         on_fst (maybe_flush X)))
     | CQuit \<Rightarrow> throw QuitInExecute
     | CHelp \<Rightarrow> on_snd (writeln command_hint))"

section \<open>What parsing does\<close>

text \<open>The text of a command, in its longest spelling.\<close>

fun command_text :: "command \<Rightarrow> string" where
  "command_text (CSet k v) = ''set'' @ '' '' @ k @ '' '' @ v"
| "command_text (CGet k) = ''get'' @ '' '' @ k"
| "command_text (CDelete k) = ''delete'' @ '' '' @ k"
| "command_text CQuit = ''quit''"
| "command_text CHelp = ''help''"

text \<open>The keys and values of a command are words: not empty, and without white space.\<close>

definition command_ok :: "command \<Rightarrow> bool" where
  "command_ok c \<longleftrightarrow> (\<forall>k. command_key c = Some k \<longrightarrow> word_ok k) \<and> (\<forall>v. command_value c = Some v \<longrightarrow> word_ok v)"

lemma try_from_trim: "utf8_valid s \<Longrightarrow> try_from (str_trim s) = try_from s"
  by (simp add: try_from_def split_whitespace_trim)

lemma one_key_Inr: "one_key mk parts = Inr c \<longleftrightarrow> (\<exists>k. parts = [k] \<and> c = mk k)"
  by (auto simp: one_key_def split: list.splits)

text \<open>A line parses only if it is one of the spellings with exactly the arguments it takes.\<close>

lemma try_from_Inr:
  assumes "try_from s = Inr c"
  shows "(\<exists>w k v. split_whitespace s = [w, k, v] \<and> lowercase w \<in> {''set'', ''s''} \<and> c = CSet k v) \<or>
    (\<exists>w k. split_whitespace s = [w, k] \<and> lowercase w \<in> {''get'', ''g''} \<and> c = CGet k) \<or>
    (\<exists>w k. split_whitespace s = [w, k] \<and> lowercase w \<in> {''delete'', ''del'', ''d''} \<and> c = CDelete k) \<or>
    (\<exists>w ps. split_whitespace s = w # ps \<and> lowercase w \<in> {''quit'', ''q'', ''exit''} \<and> c = CQuit) \<or>
    (\<exists>w ps. split_whitespace s = w # ps \<and> lowercase w \<in> {''help'', ''h''} \<and> c = CHelp)"
  using assms
  by (auto simp: try_from_def Let_def one_key_Inr split: list.splits if_splits)

lemma try_from_command_ok:
  assumes "utf8_valid s" and "try_from s = Inr c"
  shows "command_ok c"
  using try_from_Inr [OF assms(2)] split_whitespace_ok [OF assms(1)]
  by (auto simp: command_ok_def)

lemma ascii_word_ok:
  "word_ok ''set''" "word_ok ''get''" "word_ok ''delete''" "word_ok ''quit''" "word_ok ''help''"
  by (rule ascii_word; simp add: byte_def)+

lemma lowercase_words:
  "lowercase ''set'' = ''set''" "lowercase ''get'' = ''get''" "lowercase ''delete'' = ''delete''"
  "lowercase ''quit'' = ''quit''" "lowercase ''help'' = ''help''"
  by code_simp+

lemma word_valid: "word_ok w \<Longrightarrow> utf8_valid w"
  by (simp add: word_ok_def)

lemma space_valid: "utf8_valid '' ''"
  using str_chars_space(1) by (simp add: utf8_valid_def)

lemma split_command_text:
  assumes "command_ok c"
  shows "split_whitespace (command_text c) = (case c of
       CSet k v \<Rightarrow> [''set'', k, v]
     | CGet k \<Rightarrow> [''get'', k]
     | CDelete k \<Rightarrow> [''delete'', k]
     | CQuit \<Rightarrow> [''quit'']
     | CHelp \<Rightarrow> [''help''])"
proof (cases c)
  case (CSet k v)
  then have "word_ok k" "word_ok v" using assms by (simp_all add: command_ok_def)
  then have "split_whitespace (''set'' @ '' '' @ (k @ '' '' @ v)) = [''set'', k, v]"
    by (simp only: split_whitespace_Cons ascii_word_ok word_valid utf8_valid_append space_valid
        split_whitespace_word)
  with CSet show ?thesis by simp
next
  case (CGet k)
  then have "word_ok k" using assms by (simp add: command_ok_def)
  then have "split_whitespace (''get'' @ '' '' @ k) = [''get'', k]"
    by (simp only: split_whitespace_Cons ascii_word_ok word_valid split_whitespace_word)
  with CGet show ?thesis by simp
next
  case (CDelete k)
  then have "word_ok k" using assms by (simp add: command_ok_def)
  then have "split_whitespace (''delete'' @ '' '' @ k) = [''delete'', k]"
    by (simp only: split_whitespace_Cons ascii_word_ok word_valid split_whitespace_word)
  with CDelete show ?thesis by simp
qed (simp_all only: command_text.simps command.case split_whitespace_word ascii_word_ok)

lemma try_from_command_text: "command_ok c \<Longrightarrow> try_from (command_text c) = Inr c"
  unfolding try_from_def split_command_text
  by (cases c) (simp_all add: lowercase_words one_key_def Let_def)

section \<open>What running does\<close>

text \<open>
  The specification: a command over a map and a writer. The reply is written first; a command
  whose reply could not be written does not change the map.
\<close>

type_synonym kv_map = "string \<Rightarrow> string option"

fun command_entry :: "command \<Rightarrow> entry option" where
  "command_entry (CSet k v) = Some (Set k v)"
| "command_entry (CDelete k) = Some (Delete k)"
| "command_entry _ = None"

fun spec_map :: "command \<Rightarrow> kv_map \<Rightarrow> kv_map" where
  "spec_map (CSet k v) m = m(k \<mapsto> v)"
| "spec_map (CDelete k) m = m(k := None)"
| "spec_map _ m = m"

fun reply_line :: "command \<Rightarrow> kv_map \<Rightarrow> string" where
  "reply_line (CSet k v) m = k @ '' => '' @ v"
| "reply_line (CGet k) m = (case m k of None \<Rightarrow> k @ '' not found'' | Some v \<Rightarrow> k @ '' => '' @ v)"
| "reply_line (CDelete k) m = (case m k of None \<Rightarrow> k @ '' not found'' | Some v \<Rightarrow> k @ '' deleted'')"
| "reply_line CHelp m = command_hint"
| "reply_line CQuit m = []"

definition spec_execute :: "command \<Rightarrow> (kv_map \<times> writer, unit) sio" where
  "spec_execute c s = (if c = CQuit then (Inl QuitInExecute, s)
     else case writeln (reply_line c (fst s)) (snd s) of
       (Inl e, wr) \<Rightarrow> (Inl e, (fst s, wr))
     | (Inr _, wr) \<Rightarrow> (Inr (), (spec_map c (fst s), wr)))"

text \<open>
  \<open>refines X U n x y\<close>: the run \<open>x\<close> of the store and the run \<open>y\<close> of the specification return
  the same, write the same, and end in the same map; and the store can go on.
\<close>

definition refines :: "crates \<Rightarrow> entry set \<Rightarrow> nat \<Rightarrow> (err + 'a) \<times> session \<Rightarrow>
    (err + 'a) \<times> kv_map \<times> writer \<Rightarrow> bool" where
  "refines X U n x y \<longleftrightarrow> (case x of (r, (t, wr)) \<Rightarrow>
     log_inv X U t \<and> log_room X n t \<and> y = (r, (disk_map X (snd t), wr)))"

definition good_command :: "entry set \<Rightarrow> command \<Rightarrow> bool" where
  "good_command U c \<longleftrightarrow> (\<forall>e. command_entry c = Some e \<longrightarrow> e \<in> U)"

lemma execute_reply_only:
  assumes "log_inv X U s" and "log_room X (Suc n) s" and "c \<noteq> CQuit"
    and "execute X c (s, wr) = on_snd (writeln (reply_line c (disk_map X (snd s)))) (s, wr)"
    and "spec_map c (disk_map X (snd s)) = disk_map X (snd s)"
  shows "refines X U n (execute X c (s, wr)) (spec_execute c (disk_map X (snd s), wr))"
proof -
  obtain r wr' where w: "writeln (reply_line c (disk_map X (snd s))) wr = (r, wr')" by fastforce
  with assms(1,3,4,5) store.room_less [OF assms(2)] show ?thesis
    by (cases r) (simp_all add: refines_def spec_execute_def on_snd_def)
qed

text \<open>A command that writes: the reply, the entry, and the flush check.\<close>

lemma execute_writes:
  assumes "log_inv X U s" and "log_room X (Suc n) s" and "c \<noteq> CQuit" and "e \<in> U"
    and "execute X c (s, wr) = bindS (on_snd (writeln (reply_line c (disk_map X (snd s)))))
      (\<lambda>_. bindS (on_fst (log_write X e)) (\<lambda>_. on_fst (maybe_flush X))) (s, wr)"
    and "spec_map c (disk_map X (snd s)) = apply_entry e (disk_map X (snd s))"
  shows "refines X U n (execute X c (s, wr)) (spec_execute c (disk_map X (snd s), wr))"
proof -
  obtain r wr' where w: "writeln (reply_line c (disk_map X (snd s))) wr = (r, wr')" by fastforce
  have "log_good X U s e" using assms(4) by (simp add: log_good_def)
  then obtain t u where t: "log_write X e s = (Inr (), t)" "maybe_flush X t = (Inr (), u)"
      "log_inv X U u" "log_room X n u" "disk_map X (snd u) = apply_entry e (disk_map X (snd s))"
    using store.put_tidy [OF assms(1,2)] by blast
  show ?thesis
  proof (cases r)
    case (Inl x)
    with w assms(1,3,5) store.room_less [OF assms(2)] show ?thesis
      by (simp add: refines_def spec_execute_def bindS_def on_snd_def)
  next
    case (Inr x)
    with w t assms(3,5,6) show ?thesis
      by (simp add: refines_def spec_execute_def bindS_def on_snd_def on_fst_def)
  qed
qed

lemma execute_get:
  assumes "log_inv X U s" and "log_room X (Suc n) s"
  shows "refines X U n (execute X (CGet k) (s, wr)) (spec_execute (CGet k) (disk_map X (snd s), wr))"
proof (rule execute_reply_only [OF assms])
  show "execute X (CGet k) (s, wr) = on_snd (writeln (reply_line (CGet k) (disk_map X (snd s)))) (s, wr)"
    using store.get_law [OF assms(1), of k]
    by (simp add: execute_def bindS_def on_fst_def split: option.split)
qed simp_all

lemma execute_delete:
  assumes "log_inv X U s" and "log_room X (Suc n) s" and "Delete k \<in> U"
  shows "refines X U n (execute X (CDelete k) (s, wr)) (spec_execute (CDelete k) (disk_map X (snd s), wr))"
proof (cases "disk_map X (snd s) k")
  case None
  have con: "log_contains X k s = (Inr False, s)"
    using log_contains_map [of X U "fst s" "snd s" k] assms(1) None by (auto simp: dom_def)
  obtain r wr' where w: "writeln (k @ '' not found'') wr = (r, wr')" by fastforce
  obtain u where u: "maybe_flush X s = (Inr (), u)" "log_inv X U u" "log_room X n u"
      "disk_map X (snd u) = disk_map X (snd s)"
    using store.tidy_only [OF assms(1,2)] by blast
  have same: "(disk_map X (snd s))(k := None) = disk_map X (snd s)" using None by auto
  show ?thesis
    using None con w u same assms(1) store.room_less [OF assms(2)]
    by (cases r) (simp_all add: refines_def execute_def spec_execute_def bindS_def on_fst_def on_snd_def)
next
  case (Some v)
  have con: "log_contains X k s = (Inr True, s)"
    using log_contains_map [of X U "fst s" "snd s" k] assms(1) Some by (auto simp: dom_def)
  show ?thesis
  proof (rule execute_writes [OF assms(1,2) _ assms(3)])
    show "execute X (CDelete k) (s, wr) = bindS (on_snd (writeln (reply_line (CDelete k) (disk_map X (snd s)))))
        (\<lambda>_. bindS (on_fst (log_write X (Delete k))) (\<lambda>_. on_fst (maybe_flush X))) (s, wr)"
      using con Some
      by (simp add: execute_def bindS_def on_fst_def split: sum.split prod.split)
  qed simp_all
qed

lemma execute_refines:
  assumes "log_inv X U s" and "log_room X (Suc n) s" and "good_command U c"
  shows "refines X U n (execute X c (s, wr)) (spec_execute c (disk_map X (snd s), wr))"
proof (cases c)
  case (CSet k v)
  then have "Set k v \<in> U" using assms(3) by (simp add: good_command_def)
  then show ?thesis
    unfolding CSet
    by (intro execute_writes [OF assms(1,2), where e = "Set k v"]) (simp_all add: execute_def)
next
  case (CGet k)
  with execute_get [OF assms(1,2)] show ?thesis by simp
next
  case (CDelete k)
  with execute_delete [OF assms(1,2)] assms(3) show ?thesis by (simp add: good_command_def)
next
  case CQuit
  with assms(1) store.room_less [OF assms(2)] show ?thesis
    by (simp add: refines_def execute_def spec_execute_def)
next
  case CHelp
  show ?thesis
    unfolding CHelp by (intro execute_reply_only [OF assms(1,2)]) (simp_all add: execute_def)
qed

text \<open>With a writer that does not fail, the reply is written and the command is done.\<close>

lemma writeln_ok: "out_faults wr = [] \<Longrightarrow> writeln t wr = (Inr (), wr\<lparr>out := out wr @ t @ newline\<rparr>)"
  by (simp add: writeln_def)

lemma execute_ok:
  assumes "log_inv X U s" and "log_room X (Suc n) s" and "c \<noteq> CQuit" and "good_command U c"
    and "out_faults wr = []"
  shows "\<exists>t. execute X c (s, wr) =
      (Inr (), (t, wr\<lparr>out := out wr @ reply_line c (disk_map X (snd s)) @ newline\<rparr>)) \<and>
    log_inv X U t \<and> log_room X n t \<and> disk_map X (snd t) = spec_map c (disk_map X (snd s))"
  using execute_refines [OF assms(1,2,4), of wr] assms(3)
  by (auto simp: refines_def spec_execute_def writeln_ok [OF assms(5)] split: prod.splits)

text \<open>Deleting a key that is not there writes nothing; what is left is the flush check.\<close>

lemma execute_delete_missing:
  assumes "log_inv X U s" and "disk_map X (snd s) k = None" and "out_faults wr = []"
  shows "execute X (CDelete k) (s, wr) =
    on_fst (maybe_flush X) (s, wr\<lparr>out := out wr @ k @ '' not found'' @ newline\<rparr>)"
proof -
  have "log_contains X k s = (Inr False, s)"
    using log_contains_map [of X U "fst s" "snd s" k] assms(1,2) by (auto simp: dom_def)
  with assms(3) show ?thesis
    by (simp add: execute_def bindS_def on_snd_def on_fst_def writeln_def Let_def split: prod.splits sum.splits)
qed

lemma execute_delete_missing_small:
  assumes "log_inv X U s" and "disk_map X (snd s) k = None" and "\<not> should_flush (log_memtable (fst s))"
    and "out_faults wr = []"
  shows "execute X (CDelete k) (s, wr) = (Inr (), (s, wr\<lparr>out := out wr @ k @ '' not found'' @ newline\<rparr>))"
  using execute_delete_missing [OF assms(1,2,4)] assms(3) by (simp add: maybe_flush_def on_fst_def)

end
