(* ===== verification/Runner.thy ===== *)
theory Runner
  imports Command
begin

text \<open>
  \<open>src/lib/run.rs\<close>: the command loop of one reader and one writer over a shared log.
\<close>

section \<open>The model\<close>

text \<open>
  The reader: the bytes still to come, and whether they end in a read error rather than in
  the end of the input.
\<close>

record reader =
  pending :: string
  broken :: bool

text \<open>The log behind its mutex. A thread that panics while it holds the lock poisons it.\<close>

record shared =
  store :: "log \<times> world"
  poisoned :: bool

text \<open>\<open>BufRead::read_line\<close>: the bytes up to and including the next newline, as UTF-8.\<close>

definition line_end :: "string \<Rightarrow> nat option" where
  "line_end s = (if CHR 0x0A \<in> set s then Some (Suc (length (takeWhile (\<lambda>c. c \<noteq> CHR 0x0A) s))) else None)"

definition read_line :: "(reader, string) sio" where
  "read_line r = (case line_end (pending r) of
       Some n \<Rightarrow>
         (let line = take n (pending r); r' = r\<lparr>pending := drop n (pending r)\<rparr> in
          if utf8_valid line then (Inr line, r') else (Inl InvalidUtf8, r'))
     | None \<Rightarrow>
         (let line = pending r; r' = r\<lparr>pending := []\<rparr> in
          if broken r then (Inl IoError, r')
          else if utf8_valid line then (Inr line, r') else (Inl InvalidUtf8, r')))"

text \<open>\<open>log.lock()?\<close>, and \<open>execute\<close> under the lock.\<close>

definition locked_execute :: "crates \<Rightarrow> command \<Rightarrow> (shared \<times> writer, unit) sio" where
  "locked_execute X c s = (if poisoned (fst s) then (Inl MutexPoisoned, s)
     else case execute X c (store (fst s), snd s) of
       (r, (t, wr)) \<Rightarrow> (r, ((fst s)\<lparr>store := t\<rparr>, wr)))"

text \<open>One turn of the loop; the result says whether the loop goes on.\<close>

type_synonym runner = "reader \<times> shared \<times> writer"

definition turn :: "crates \<Rightarrow> (runner, bool) sio" where
  "turn X = bindS (on_fst read_line) (\<lambda>line.
     if length line = 0 then ret False
     else case try_from (str_trim line) of
       Inr CQuit \<Rightarrow> ret False
     | Inr cmd \<Rightarrow>
         bindS (on_snd (locked_execute X cmd)) (\<lambda>_.
         bindS (on_snd (on_snd writer_flush)) (\<lambda>_. ret True))
     | Inl e \<Rightarrow>
         bindS (on_snd (on_snd (writeln (''Error: '' @ error_text e)))) (\<lambda>_.
         bindS (on_snd (on_snd writer_flush)) (\<lambda>_. ret True)))"

lemma line_end_bounds: "line_end s = Some n \<Longrightarrow> 0 < n \<and> n \<le> length s"
proof -
  assume "line_end s = Some n"
  then have m: "CHR 0x0A \<in> set s" and n: "n = Suc (length (takeWhile (\<lambda>c. c \<noteq> CHR 0x0A) s))"
    by (auto simp: line_end_def split: if_splits)
  have "takeWhile (\<lambda>c. c \<noteq> CHR 0x0A) s \<noteq> s" using m by (metis (full_types) set_takeWhileD)
  then have "length (takeWhile (\<lambda>c. c \<noteq> CHR 0x0A) s) < length s"
    by (metis length_takeWhile_le le_neq_implies_less takeWhile_eq_take take_all_iff order_refl)
  with n show ?thesis by simp
qed

lemma read_line_pending:
  assumes "read_line r = (Inr line, r')" and "line \<noteq> []"
  shows "length (pending r') < length (pending r)"
  using assms line_end_bounds [of "pending r"]
  by (auto simp: read_line_def Let_def split: option.splits if_splits)

text \<open>Everything behind the read leaves the reader alone.\<close>

lemma turn_reader:
  assumes "turn X s = (Inr True, t)"
  shows "\<exists>line. read_line (fst s) = (Inr line, fst t) \<and> line \<noteq> []"
proof -
  obtain line r' where rl: "read_line (fst s) = (Inr line, r')"
    using assms by (cases "read_line (fst s)") (auto simp: turn_def bindS_def on_fst_def split: sum.splits)
  have ne: "line \<noteq> []"
    using assms rl by (auto simp: turn_def bindS_def on_fst_def split: if_splits)
  have "fst t = r'"
    using assms rl ne
    by (auto simp: turn_def bindS_def on_fst_def on_snd_def
        split: sum.splits command.splits prod.splits)
  with rl ne show ?thesis by blast
qed

function run :: "crates \<Rightarrow> (runner, unit) sio" where
  "run X s = (case turn X s of
       (Inl e, t) \<Rightarrow> (Inl e, t)
     | (Inr False, t) \<Rightarrow> (Inr (), t)
     | (Inr True, t) \<Rightarrow> run X t)"
  by pat_completeness auto
termination
proof (relation "measure (\<lambda>(X, s). length (pending (fst s)))", goal_cases)
  case 1
  then show ?case by simp
next
  case (2 X s x t g)
  then have "turn X s = (Inr True, t)" by simp
  from turn_reader [OF this] show ?case using read_line_pending by auto
qed

declare run.simps [simp del]

section \<open>The specification of a session\<close>

text \<open>The lines of the input, each with its newline.\<close>

function lines_of :: "string \<Rightarrow> string list" where
  "lines_of s = (if s = [] then [] else case line_end s of
       None \<Rightarrow> [s]
     | Some n \<Rightarrow> take n s # lines_of (drop n s))"
  by pat_completeness auto
termination
  by (relation "measure length") (auto dest: line_end_bounds)

declare lines_of.simps [simp del]

text \<open>
  A session over a map: how it ends, the map it leaves, and all it writes. The flag says that
  the input breaks off.
\<close>

fun spec_session :: "bool \<Rightarrow> string list \<Rightarrow> kv_map \<Rightarrow>
    (err + unit) \<times> kv_map \<times> string" where
  "spec_session b [] m = (if b then Inl IoError else Inr (), m, [])"
| "spec_session b (l # ls) m =
     (if b \<and> last l \<noteq> CHR 0x0A then (Inl IoError, m, [])
      else if \<not> utf8_valid l then (Inl InvalidUtf8, m, [])
      else case try_from (str_trim l) of
        Inr CQuit \<Rightarrow> (Inr (), m, [])
      | Inr c \<Rightarrow>
          (case spec_session b ls (spec_map c m) of (r, m', text) \<Rightarrow> (r, m', reply_line c m @ newline @ text))
      | Inl e \<Rightarrow>
          (case spec_session b ls m of (r, m', text) \<Rightarrow> (r, m', ''Error: '' @ error_text e @ newline @ text)))"

text \<open>The entries that the lines of an input can write; a line that is not UTF-8 is never run.\<close>

definition entries_in :: "entry set \<Rightarrow> string list \<Rightarrow> bool" where
  "entries_in U ls \<longleftrightarrow> (\<forall>l \<in> set ls. \<forall>c. utf8_valid l \<longrightarrow> try_from (str_trim l) = Inr c \<longrightarrow> good_command U c)"

section \<open>The loop implements it\<close>

lemma utf8_valid_Nil [simp]: "utf8_valid []"
  by (simp add: utf8_valid_def)

lemma read_line_Nil:
  "pending r = [] \<Longrightarrow> read_line r = (if broken r then Inl IoError else Inr [], r)"
  by (cases r) (simp add: read_line_def line_end_def)

lemma last_line:
  assumes "line_end s = Some n"
  shows "last (take n s) = CHR 0x0A"
proof -
  let ?k = "length (takeWhile (\<lambda>c. c \<noteq> CHR 0x0A) s)"
  have n: "n = Suc ?k" using assms by (simp add: line_end_def split: if_splits)
  with line_end_bounds [OF assms] have lt: "?k < length s" by simp
  then have "last (take n s) = s ! ?k" by (simp add: n take_Suc_conv_app_nth)
  with nth_length_takeWhile [OF lt] show ?thesis by simp
qed

lemma line_end_None: "line_end s = None \<Longrightarrow> s \<noteq> [] \<Longrightarrow> last s \<noteq> CHR 0x0A"
  by (metis last_in_set line_end_def option.distinct(1))

lemma read_line_Cons:
  assumes "pending r \<noteq> []"
  obtains l p where "lines_of (pending r) = l # lines_of p" and "l \<noteq> []"
    and "read_line r = (if broken r \<and> last l \<noteq> CHR 0x0A then Inl IoError
      else if \<not> utf8_valid l then Inl InvalidUtf8 else Inr l, r\<lparr>pending := p\<rparr>)"
proof (cases "line_end (pending r)")
  case None
  have "lines_of (pending r) = pending r # lines_of []"
    using assms None by (simp add: lines_of.simps)
  with None assms line_end_None [OF None] show ?thesis
    by (intro that [of "pending r" "[]"]) (simp_all add: read_line_def Let_def)
next
  case (Some n)
  have "take n (pending r) \<noteq> []" using line_end_bounds [OF Some] assms by simp
  moreover have "lines_of (pending r) = take n (pending r) # lines_of (drop n (pending r))"
    using assms Some by (simp add: lines_of.simps [of "pending r"])
  ultimately show ?thesis
    using Some last_line [OF Some]
    by (intro that [of "take n (pending r)" "drop n (pending r)"]) (simp_all add: read_line_def Let_def)
qed

lemma locked_execute_ok:
  assumes "log_inv X U s" and "log_room X (Suc n) s" and "c \<noteq> CQuit"
    and "good_command U c" and "out_faults wr = []"
  shows "\<exists>t. locked_execute X c (\<lparr>store = s, poisoned = False\<rparr>, wr) =
      (Inr (), (\<lparr>store = t, poisoned = False\<rparr>, wr\<lparr>out := out wr @ reply_line c (disk_map X (snd s)) @ newline\<rparr>)) \<and>
    log_inv X U t \<and> log_room X n t \<and> disk_map X (snd t) = spec_map c (disk_map X (snd s))"
  using execute_ok [OF assms] by (auto simp: locked_execute_def)

lemma writer_flush_ok: "out_faults wr = [] \<Longrightarrow> writer_flush wr = (Inr (), wr)"
  by (simp add: writer_flush_def)

text \<open>A line that is a command to run, and one that does not parse.\<close>

lemma turn_command:
  assumes "read_line r = (Inr l, r')" and "l \<noteq> []" and "try_from (str_trim l) = Inr c" and "c \<noteq> CQuit"
    and "locked_execute X c (sh, wr) = (Inr (), (sh', wr'))" and "out_faults wr' = []"
  shows "turn X (r, sh, wr) = (Inr True, (r', sh', wr'))"
  using assms
  by (cases c) (simp_all add: turn_def bindS_def on_fst_def on_snd_def writer_flush_ok)

lemma turn_error:
  assumes "read_line r = (Inr l, r')" and "l \<noteq> []" and "try_from (str_trim l) = Inl e" and "out_faults wr = []"
  shows "turn X (r, sh, wr) =
    (Inr True, (r', sh, wr\<lparr>out := out wr @ ''Error: '' @ error_text e @ newline\<rparr>))"
  using assms
  by (simp add: turn_def bindS_def on_fst_def on_snd_def writer_flush_ok writeln_ok)

lemma turn_quit:
  assumes "read_line r = (Inr l, r')" and "l \<noteq> []" and "try_from (str_trim l) = Inr CQuit"
  shows "turn X (r, sh, wr) = (Inr False, (r', sh, wr))"
  using assms by (simp add: turn_def bindS_def on_fst_def)

text \<open>
  \<open>ran X U n wr x sp\<close>: the run \<open>x\<close> of the loop, started with the writer \<open>wr\<close>, ended as the
  specification \<open>sp\<close> says, in a store that is ready for \<open>n\<close> more commands.
\<close>

definition ran :: "crates \<Rightarrow> entry set \<Rightarrow> nat \<Rightarrow> writer \<Rightarrow> (err + unit) \<times> runner \<Rightarrow>
    (err + unit) \<times> kv_map \<times> string \<Rightarrow> bool" where
  "ran X U n wr x sp \<longleftrightarrow> (case sp of (res, m, text) \<Rightarrow>
     \<exists>r t. x = (res, (r, \<lparr>store = t, poisoned = False\<rparr>, wr\<lparr>out := out wr @ text\<rparr>)) \<and>
       log_inv X U t \<and> log_room X n t \<and> disk_map X (snd t) = m)"

lemma ran_stop:
  assumes "log_inv X U s" and "log_room X (k + n) s"
  shows "ran X U n wr (res, (r, \<lparr>store = s, poisoned = False\<rparr>, wr)) (res, disk_map X (snd s), [])"
proof -
  have "log_room X n s"
    using assms(2) by (induction k) (auto dest: store.room_less)
  with assms(1) show ?thesis by (simp add: ran_def)
qed

lemma ran_more:
  "ran X U n (wr\<lparr>out := out wr @ t\<rparr>) x sp \<Longrightarrow> sp = (res, m, text) \<Longrightarrow> ran X U n wr x (res, m, t @ text)"
  by (simp add: ran_def)

lemma run_again:
  "turn X (r, sh, wr) = (Inr True, t) \<Longrightarrow> run X (r, sh, wr) = run X t"
  by (simp add: run.simps [of X "(r, sh, wr)"])

lemma ran_error:
  assumes "read_line r = (Inr l, r')" and "l \<noteq> []" and "utf8_valid l" and "\<not> (b \<and> last l \<noteq> CHR 0x0A)"
    and "try_from (str_trim l) = Inl e" and "out_faults wr = []"
    and "ran X U n (wr\<lparr>out := out wr @ ''Error: '' @ error_text e @ newline\<rparr>)
      (run X (r', sh, wr\<lparr>out := out wr @ ''Error: '' @ error_text e @ newline\<rparr>)) (spec_session b ls m)"
  shows "ran X U n wr (run X (r, sh, wr)) (spec_session b (l # ls) m)"
proof -
  obtain res m' reply where sp: "spec_session b ls m = (res, m', reply)" by (metis surj_pair)
  from ran_more [OF assms(7) sp] assms(3-5) sp show ?thesis
    unfolding run_again [OF turn_error [OF assms(1,2,5,6)]] by auto
qed

lemma ran_command:
  assumes "read_line r = (Inr l, r')" and "l \<noteq> []" and "utf8_valid l" and "\<not> (b \<and> last l \<noteq> CHR 0x0A)"
    and "try_from (str_trim l) = Inr c" and "c \<noteq> CQuit" and "out_faults wr = []"
    and "locked_execute X c (sh, wr) = (Inr (), (sh', wr\<lparr>out := out wr @ reply_line c m @ newline\<rparr>))"
    and "ran X U n (wr\<lparr>out := out wr @ reply_line c m @ newline\<rparr>)
      (run X (r', sh', wr\<lparr>out := out wr @ reply_line c m @ newline\<rparr>)) (spec_session b ls (spec_map c m))"
  shows "ran X U n wr (run X (r, sh, wr)) (spec_session b (l # ls) m)"
proof -
  obtain res m' reply where sp: "spec_session b ls (spec_map c m) = (res, m', reply)" by (metis surj_pair)
  have "out_faults (wr\<lparr>out := out wr @ reply_line c m @ newline\<rparr>) = []" using assms(7) by simp
  note run_again [OF turn_command [OF assms(1,2,5,6,8) this]]
  moreover have "spec_session b (l # ls) m = (res, m', reply_line c m @ newline @ reply)"
    using assms(3-6) sp by (cases c) auto
  ultimately show ?thesis using ran_more [OF assms(9) sp] by simp
qed

lemma run_ok:
  assumes "log_inv X U s" and "log_room X (length (lines_of (pending r)) + n) s" and "out_faults wr = []"
    and "entries_in U (lines_of (pending r))"
  shows "ran X U n wr (run X (r, \<lparr>store = s, poisoned = False\<rparr>, wr))
    (spec_session (broken r) (lines_of (pending r)) (disk_map X (snd s)))"
  using assms
proof (induction "length (pending r)" arbitrary: r s wr rule: less_induct)
  case less
  note stop = ran_stop [OF less.prems(1,2)]
  show ?case
  proof (cases "pending r = []")
    case True
    then have "lines_of (pending r) = []" by (simp add: lines_of.simps)
    with read_line_Nil [OF True] stop show ?thesis
      by (simp add: run.simps turn_def bindS_def on_fst_def)
  next
    case False
    obtain l p where l: "lines_of (pending r) = l # lines_of p" "l \<noteq> []"
      and rl: "read_line r = (if broken r \<and> last l \<noteq> CHR 0x0A then Inl IoError
        else if \<not> utf8_valid l then Inl InvalidUtf8 else Inr l, r\<lparr>pending := p\<rparr>)"
      using read_line_Cons [OF False] by blast
    let ?r = "r\<lparr>pending := p\<rparr>"
    show ?thesis
    proof (cases "(broken r \<and> last l \<noteq> CHR 0x0A) \<or> \<not> utf8_valid l")
      case True
      with rl l stop show ?thesis by (auto simp: run.simps turn_def bindS_def on_fst_def)
    next
      case good: False
      then have v: "utf8_valid l" "\<not> (broken r \<and> last l \<noteq> CHR 0x0A)" by auto
      have rd: "read_line r = (Inr l, ?r)" using rl good by auto
      note IH = less.hyps [OF read_line_pending [OF rd l(2)]]
      have in_U: "entries_in U (lines_of (pending ?r))"
        using less.prems(4) l(1) by (simp add: entries_in_def)
      have room: "log_room X (Suc (length (lines_of (pending ?r)) + n)) s"
        using less.prems(2) l(1) by simp
      show ?thesis
      proof (cases "try_from (str_trim l)")
        case (Inl e)
        show ?thesis
          using ran_error [OF rd l(2) v Inl less.prems(3) IH [OF less.prems(1) store.room_less [OF room] _ in_U, simplified]]
            less.prems(3) l(1) by simp
      next
        case (Inr c)
        have cU: "good_command U c" using less.prems(4) l(1) v(1) Inr by (auto simp: entries_in_def)
        show ?thesis
        proof (cases "c = CQuit")
          case True
          with turn_quit [OF rd l(2)] Inr l(1) v stop show ?thesis by (auto simp: run.simps)
        next
          case False
          obtain t where t: "locked_execute X c (\<lparr>store = s, poisoned = False\<rparr>, wr) =
              (Inr (), (\<lparr>store = t, poisoned = False\<rparr>, wr\<lparr>out := out wr @ reply_line c (disk_map X (snd s)) @ newline\<rparr>))"
              "log_inv X U t" "log_room X (length (lines_of (pending ?r)) + n) t"
              "disk_map X (snd t) = spec_map c (disk_map X (snd s))"
            using locked_execute_ok [OF less.prems(1) room False cU less.prems(3)] by blast
          from ran_command [OF rd l(2) v Inr False less.prems(3) t(1)] IH [OF t(2,3) _ in_U, simplified] t(4)
          show ?thesis using less.prems(3) l(1) by simp
        qed
      qed
    qed
  qed
qed

lemma run_result:
  assumes "log_inv X U s" and "log_room X (length (lines_of (pending r)) + n) s" and "out_faults wr = []"
    and "entries_in U (lines_of (pending r))"
    and "spec_session (broken r) (lines_of (pending r)) (disk_map X (snd s)) = (res, m, text)"
  obtains r' t where "run X (r, \<lparr>store = s, poisoned = False\<rparr>, wr) =
      (res, (r', \<lparr>store = t, poisoned = False\<rparr>, wr\<lparr>out := out wr @ text\<rparr>))"
    and "log_inv X U t" and "log_room X n t" and "disk_map X (snd t) = m"
  using run_ok [OF assms(1-4)] assms(5) by (auto simp: ran_def)

section \<open>Clients\<close>

text \<open>A client that sends commands, a line each, and what it reads back.\<close>

definition command_line :: "command \<Rightarrow> string" where
  "command_line c = command_text c @ newline"

fun replies :: "command list \<Rightarrow> kv_map \<Rightarrow> string" where
  "replies [] m = []"
| "replies (c # cs) m = reply_line c m @ newline @ replies cs (spec_map c m)"

lemma command_text_valid: "command_ok c \<Longrightarrow> utf8_valid (command_text c)"
  by (cases c)
    (simp_all only: command_text.simps command_ok_def command_key.simps command_value.simps
      option.inject simp_thms utf8_valid_append word_valid ascii_word_ok space_valid)

lemma command_text_no_newline:
  assumes "command_ok c"
  shows "CHR 0x0A \<notin> set (command_text c)"
  using assms word_no_newline by (cases c) (auto simp: command_ok_def)

lemma command_line_valid: "command_ok c \<Longrightarrow> utf8_valid (command_line c)"
  unfolding command_line_def newline_def by (intro utf8_valid_append command_text_valid newline_valid)

lemma try_from_command_line: "command_ok c \<Longrightarrow> try_from (str_trim (command_line c)) = Inr c"
  using try_from_command_text [of c] split_whitespace_line [OF command_text_valid, of c]
  by (simp add: try_from_trim command_line_valid) (simp add: try_from_def command_line_def newline_def)

lemma line_end_line:
  assumes "CHR 0x0A \<notin> set s"
  shows "line_end (s @ CHR 0x0A # t) = Some (Suc (length s))"
proof -
  have "takeWhile (\<lambda>c. c \<noteq> CHR 0x0A) (s @ CHR 0x0A # t) = s"
    using assms by (subst takeWhile_append2) auto
  then show ?thesis by (simp add: line_end_def)
qed

lemma lines_of_lines:
  "\<forall>l \<in> set ls. CHR 0x0A \<notin> set l \<Longrightarrow> lines_of (concat (map (\<lambda>l. l @ newline) ls)) = map (\<lambda>l. l @ newline) ls"
proof (induction ls)
  case Nil
  then show ?case by (simp add: lines_of.simps)
next
  case (Cons l ls)
  have "line_end (concat (map (\<lambda>l. l @ newline) (l # ls))) = Some (length (l @ newline))"
    using line_end_line [of l "concat (map (\<lambda>l. l @ newline) ls)"] Cons.prems by (simp add: newline_def)
  then show ?case using Cons by (simp add: lines_of.simps [of "l @ _"] newline_def)
qed

lemma lines_of_commands:
  "\<forall>c \<in> set cs. command_ok c \<Longrightarrow> lines_of (concat (map command_line cs)) = map command_line cs"
  using lines_of_lines [of "map command_text cs"] command_text_no_newline
  by (simp add: command_line_def [abs_def] comp_def)

lemma spec_session_commands:
  "\<forall>c \<in> set cs. command_ok c \<and> c \<noteq> CQuit \<Longrightarrow>
   spec_session False (map command_line cs) m = (Inr (), fold spec_map cs m, replies cs m)"
proof (induction cs arbitrary: m)
  case Nil
  then show ?case by simp
next
  case (Cons c cs)
  then have "command_ok c" "c \<noteq> CQuit" by simp_all
  with Cons show ?case
    by (cases c) (simp_all add: command_line_valid try_from_command_line)
qed

lemma entries_in_commands:
  "\<forall>c \<in> set cs. command_ok c \<and> good_command U c \<Longrightarrow> entries_in U (map command_line cs)"
  by (auto simp: entries_in_def try_from_command_line)

end
