(* ===== verification/Server.thy ===== *)
theory Server
  imports Runner
begin

text \<open>
  The server with atomic turns: one shared log, and connections each of which runs the loop of
  \<open>src/lib/run.rs\<close> one whole turn at a time. \<open>Threads\<close> has the threads of
  \<open>src/bin/server.rs\<close> as they really interleave, call by call, and shows that their runs are runs of this server;
  here these are shown to be runs of one shared map.
\<close>

section \<open>The model\<close>

datatype status =
    Running
  | Closed
  | Failed err

record conn =
  conn_reader :: reader
  conn_writer :: writer
  conn_status :: status

record server =
  log_lock :: shared
  conns :: "conn list"

datatype event =
    Accept reader writer
  | Serve nat

definition status_after :: "err + bool \<Rightarrow> status" where
  "status_after r = (case r of Inl e \<Rightarrow> Failed e | Inr b \<Rightarrow> (if b then Running else Closed))"

inductive server_step :: "crates \<Rightarrow> server \<Rightarrow> event \<Rightarrow> server \<Rightarrow> bool" for X where
  accept: "server_step X s (Accept r wr)
     (s\<lparr>conns := conns s @ [\<lparr>conn_reader = r, conn_writer = wr, conn_status = Running\<rparr>]\<rparr>)"
| serve: "i < length (conns s) \<Longrightarrow> conn_status (conns s ! i) = Running \<Longrightarrow>
     turn X (conn_reader (conns s ! i), log_lock s, conn_writer (conns s ! i)) = (res, (r, sh, wr)) \<Longrightarrow>
     server_step X s (Serve i) (s\<lparr>log_lock := sh,
       conns := (conns s)[i := \<lparr>conn_reader = r, conn_writer = wr, conn_status = status_after res\<rparr>]\<rparr>)"

inductive server_run :: "crates \<Rightarrow> server \<Rightarrow> event list \<Rightarrow> server \<Rightarrow> bool" for X where
  run_start: "server_run X s [] s"
| run_step: "server_run X s es t \<Longrightarrow> server_step X t e u \<Longrightarrow> server_run X s (es @ [e]) u"

inductive_cases accept_cases: "server_step X s (Accept r wr) t"
inductive_cases serve_cases: "server_step X s (Serve i) t"

section \<open>The specification\<close>

text \<open>The same server over a map, without a lock, files or a log.\<close>

definition spec_turn :: "(reader \<times> kv_map \<times> writer, bool) sio" where
  "spec_turn = bindS (on_fst read_line) (\<lambda>line.
     if length line = 0 then ret False
     else case try_from (str_trim line) of
       Inr CQuit \<Rightarrow> ret False
     | Inr cmd \<Rightarrow>
         bindS (on_snd (spec_execute cmd)) (\<lambda>_.
         bindS (on_snd (on_snd writer_flush)) (\<lambda>_. ret True))
     | Inl e \<Rightarrow>
         bindS (on_snd (on_snd (writeln (''Error: '' @ error_text e)))) (\<lambda>_.
         bindS (on_snd (on_snd writer_flush)) (\<lambda>_. ret True)))"

record spec_server =
  the_map :: kv_map
  spec_conns :: "conn list"

inductive spec_step :: "spec_server \<Rightarrow> event \<Rightarrow> spec_server \<Rightarrow> bool" where
  spec_accept: "spec_step s (Accept r wr)
     (s\<lparr>spec_conns := spec_conns s @ [\<lparr>conn_reader = r, conn_writer = wr, conn_status = Running\<rparr>]\<rparr>)"
| spec_serve: "i < length (spec_conns s) \<Longrightarrow> conn_status (spec_conns s ! i) = Running \<Longrightarrow>
     spec_turn (conn_reader (spec_conns s ! i), the_map s, conn_writer (spec_conns s ! i)) = (res, (r, m, wr)) \<Longrightarrow>
     spec_step s (Serve i) (s\<lparr>the_map := m,
       spec_conns := (spec_conns s)[i := \<lparr>conn_reader = r, conn_writer = wr, conn_status = status_after res\<rparr>]\<rparr>)"

inductive spec_run :: "spec_server \<Rightarrow> event list \<Rightarrow> spec_server \<Rightarrow> bool" where
  spec_done: "spec_run s [] s"
| spec_more: "spec_run s es t \<Longrightarrow> spec_step t e u \<Longrightarrow> spec_run s (es @ [e]) u"

section \<open>A turn refines its specification\<close>

lemma locked_execute_refines:
  assumes "log_inv X U s" and "log_room X (Suc n) s" and "good_command U c"
  shows "\<exists>r t wr'. locked_execute X c (\<lparr>store = s, poisoned = False\<rparr>, wr) = (r, (\<lparr>store = t, poisoned = False\<rparr>, wr')) \<and>
    spec_execute c (disk_map X (snd s), wr) = (r, (disk_map X (snd t), wr')) \<and>
    log_inv X U t \<and> log_room X n t"
proof -
  obtain r t wr' where e: "execute X c (s, wr) = (r, (t, wr'))" by (metis surj_pair)
  then have "log_inv X U t \<and> log_room X n t \<and> spec_execute c (disk_map X (snd s), wr) = (r, (disk_map X (snd t), wr'))"
    using execute_refines [OF assms, of wr] by (simp add: refines_def)
  with e show ?thesis
    by (intro exI [of _ r] exI [of _ t] exI [of _ wr']) (simp add: locked_execute_def)
qed

text \<open>The entries the rest of an input can write.\<close>

definition input_ok :: "entry set \<Rightarrow> reader \<Rightarrow> bool" where
  "input_ok U r \<longleftrightarrow> entries_in U (lines_of (pending r))"

lemma input_ok_read_line:
  assumes "input_ok U r"
  shows "input_ok U (snd (read_line r))"
    and "read_line r = (Inr l, r') \<Longrightarrow> l \<noteq> [] \<Longrightarrow> try_from (str_trim l) = Inr c \<Longrightarrow> good_command U c"
proof -
  have "input_ok U (snd (read_line r)) \<and> (\<forall>l r' c. read_line r = (Inr l, r') \<longrightarrow> l \<noteq> [] \<longrightarrow>
      try_from (str_trim l) = Inr c \<longrightarrow> good_command U c)"
  proof (cases "pending r = []")
    case True
    with assms show ?thesis by (simp add: read_line_Nil)
  next
    case False
    obtain l p where "lines_of (pending r) = l # lines_of p"
      and "read_line r = (if broken r \<and> last l \<noteq> CHR 0x0A then Inl IoError
        else if \<not> utf8_valid l then Inl InvalidUtf8 else Inr l, r\<lparr>pending := p\<rparr>)"
      using read_line_Cons [OF False] by blast
    with assms show ?thesis by (auto simp: input_ok_def entries_in_def split: if_splits)
  qed
  then show "input_ok U (snd (read_line r))"
    and "read_line r = (Inr l, r') \<Longrightarrow> l \<noteq> [] \<Longrightarrow> try_from (str_trim l) = Inr c \<Longrightarrow> good_command U c"
    by blast+
qed

lemma turn_refines:
  assumes "log_inv X U s" and "log_room X (Suc n) s"
    and "input_ok U r"
  shows "\<exists>res r' t wr'. turn X (r, \<lparr>store = s, poisoned = False\<rparr>, wr) =
      (res, (r', \<lparr>store = t, poisoned = False\<rparr>, wr')) \<and>
    spec_turn (r, disk_map X (snd s), wr) = (res, (r', disk_map X (snd t), wr')) \<and>
    log_inv X U t \<and> log_room X n t \<and> r' = snd (read_line r)"
proof -
  obtain x r' where rl: "read_line r = (x, r')" by fastforce
  note idle = assms(1) store.room_less [OF assms(2)]
  show ?thesis
  proof (cases "\<exists>l c. x = Inr l \<and> l \<noteq> [] \<and> try_from (str_trim l) = Inr c \<and> c \<noteq> CQuit")
    case True
    then obtain l c where l: "x = Inr l" "l \<noteq> []" "try_from (str_trim l) = Inr c" "c \<noteq> CQuit" by blast
    have "good_command U c" using input_ok_read_line(2) [OF assms(3)] rl l(1-3) by blast
    from locked_execute_refines [OF assms(1,2) this, of wr] obtain q t wr' where
      q: "locked_execute X c (\<lparr>store = s, poisoned = False\<rparr>, wr) = (q, (\<lparr>store = t, poisoned = False\<rparr>, wr'))"
        "spec_execute c (disk_map X (snd s), wr) = (q, (disk_map X (snd t), wr'))"
        "log_inv X U t" "log_room X n t" by blast
    have *: "turn X (r, \<lparr>store = s, poisoned = False\<rparr>, wr) =
        bindS (on_snd (locked_execute X c)) (\<lambda>_. bindS (on_snd (on_snd writer_flush)) (\<lambda>_. ret True))
          (r', \<lparr>store = s, poisoned = False\<rparr>, wr)"
      and **: "spec_turn (r, disk_map X (snd s), wr) =
        bindS (on_snd (spec_execute c)) (\<lambda>_. bindS (on_snd (on_snd writer_flush)) (\<lambda>_. ret True))
          (r', disk_map X (snd s), wr)"
      using rl l by (cases c; simp add: turn_def spec_turn_def bindS_def on_fst_def)+
    obtain f wr2 where "writer_flush wr' = (f, wr2)" by fastforce
    with q rl show ?thesis
      unfolding * ** by (cases q; cases f) (auto simp: bindS_def on_snd_def)
  next
    case False
    then consider (error) e where "x = Inl e" | (eof) "x = Inr []"
      | (quit) l where "x = Inr l" "l \<noteq> []" "try_from (str_trim l) = Inr CQuit"
      | (bad) l y where "x = Inr l" "l \<noteq> []" "try_from (str_trim l) = Inl y"
      by (metis sumE)
    then show ?thesis
    proof cases
      case (bad l y)
      obtain f w1 where w1: "writeln (''Error: '' @ error_text y) wr = (f, w1)" by fastforce
      obtain g w2 where "writer_flush w1 = (g, w2)" by fastforce
      with bad w1 rl idle show ?thesis
        by (cases f; cases g) (auto simp: turn_def spec_turn_def bindS_def on_fst_def on_snd_def)
    qed (use rl idle in \<open>auto simp: turn_def spec_turn_def bindS_def on_fst_def\<close>)
  qed
qed

section \<open>The server refines its specification\<close>

definition abs_server :: "crates \<Rightarrow> server \<Rightarrow> spec_server" where
  "abs_server X s = \<lparr>the_map = disk_map X (snd (store (log_lock s))), spec_conns = conns s\<rparr>"

definition event_ok :: "entry set \<Rightarrow> event \<Rightarrow> bool" where
  "event_ok U e \<longleftrightarrow> (case e of Accept r wr \<Rightarrow> input_ok U r | Serve i \<Rightarrow> True)"

definition server_inv :: "crates \<Rightarrow> entry set \<Rightarrow> nat \<Rightarrow> server \<Rightarrow> bool" where
  "server_inv X U n s \<longleftrightarrow> \<not> poisoned (log_lock s) \<and> log_inv X U (store (log_lock s)) \<and>
     log_room X n (store (log_lock s)) \<and> (\<forall>c \<in> set (conns s). input_ok U (conn_reader c))"

lemma server_step_refines:
  assumes "server_step X s e t" and "server_inv X U (Suc n) s" and "event_ok U e"
  shows "spec_step (abs_server X s) e (abs_server X t) \<and> server_inv X U n t"
proof (cases e)
  case (Accept r wr)
  from assms(1) [unfolded Accept] have t: "t = s\<lparr>conns := conns s @ [\<lparr>conn_reader = r, conn_writer = wr, conn_status = Running\<rparr>]\<rparr>"
    by (rule accept_cases)
  have "spec_step (abs_server X s) (Accept r wr) (abs_server X s\<lparr>spec_conns := spec_conns (abs_server X s) @
      [\<lparr>conn_reader = r, conn_writer = wr, conn_status = Running\<rparr>]\<rparr>)"
    by (rule spec_accept)
  with Accept t assms(2,3) store.room_less show ?thesis
    by (auto simp: abs_server_def server_inv_def event_ok_def)
next
  case (Serve i)
  from assms(1) [unfolded Serve] obtain res r sh wr where
    t: "t = s\<lparr>log_lock := sh,
       conns := (conns s)[i := \<lparr>conn_reader = r, conn_writer = wr, conn_status = status_after res\<rparr>]\<rparr>"
    and at: "i < length (conns s)" "conn_status (conns s ! i) = Running"
      "turn X (conn_reader (conns s ! i), log_lock s, conn_writer (conns s ! i)) = (res, (r, sh, wr))"
    by (rule serve_cases)
  let ?c = "conns s ! i" and ?s = "store (log_lock s)"
  have lock: "log_lock s = \<lparr>store = ?s, poisoned = False\<rparr>"
    using assms(2) by (cases "log_lock s") (simp add: server_inv_def)
  have inv: "log_inv X U ?s" "log_room X (Suc n) ?s" and c: "input_ok U (conn_reader ?c)"
    using assms(2) at(1) by (auto simp: server_inv_def)
  obtain res' r' u wr' where tr:
      "turn X (conn_reader ?c, \<lparr>store = ?s, poisoned = False\<rparr>, conn_writer ?c) =
        (res', (r', \<lparr>store = u, poisoned = False\<rparr>, wr'))"
      "spec_turn (conn_reader ?c, disk_map X (snd ?s), conn_writer ?c) = (res', (r', disk_map X (snd u), wr'))"
      "log_inv X U u" "log_room X n u" "r' = snd (read_line (conn_reader ?c))"
    using turn_refines [OF inv c, where wr = "conn_writer ?c"] by blast
  have eq: "res = res'" "r = r'" "sh = \<lparr>store = u, poisoned = False\<rparr>" "wr = wr'"
    using at(3) tr(1) lock by simp_all
  let ?new = "\<lparr>conn_reader = r', conn_writer = wr', conn_status = status_after res'\<rparr>"
  have "input_ok U r'" using input_ok_read_line(1) [OF c] tr(5) by simp
  then have "\<forall>d \<in> set ((conns s)[i := ?new]). input_ok U (conn_reader d)"
    using assms(2) by (auto simp: server_inv_def dest!: subsetD [OF set_update_subset_insert])
  then have "server_inv X U n t"
    using t tr(3,4) eq by (simp add: server_inv_def)
  moreover have "spec_step (abs_server X s) (Serve i) (abs_server X s\<lparr>the_map := disk_map X (snd u),
      spec_conns := (spec_conns (abs_server X s))[i := ?new]\<rparr>)"
    using at(1,2) tr(2) by (intro spec_serve) (simp_all add: abs_server_def)
  ultimately show ?thesis
    using Serve t eq by (simp add: abs_server_def)
qed

text \<open>
  Every run of the server is a run of the specification: the connections see one map, and
  every command takes effect at one point of the run, in the order of the turns.
\<close>

lemma server_run_refines:
  assumes "server_run X s es t" and "server_inv X U (length es + n) s" and "\<forall>e \<in> set es. event_ok U e"
  shows "spec_run (abs_server X s) es (abs_server X t) \<and> server_inv X U n t"
  using assms
proof (induction arbitrary: n rule: server_run.induct)
  case (run_start s)
  then show ?case by (simp add: spec_done)
next
  case (run_step s es t e u)
  have "spec_run (abs_server X s) es (abs_server X t) \<and> server_inv X U (Suc n) t"
    using run_step.IH [of "Suc n"] run_step.prems by simp
  moreover from this have "spec_step (abs_server X t) e (abs_server X u) \<and> server_inv X U n u"
    using server_step_refines [OF run_step.hyps(2), of U n] run_step.prems(2) by simp
  ultimately show ?case by (blast intro: spec_more)
qed

lemma server_inv_less: "server_inv X U n s \<Longrightarrow> server_inv X U 0 s"
proof (induction n)
  case (Suc n)
  then have "server_inv X U n s" using store.room_less by (auto simp: server_inv_def)
  with Suc.IH show ?case .
qed

end
