(* ===== verification/Threads.thy ===== *)
theory Threads
  imports Server "HOL-Library.Sublist"
begin

text \<open>
  The threads of \<open>src/bin/server.rs\<close> as they interleave: every thread runs the loop of
  \<open>src/lib/run.rs\<close> and can be stopped between any two of its calls. The only state the threads
  share is the log behind its mutex, so the calls of a turn are: reading a line, taking the
  lock, executing the command, giving the lock back, flushing the writer. The runs of this
  machine are runs of the atomic turns of \<open>Server\<close>.
\<close>

section \<open>The model\<close>

text \<open>Where a thread stands in its loop.\<close>

datatype pc =
    Reading
  | Locking command string
  | Executing command string
  | Executed "err + unit"
  | Complaining command_error
  | Flushing
  | Stopped "err + unit"

record thread =
  thread_reader :: reader
  thread_writer :: writer
  thread_pc :: pc

record machine =
  mutex :: shared
  holder :: "nat option"
  threads :: "thread list"

text \<open>What a thread does with the line it has read.\<close>

definition after_line :: "string \<Rightarrow> pc" where
  "after_line line = (if length line = 0 then Stopped (Inr ())
     else case try_from (str_trim line) of
       Inr CQuit \<Rightarrow> Stopped (Inr ())
     | Inr cmd \<Rightarrow> Locking cmd line
     | Inl e \<Rightarrow> Complaining e)"

text \<open>
  A call a thread makes without the lock. A step is the return of the call: while a call has not
  returned, because a client is idle or does not read, the thread has no step in the run.
\<close>

definition loop_step :: "thread \<Rightarrow> thread option" where
  "loop_step t = (case thread_pc t of
       Reading \<Rightarrow> Some (case read_line (thread_reader t) of
           (Inl e, r) \<Rightarrow> t\<lparr>thread_reader := r, thread_pc := Stopped (Inl e)\<rparr>
         | (Inr line, r) \<Rightarrow> t\<lparr>thread_reader := r, thread_pc := after_line line\<rparr>)
     | Complaining e \<Rightarrow> Some (case writeln (''Error: '' @ error_text e) (thread_writer t) of
           (Inl x, wr) \<Rightarrow> t\<lparr>thread_writer := wr, thread_pc := Stopped (Inl x)\<rparr>
         | (Inr _, wr) \<Rightarrow> t\<lparr>thread_writer := wr, thread_pc := Flushing\<rparr>)
     | Flushing \<Rightarrow> Some (case writer_flush (thread_writer t) of
           (Inl x, wr) \<Rightarrow> t\<lparr>thread_writer := wr, thread_pc := Stopped (Inl x)\<rparr>
         | (Inr _, wr) \<Rightarrow> t\<lparr>thread_writer := wr, thread_pc := Reading\<rparr>)
     | _ \<Rightarrow> None)"

definition new_thread :: "reader \<Rightarrow> writer \<Rightarrow> thread" where
  "new_thread r wr = \<lparr>thread_reader = r, thread_writer = wr, thread_pc = Reading\<rparr>"

text \<open>
  One step: a connection is accepted, or a thread makes its next call. A thread that wants the
  lock waits while another one holds it; the lock goes back when the command has been executed,
  before the loop looks at its result. The reply is written as a part of the command, so under
  the lock.
\<close>

inductive machine_step :: "crates \<Rightarrow> machine \<Rightarrow> event \<Rightarrow> machine \<Rightarrow> bool" for X where
  connect: "machine_step X m (Accept r wr) (m\<lparr>threads := threads m @ [new_thread r wr]\<rparr>)"
| local: "i < length (threads m) \<Longrightarrow> loop_step (threads m ! i) = Some t \<Longrightarrow>
     machine_step X m (Serve i) (m\<lparr>threads := (threads m)[i := t]\<rparr>)"
| lock: "i < length (threads m) \<Longrightarrow> thread_pc (threads m ! i) = Locking c line \<Longrightarrow> holder m = None \<Longrightarrow>
     \<not> poisoned (mutex m) \<Longrightarrow>
     machine_step X m (Serve i) (m\<lparr>holder := Some i,
       threads := (threads m)[i := (threads m ! i)\<lparr>thread_pc := Executing c line\<rparr>]\<rparr>)"
| lock_poisoned: "i < length (threads m) \<Longrightarrow> thread_pc (threads m ! i) = Locking c line \<Longrightarrow> holder m = None \<Longrightarrow>
     poisoned (mutex m) \<Longrightarrow>
     machine_step X m (Serve i)
       (m\<lparr>threads := (threads m)[i := (threads m ! i)\<lparr>thread_pc := Stopped (Inl MutexPoisoned)\<rparr>]\<rparr>)"
| execute: "i < length (threads m) \<Longrightarrow> thread_pc (threads m ! i) = Executing c line \<Longrightarrow>
     execute X c (store (mutex m), thread_writer (threads m ! i)) = (res, (s, wr)) \<Longrightarrow>
     machine_step X m (Serve i) (m\<lparr>mutex := (mutex m)\<lparr>store := s\<rparr>,
       threads := (threads m)[i := (threads m ! i)\<lparr>thread_writer := wr, thread_pc := Executed res\<rparr>]\<rparr>)"
| unlock: "i < length (threads m) \<Longrightarrow> thread_pc (threads m ! i) = Executed res \<Longrightarrow>
     machine_step X m (Serve i) (m\<lparr>holder := None,
       threads := (threads m)[i := (threads m ! i)\<lparr>thread_pc :=
         (case res of Inl e \<Rightarrow> Stopped (Inl e) | Inr _ \<Rightarrow> Flushing)\<rparr>]\<rparr>)"

inductive machine_run :: "crates \<Rightarrow> machine \<Rightarrow> event list \<Rightarrow> machine \<Rightarrow> bool" for X where
  machine_start: "machine_run X m [] m"
| machine_more: "machine_run X m es n \<Longrightarrow> machine_step X n e q \<Longrightarrow> machine_run X m (es @ [e]) q"

definition server_start :: "crates \<Rightarrow> (world, machine) sio" where
  "server_start X = bindS (log_new X False) (\<lambda>l w.
     (Inr \<lparr>mutex = \<lparr>store = (l, w), poisoned = False\<rparr>, holder = None, threads = []\<rparr>, w))"

section \<open>The lock\<close>

fun holds_lock :: "pc \<Rightarrow> bool" where
  "holds_lock (Executing c line) = True"
| "holds_lock (Executed r) = True"
| "holds_lock p = False"

definition lock_ok :: "machine \<Rightarrow> bool" where
  "lock_ok m \<longleftrightarrow> (\<forall>i < length (threads m). holds_lock (thread_pc (threads m ! i)) \<longleftrightarrow> holder m = Some i) \<and>
     (\<forall>i. holder m = Some i \<longrightarrow> i < length (threads m))"

text \<open>The ways a thread goes on after a line.\<close>

lemma after_line_cases:
  obtains (end_of_input) "line = []" and "after_line line = Stopped (Inr ())"
  | (bad) e where "line \<noteq> []" and "try_from (str_trim line) = Inl e" and "after_line line = Complaining e"
  | (quit) "line \<noteq> []" and "try_from (str_trim line) = Inr CQuit" and "after_line line = Stopped (Inr ())"
  | (run) c where "line \<noteq> []" and "try_from (str_trim line) = Inr c" and "c \<noteq> CQuit"
      and "after_line line = Locking c line"
proof (cases "line = []")
  case True
  with end_of_input show thesis by (simp add: after_line_def)
next
  case ne: False
  show thesis
  proof (cases "try_from (str_trim line)")
    case (Inl e)
    with ne bad show thesis by (simp add: after_line_def)
  next
    case (Inr c)
    with ne quit run show thesis by (cases c) (simp_all add: after_line_def)
  qed
qed

lemma after_line_unlocked: "\<not> holds_lock (after_line line)"
  by (cases line rule: after_line_cases) simp_all

lemma loop_step_unlocked:
  "loop_step t = Some t' \<Longrightarrow> \<not> holds_lock (thread_pc t) \<and> \<not> holds_lock (thread_pc t')"
  by (auto simp: loop_step_def after_line_unlocked split: pc.splits sum.splits prod.splits)

lemma lock_ok_step:
  assumes "machine_step X m e n" and "lock_ok m"
  shows "lock_ok n"
  using assms
proof (cases rule: machine_step.cases)
  case (connect r wr)
  with assms(2) show ?thesis
    by (auto simp: lock_ok_def nth_append new_thread_def less_Suc_eq)
next
  case (local i t)
  with assms(2) loop_step_unlocked [OF local(4)] show ?thesis
    by (auto simp: lock_ok_def nth_list_update)
next
  case (lock i c line)
  with assms(2) show ?thesis by (auto simp: lock_ok_def nth_list_update)
next
  case (lock_poisoned i c line)
  with assms(2) show ?thesis by (auto simp: lock_ok_def nth_list_update)
next
  case (execute i c line res s wr)
  with assms(2) show ?thesis by (auto simp: lock_ok_def nth_list_update)
next
  case (unlock i res)
  then have "holds_lock (thread_pc (threads m ! i))" by simp
  then have "holder m = Some i" using unlock(3) assms(2) by (simp add: lock_ok_def)
  with unlock assms(2) show ?thesis by (auto simp: lock_ok_def nth_list_update split: sum.splits)
qed

lemma lock_ok_run: "machine_run X m es n \<Longrightarrow> lock_ok m \<Longrightarrow> lock_ok n"
  by (induction rule: machine_run.induct) (auto dest: lock_ok_step)

section \<open>Turns\<close>

text \<open>
  A thread as a connection of \<open>Server\<close>, whose turns are atomic: before its command is executed
  it still stands at the line it has read, and from then on at the end of the turn.
\<close>

definition unread :: "string \<Rightarrow> reader \<Rightarrow> reader" where
  "unread line r = r\<lparr>pending := line @ pending r\<rparr>"

definition flushed_conn :: "reader \<Rightarrow> writer \<Rightarrow> conn" where
  "flushed_conn r wr = (case writer_flush wr of (res, wr') \<Rightarrow>
     \<lparr>conn_reader = r, conn_writer = wr', conn_status = status_after (map_sum id (\<lambda>_. True) res)\<rparr>)"

definition complained_conn :: "reader \<Rightarrow> writer \<Rightarrow> command_error \<Rightarrow> conn" where
  "complained_conn r wr e = (case writeln (''Error: '' @ error_text e) wr of
       (Inl x, wr') \<Rightarrow> \<lparr>conn_reader = r, conn_writer = wr', conn_status = Failed x\<rparr>
     | (Inr _, wr') \<Rightarrow> flushed_conn r wr')"

definition conn_of :: "thread \<Rightarrow> conn" where
  "conn_of t = (let r = thread_reader t; wr = thread_writer t in
     case thread_pc t of
       Reading \<Rightarrow> \<lparr>conn_reader = r, conn_writer = wr, conn_status = Running\<rparr>
     | Locking c line \<Rightarrow> \<lparr>conn_reader = unread line r, conn_writer = wr, conn_status = Running\<rparr>
     | Executing c line \<Rightarrow> \<lparr>conn_reader = unread line r, conn_writer = wr, conn_status = Running\<rparr>
     | Executed (Inl e) \<Rightarrow> \<lparr>conn_reader = r, conn_writer = wr, conn_status = Failed e\<rparr>
     | Executed (Inr _) \<Rightarrow> flushed_conn r wr
     | Complaining e \<Rightarrow> complained_conn r wr e
     | Flushing \<Rightarrow> flushed_conn r wr
     | Stopped res \<Rightarrow> \<lparr>conn_reader = r, conn_writer = wr, conn_status = status_after (map_sum id (\<lambda>_. False) res)\<rparr>)"

definition abs_machine :: "machine \<Rightarrow> server" where
  "abs_machine m = \<lparr>log_lock = mutex m, conns = map conn_of (threads m)\<rparr>"

text \<open>The line a thread has in hand is the one its reader gave it.\<close>

definition line_ok :: "thread \<Rightarrow> bool" where
  "line_ok t \<longleftrightarrow> (\<forall>c line. thread_pc t \<in> {Locking c line, Executing c line} \<longrightarrow>
     read_line (unread line (thread_reader t)) = (Inr line, thread_reader t) \<and> line \<noteq> [] \<and>
     try_from (str_trim line) = Inr c \<and> c \<noteq> CQuit)"

definition lines_ok :: "machine \<Rightarrow> bool" where
  "lines_ok m \<longleftrightarrow> \<not> poisoned (mutex m) \<and> (\<forall>t \<in> set (threads m). line_ok t)"

lemma unread_line: "read_line r = (Inr line, r') \<Longrightarrow> unread line r' = r"
  by (cases r) (auto simp: read_line_def unread_def Let_def split: option.splits if_splits)

lemma line_ok_loop_step:
  assumes "loop_step t = Some t'"
  shows "line_ok t'"
proof (cases "\<exists>line r. thread_pc t = Reading \<and> read_line (thread_reader t) = (Inr line, r)")
  case True
  then obtain line r where l: "thread_pc t = Reading" "read_line (thread_reader t) = (Inr line, r)" by blast
  with assms have t': "t' = t\<lparr>thread_reader := r, thread_pc := after_line line\<rparr>" by (simp add: loop_step_def)
  show ?thesis
    using unread_line [OF l(2)] l(2)
    by (cases line rule: after_line_cases) (simp_all add: t' line_ok_def)
next
  case False
  with assms show ?thesis
    by (auto simp: loop_step_def line_ok_def split: pc.splits sum.splits prod.splits)
qed

lemma lines_ok_step:
  assumes "machine_step X m e n" and "lines_ok m"
  shows "lines_ok n"
  using assms
proof (cases rule: machine_step.cases)
  case (connect r wr)
  with assms(2) show ?thesis by (auto simp: lines_ok_def line_ok_def new_thread_def)
next
  case (local i t)
  with assms(2) line_ok_loop_step [OF local(4)] show ?thesis
    by (auto simp: lines_ok_def dest!: subsetD [OF set_update_subset_insert])
next
  case (lock i c line)
  then have "line_ok (threads m ! i)" using assms(2) by (simp add: lines_ok_def)
  with lock assms(2) show ?thesis
    by (auto simp: lines_ok_def line_ok_def dest!: subsetD [OF set_update_subset_insert])
next
  case (lock_poisoned i c line)
  with assms(2) show ?thesis by (simp add: lines_ok_def)
next
  case (execute i c line res s wr)
  with assms(2) show ?thesis
    by (auto simp: lines_ok_def line_ok_def dest!: subsetD [OF set_update_subset_insert])
next
  case (unlock i res)
  with assms(2) show ?thesis
    by (auto simp: lines_ok_def line_ok_def split: sum.splits dest!: subsetD [OF set_update_subset_insert])
qed

lemma server_start_lock_ok: "server_start X w = (Inr m, v) \<Longrightarrow> lock_ok m"
  by (auto simp: server_start_def bindS_def lock_ok_def split: prod.splits sum.splits)

section \<open>Runs of the threads are runs of atomic turns\<close>

lemma serve_abs:
  assumes "i < length (threads m)"
    and "conn_of (threads m ! i) = \<lparr>conn_reader = r, conn_writer = wr, conn_status = Running\<rparr>"
    and "turn X (r, mutex m, wr) = (res, (r', sh, wr'))"
    and "conn_of t = \<lparr>conn_reader = r', conn_writer = wr', conn_status = status_after res\<rparr>"
    and "mutex n = sh" and "threads n = (threads m)[i := t]"
  shows "server_step X (abs_machine m) (Serve i) (abs_machine n)"
  using server_step.serve [of i "abs_machine m" X res r' sh wr'] assms
  by (simp add: abs_machine_def map_update)

lemma stutter_abs:
  assumes "i < length (threads m)" and "conn_of t = conn_of (threads m ! i)"
  shows "abs_machine (m\<lparr>holder := h, threads := (threads m)[i := t]\<rparr>) = abs_machine m"
    and "abs_machine (m\<lparr>threads := (threads m)[i := t]\<rparr>) = abs_machine m"
  using assms by (simp_all add: abs_machine_def map_update) (metis list_update_id length_map nth_map)+

text \<open>The end of a turn, from the place where the command has been executed.\<close>

lemma turn_at_command:
  assumes "read_line r = (Inr line, r')" and "line \<noteq> []" and "try_from (str_trim line) = Inr c" and "c \<noteq> CQuit"
    and "\<not> poisoned sh" and "execute X c (store sh, wr) = (res, (s, wr'))"
  shows "\<exists>x w. turn X (r, sh, wr) = (x, (r', sh\<lparr>store := s\<rparr>, w)) \<and>
    conn_of \<lparr>thread_reader = r', thread_writer = wr', thread_pc = Executed res\<rparr> =
      \<lparr>conn_reader = r', conn_writer = w, conn_status = status_after x\<rparr>"
proof -
  have *: "turn X (r, sh, wr) =
      bindS (on_snd (locked_execute X c)) (\<lambda>_. bindS (on_snd (on_snd writer_flush)) (\<lambda>_. ret True)) (r', sh, wr)"
    using assms(1-4) by (cases c) (simp_all add: turn_def bindS_def on_fst_def)
  have l: "locked_execute X c (sh, wr) = (res, (sh\<lparr>store := s\<rparr>, wr'))"
    using assms(5,6) by (simp add: locked_execute_def)
  obtain f w where "writer_flush wr' = (f, w)" by fastforce
  with l show ?thesis
    unfolding * by (cases res; cases f)
      (auto simp: bindS_def on_snd_def conn_of_def flushed_conn_def status_after_def)
qed

lemma turn_at_error:
  assumes "read_line r = (Inr line, r')" and "line \<noteq> []" and "try_from (str_trim line) = Inl e"
  shows "\<exists>x w. turn X (r, sh, wr) = (x, (r', sh, w)) \<and>
    complained_conn r' wr e = \<lparr>conn_reader = r', conn_writer = w, conn_status = status_after x\<rparr>"
proof -
  obtain f w1 where w1: "writeln (''Error: '' @ error_text e) wr = (f, w1)" by fastforce
  obtain g w2 where "writer_flush w1 = (g, w2)" by fastforce
  with w1 assms show ?thesis
    by (cases f; cases g)
      (auto simp: turn_def bindS_def on_fst_def on_snd_def complained_conn_def flushed_conn_def status_after_def)
qed

lemma read_last_abs:
  assumes "i < length (threads m)" and "thread_pc (threads m ! i) = Reading"
    and "\<And>wr. turn X (thread_reader (threads m ! i), mutex m, wr) = (res, (r, mutex m, wr))"
    and "p = Stopped (map_sum id (\<lambda>_. ()) res)" and "res \<noteq> Inr True"
    and "n = m\<lparr>threads := (threads m)[i := (threads m ! i)\<lparr>thread_reader := r, thread_pc := p\<rparr>]\<rparr>"
  shows "server_step X (abs_machine m) (Serve i) (abs_machine n)"
  using assms
  by (intro serve_abs [OF _ _ assms(3), where t = "(threads m ! i)\<lparr>thread_reader := r, thread_pc := p\<rparr>"])
    (auto simp: conn_of_def status_after_def split: sum.splits)

lemma read_abs:
  assumes "i < length (threads m)" and "thread_pc (threads m ! i) = Reading"
    and "read_line (thread_reader (threads m ! i)) = (Inr line, r)"
    and "n = m\<lparr>threads := (threads m)[i := (threads m ! i)\<lparr>thread_reader := r, thread_pc := after_line line\<rparr>]\<rparr>"
  shows "abs_machine n = abs_machine m \<or> server_step X (abs_machine m) (Serve i) (abs_machine n)"
proof (cases line rule: after_line_cases)
  case (bad e)
  let ?t = "threads m ! i"
  obtain x w where "turn X (thread_reader ?t, mutex m, thread_writer ?t) = (x, (r, mutex m, w))"
    and "complained_conn r (thread_writer ?t) e = \<lparr>conn_reader = r, conn_writer = w, conn_status = status_after x\<rparr>"
    using turn_at_error [OF assms(3) bad(1,2)] by blast
  with assms bad(3) show ?thesis
    by (intro disjI2 serve_abs [where t = "?t\<lparr>thread_reader := r, thread_pc := Complaining e\<rparr>"])
      (simp_all add: conn_of_def)
next
  case (run c)
  have "conn_of ((threads m ! i)\<lparr>thread_reader := r, thread_pc := Locking c line\<rparr>) = conn_of (threads m ! i)"
    using unread_line [OF assms(3)] assms(2) by (simp add: conn_of_def)
  from stutter_abs(2) [OF assms(1) this] run(4) assms(4) show ?thesis by simp
next
  case end_of_input
  then have "turn X (thread_reader (threads m ! i), mutex m, wr) = (Inr False, (r, mutex m, wr))" for wr
    using assms(3) by (simp add: turn_def bindS_def on_fst_def)
  from read_last_abs [OF assms(1,2) this _ _ assms(4)] end_of_input(2) show ?thesis by simp
next
  case quit
  then have "turn X (thread_reader (threads m ! i), mutex m, wr) = (Inr False, (r, mutex m, wr))" for wr
    using assms(3) by (simp add: turn_def bindS_def on_fst_def)
  from read_last_abs [OF assms(1,2) this _ _ assms(4)] quit(3) show ?thesis by simp
qed

lemma local_abs:
  assumes "i < length (threads m)" and "loop_step (threads m ! i) = Some t"
  shows "abs_machine (m\<lparr>threads := (threads m)[i := t]\<rparr>) = abs_machine m \<or>
    server_step X (abs_machine m) (Serve i) (abs_machine (m\<lparr>threads := (threads m)[i := t]\<rparr>))"
proof (cases "thread_pc (threads m ! i) = Reading")
  case True
  obtain x r where rl: "read_line (thread_reader (threads m ! i)) = (x, r)" by fastforce
  show ?thesis
  proof (cases x)
    case (Inl e)
    with assms True rl show ?thesis
      by (intro disjI2 serve_abs [where t = t])
        (auto simp: loop_step_def turn_def bindS_def on_fst_def conn_of_def status_after_def)
  next
    case (Inr line)
    with read_abs [OF assms(1) True, of line r] assms(2) True rl show ?thesis
      by (simp add: loop_step_def)
  qed
next
  case False
  have "conn_of t = conn_of (threads m ! i)"
    using assms(2) False
    by (auto simp: loop_step_def conn_of_def flushed_conn_def complained_conn_def status_after_def
        split: pc.splits sum.splits prod.splits)
  from stutter_abs(2) [OF assms(1) this] show ?thesis by simp
qed

lemma machine_step_abs:
  assumes "machine_step X m e n" and "lines_ok m"
  shows "abs_machine n = abs_machine m \<or> server_step X (abs_machine m) e (abs_machine n)"
  using assms
proof (cases rule: machine_step.cases)
  case (connect r wr)
  have "server_step X (abs_machine m) (Accept r wr) (abs_machine m\<lparr>conns := conns (abs_machine m) @
      [\<lparr>conn_reader = r, conn_writer = wr, conn_status = Running\<rparr>]\<rparr>)" by (rule server_step.accept)
  with connect show ?thesis by (simp add: abs_machine_def new_thread_def conn_of_def)
next
  case (local i t)
  with local_abs show ?thesis by blast
next
  case (lock i c line)
  have "conn_of ((threads m ! i)\<lparr>thread_pc := Executing c line\<rparr>) = conn_of (threads m ! i)"
    using lock(4) by (simp add: conn_of_def)
  with stutter_abs(1) [OF lock(3) this] lock show ?thesis by simp
next
  case (lock_poisoned i c line)
  with assms(2) show ?thesis by (simp add: lines_ok_def)
next
  case (execute i c line res s wr)
  let ?t = "threads m ! i"
  have "line_ok ?t" and p: "\<not> poisoned (mutex m)" using assms(2) execute(3) by (simp_all add: lines_ok_def)
  with execute(4) have l: "read_line (unread line (thread_reader ?t)) = (Inr line, thread_reader ?t)"
      "line \<noteq> []" "try_from (str_trim line) = Inr c" "c \<noteq> CQuit" by (auto simp: line_ok_def)
  obtain x w where
      "turn X (unread line (thread_reader ?t), mutex m, thread_writer ?t) =
        (x, (thread_reader ?t, (mutex m)\<lparr>store := s\<rparr>, w))"
      "conn_of (?t\<lparr>thread_writer := wr, thread_pc := Executed res\<rparr>) =
        \<lparr>conn_reader = thread_reader ?t, conn_writer = w, conn_status = status_after x\<rparr>"
    using turn_at_command [OF l p execute(5)] by (auto simp: conn_of_def)
  with execute show ?thesis
    by (intro disjI2) (auto intro!: serve_abs [where t = "?t\<lparr>thread_writer := wr, thread_pc := Executed res\<rparr>"]
        simp: conn_of_def [of ?t])
next
  case (unlock i res)
  have "conn_of ((threads m ! i)\<lparr>thread_pc := (case res of Inl e \<Rightarrow> Stopped (Inl e) | Inr _ \<Rightarrow> Flushing)\<rparr>) =
      conn_of (threads m ! i)"
    using unlock(4) by (auto simp: conn_of_def status_after_def split: sum.splits)
  with stutter_abs(1) [OF unlock(3) this] unlock show ?thesis by simp
qed

text \<open>
  Every run of the threads is a run of atomic turns, each of which is one of the steps of the
  thread it belongs to.
\<close>

lemma machine_run_turns:
  assumes "machine_run X m es n" and "lines_ok m"
  shows "lines_ok n \<and> (\<exists>ts. subseq ts es \<and> server_run X (abs_machine m) ts (abs_machine n))"
  using assms
proof (induction rule: machine_run.induct)
  case (machine_start m)
  then show ?case using server_run.run_start by fastforce
next
  case (machine_more m es n e q)
  then obtain ts where ts: "lines_ok n" "subseq ts es" "server_run X (abs_machine m) ts (abs_machine n)" by blast
  from machine_step_abs [OF machine_more.hyps(2) ts(1)] show ?case
  proof
    assume "abs_machine q = abs_machine n"
    with ts lines_ok_step [OF machine_more.hyps(2)] show ?thesis
      by (metis subseq_order.trans list_emb_append2 list_emb_Nil append_Nil2 subseq_rev_drop_many)
  next
    assume "server_step X (abs_machine n) e (abs_machine q)"
    from server_run.run_step [OF ts(3) this] ts lines_ok_step [OF machine_more.hyps(2)] show ?thesis
      by (intro conjI exI [of _ "ts @ [e]"]) (simp_all add: list_emb_append_mono)
  qed
qed

text \<open>
  Together with the refinement of atomic turns: the threads refine the specification of the
  server.
\<close>

lemma machine_run_refines:
  assumes "machine_run X m es n" and "lines_ok m" and "server_inv X U (length es) (abs_machine m)"
    and "\<forall>e \<in> set es. event_ok U e"
  shows "(\<exists>ts. subseq ts es \<and> spec_run (abs_server X (abs_machine m)) ts (abs_server X (abs_machine n))) \<and>
    server_inv X U 0 (abs_machine n)"
proof -
  obtain ts where ts: "subseq ts es" "server_run X (abs_machine m) ts (abs_machine n)"
    using machine_run_turns [OF assms(1,2)] by blast
  have "\<forall>e \<in> set ts. event_ok U e" using assms(4) list_emb_set [OF ts(1)] by blast
  moreover have "length es = length ts + (length es - length ts)" using list_emb_length [OF ts(1)] by simp
  ultimately have "spec_run (abs_server X (abs_machine m)) ts (abs_server X (abs_machine n)) \<and>
      server_inv X U (length es - length ts) (abs_machine n)"
    using server_run_refines [OF ts(2)] assms(3) by metis
  with ts(1) server_inv_less show ?thesis by blast
qed

section \<open>Progress\<close>

text \<open>The calls a thread can still make: six for every byte of its input are more than enough.\<close>

fun pc_work :: "pc \<Rightarrow> nat" where
  "pc_work Reading = 1"
| "pc_work (Locking c line) = 5"
| "pc_work (Executing c line) = 4"
| "pc_work (Executed r) = 3"
| "pc_work (Complaining e) = 3"
| "pc_work Flushing = 2"
| "pc_work (Stopped r) = 0"

definition thread_work :: "thread \<Rightarrow> nat" where
  "thread_work t = 6 * length (pending (thread_reader t)) + pc_work (thread_pc t)"

definition work :: "machine \<Rightarrow> nat" where
  "work m = sum_list (map thread_work (threads m))"

lemma read_line_shrinks: "length (pending (snd (read_line r))) \<le> length (pending r)"
  by (auto simp: read_line_def Let_def split: option.splits)

lemma loop_step_work:
  assumes "loop_step t = Some t'"
  shows "thread_work t' < thread_work t"
proof (cases "thread_pc t = Reading")
  case True
  obtain x r where rl: "read_line (thread_reader t) = (x, r)" by fastforce
  have le: "length (pending r) \<le> length (pending (thread_reader t))"
    using read_line_shrinks [of "thread_reader t"] rl by simp
  show ?thesis
  proof (cases x)
    case (Inl e)
    with assms True rl le show ?thesis by (auto simp: loop_step_def thread_work_def)
  next
    case (Inr line)
    have t': "t' = t\<lparr>thread_reader := r, thread_pc := after_line line\<rparr>"
      using assms True rl Inr by (simp add: loop_step_def)
    have "length (pending r) < length (pending (thread_reader t))" if "line \<noteq> []"
      using read_line_pending rl Inr that by simp
    with True le show ?thesis
      by (cases line rule: after_line_cases) (auto simp: t' thread_work_def)
  qed
next
  case False
  with assms show ?thesis
    by (auto simp: loop_step_def thread_work_def split: pc.splits sum.splits prod.splits)
qed

lemma work_update:
  assumes "i < length (threads m)" and "thread_work t < thread_work (threads m ! i)"
    and "threads n = (threads m)[i := t]"
  shows "work n < work m"
proof -
  have "thread_work (threads m ! i) \<le> work m"
    using assms(1) by (simp add: work_def member_le_sum_list)
  moreover have "work n = work m + thread_work t - thread_work (threads m ! i)"
    using assms(1,3) by (simp add: work_def map_update sum_list_update)
  ultimately show ?thesis using assms(2) by simp
qed

lemma serve_work:
  assumes "machine_step X m (Serve i) n"
  shows "work n < work m"
  using assms
proof (cases rule: machine_step.cases)
  case (local t)
  from work_update [OF local(2) loop_step_work [OF local(3)]] local(1) show ?thesis by simp
qed (auto intro!: work_update simp: thread_work_def split: sum.splits)

text \<open>A thread that has stopped makes no further call; any other machine can go on.\<close>

definition stopped :: "thread \<Rightarrow> bool" where
  "stopped t \<longleftrightarrow> (\<exists>r. thread_pc t = Stopped r)"

lemma step_stopped:
  assumes "machine_step X m e n" and "i < length (threads m)" and "stopped (threads m ! i)"
  shows "i < length (threads n) \<and> threads n ! i = threads m ! i"
  using assms
  by (cases rule: machine_step.cases)
    (auto simp: nth_append nth_list_update stopped_def loop_step_def)

lemma run_stopped:
  assumes "machine_run X m es n" and "i < length (threads m)" and "stopped (threads m ! i)"
  shows "i < length (threads n) \<and> threads n ! i = threads m ! i"
  using assms
proof (induction rule: machine_run.induct)
  case (machine_more m es n e q)
  with step_stopped [OF machine_more.hyps(2), of i] show ?case by simp
qed simp

lemma holder_can_step:
  assumes "lock_ok m" and "holder m = Some i"
  shows "\<exists>n. machine_step X m (Serve i) n"
proof -
  have i: "i < length (threads m)" and "holds_lock (thread_pc (threads m ! i))"
    using assms by (auto simp: lock_ok_def)
  then consider c line where "thread_pc (threads m ! i) = Executing c line"
    | r where "thread_pc (threads m ! i) = Executed r" by (metis holds_lock.elims(2))
  then show ?thesis
  proof cases
    case (1 c line)
    obtain res s wr where "execute X c (store (mutex m), thread_writer (threads m ! i)) = (res, (s, wr))"
      by (metis surj_pair)
    from machine_step.execute [OF i 1 this] show ?thesis by blast
  next
    case (2 r)
    from machine_step.unlock [OF i 2] show ?thesis by blast
  qed
qed

text \<open>
  A call that blocks - the client sends nothing, or does not read what is sent to it - is a
  thread that is not scheduled. Beside any set \<open>B\<close> of such threads another one can go on, unless
  all of them have stopped or wait for a lock that a thread of \<open>B\<close> holds.
\<close>

lemma progress_beside:
  assumes "lock_ok m" and "i < length (threads m)" and "i \<notin> B" and "\<not> stopped (threads m ! i)"
    and "\<nexists>j c line. holder m = Some j \<and> j \<in> B \<and> thread_pc (threads m ! i) = Locking c line"
  shows "\<exists>i n. i \<notin> B \<and> machine_step X m (Serve i) n"
proof (cases "thread_pc (threads m ! i)")
  case (Locking c line)
  show ?thesis
  proof (cases "holder m")
    case None
    with Locking assms(2,3) machine_step.lock [of i m c line X] machine_step.lock_poisoned [of i m c line X]
    show ?thesis by blast
  next
    case (Some j)
    with holder_can_step [OF assms(1) this] assms(5) Locking show ?thesis by blast
  qed
next
  case (Executing c line)
  then have "holder m = Some i" using assms(1,2) by (metis holds_lock.simps(1) lock_ok_def)
  with holder_can_step [OF assms(1) this] assms(3) show ?thesis by blast
next
  case (Executed r)
  then have "holder m = Some i" using assms(1,2) by (metis holds_lock.simps(2) lock_ok_def)
  with holder_can_step [OF assms(1) this] assms(3) show ?thesis by blast
next
  case (Stopped r)
  with assms(4) show ?thesis by (simp add: stopped_def)
qed (use assms(2,3) machine_step.local [of i m _ X] in \<open>simp_all add: loop_step_def split: prod.splits sum.splits\<close>, blast+)

lemma no_deadlock:
  assumes "lock_ok m" and "t \<in> set (threads m)" and "\<not> stopped t"
  shows "\<exists>i n. machine_step X m (Serve i) n"
proof -
  obtain i where "i < length (threads m)" "threads m ! i = t" using assms(2) by (auto simp: in_set_conv_nth)
  with progress_beside [OF assms(1), of i "{}" X] assms(3) show ?thesis by blast
qed

text \<open>
  While the thread that holds the lock does not go on - it executes its command, which writes
  the reply too - nobody changes the store.
\<close>

lemma holder_keeps_step:
  assumes "machine_step X m e n" and "lock_ok m" and "holder m = Some j" and "e \<noteq> Serve j"
  shows "holder n = Some j \<and> mutex n = mutex m"
  using assms(1)
proof (cases rule: machine_step.cases)
  case (execute i c line res s wr)
  then have "holds_lock (thread_pc (threads m ! i))" by simp
  then have "holder m = Some i" using assms(2) execute(3) by (simp add: lock_ok_def)
  with execute(1) assms(3,4) show ?thesis by simp
next
  case (unlock i res)
  then have "holds_lock (thread_pc (threads m ! i))" by simp
  then have "holder m = Some i" using assms(2) unlock(3) by (simp add: lock_ok_def)
  with unlock(1) assms(3,4) show ?thesis by simp
qed (use assms(3) in simp_all)

lemma holder_keeps:
  assumes "machine_run X m es n" and "lock_ok m" and "holder m = Some j" and "Serve j \<notin> set es"
  shows "holder n = Some j \<and> mutex n = mutex m"
  using assms
proof (induction rule: machine_run.induct)
  case (machine_more m es n e q)
  with holder_keeps_step [OF machine_more.hyps(2) lock_ok_run [OF machine_more.hyps(1)]] show ?case by auto
qed simp

text \<open>How long the threads run when nobody connects any more, and how they end.\<close>

definition is_serve :: "event \<Rightarrow> bool" where
  "is_serve e \<longleftrightarrow> (case e of Accept r wr \<Rightarrow> False | Serve i \<Rightarrow> True)"

lemma run_work:
  assumes "machine_run X m es n" and "list_all is_serve es"
  shows "work n + length es \<le> work m"
  using assms
proof (induction rule: machine_run.induct)
  case (machine_more m es n e q)
  then obtain i where "e = Serve i" by (auto simp: is_serve_def split: event.splits)
  with serve_work [of X n i q] machine_more show ?case by simp
qed simp

lemma machine_run_Cons:
  assumes "machine_step X m e n" and "machine_run X n es q"
  shows "machine_run X m (e # es) q"
  using assms(2,1)
proof (induction rule: machine_run.induct)
  case (machine_start n)
  then show ?case using machine_run.machine_more [OF machine_run.machine_start] by fastforce
next
  case (machine_more n es p e' q)
  from machine_run.machine_more [OF machine_more.IH [OF machine_more.prems] machine_more.hyps(2)]
  show ?case by simp
qed

lemma runs_to_end:
  assumes "lock_ok m"
  shows "\<exists>es n. list_all is_serve es \<and> machine_run X m es n \<and> list_all stopped (threads n)"
  using assms
proof (induction "work m" arbitrary: m rule: less_induct)
  case less
  show ?case
  proof (cases "list_all stopped (threads m)")
    case True
    with machine_run.machine_start [of X m] show ?thesis by (intro exI [of _ "[]"]) auto
  next
    case False
    then obtain t where "t \<in> set (threads m)" "\<not> stopped t" by (auto simp: list_all_iff)
    then obtain i n where s: "machine_step X m (Serve i) n"
      using no_deadlock [OF less.prems] by blast
    from less.hyps [OF serve_work [OF s] lock_ok_step [OF s less.prems]] obtain es q where
      "list_all is_serve es" "machine_run X n es q" "list_all stopped (threads q)" by blast
    with machine_run_Cons [OF s] show ?thesis
      by (intro exI [of _ "Serve i # es"] exI [of _ q]) (simp add: is_serve_def)
  qed
qed

end
