(* ===== verification/Calm.thy ===== *)
theory Calm
  imports Log
begin

text \<open>
  Calls that succeed although calls to the operating system can fail. \<open>calm w\<close> is \<open>w\<close> with the
  faults to come forgotten. Every operation of the store but opening it passes on each error
  it gets, so one that succeeds met no fault and has done what it does in a calm world.
\<close>

section \<open>A calm world\<close>

definition calm :: "world \<Rightarrow> world" where
  "calm w = w\<lparr>faults := []\<rparr>"

lemma calm_simps [simp]:
  "wal (calm w) = wal w" "ssts (calm w) = ssts w" "faults (calm w) = []" "clock (calm w) = clock w"
  "ticks (calm w) = ticks w" "contents (calm w) f = contents w f" "calm (w\<lparr>faults := fs\<rparr>) = calm w"
  by (simp_all add: calm_def)

lemma calm_id: "faults w = [] \<Longrightarrow> calm w = w"
  by (cases w) (simp add: calm_def)

lemma calm_faulted: "faults w = [] \<Longrightarrow> calm (w\<lparr>faults := fs\<rparr>) = w"
  by (simp add: calm_def)

lemma set_contents_faults: "set_contents f b (w\<lparr>faults := fs\<rparr>) = (set_contents f b w)\<lparr>faults := fs\<rparr>"
  by (cases f) (simp_all add: set_contents.simps)

lemma calm_set_contents: "calm (set_contents f b w) = set_contents f b (calm w)"
  by (simp add: calm_def set_contents_faults)

lemma disk_ok_calm [simp]: "disk_ok X U (calm w) = disk_ok X U w"
  by (rule disk_ok_cong) simp_all

lemma disk_map_calm [simp]: "disk_map X (calm w) = disk_map X w"
  by (rule disk_map_cong) simp_all

lemma wal_entries_calm [simp]: "wal_entries X (calm w) = wal_entries X w"
  by (rule wal_entries_cong) simp

lemma tables_of_calm [simp]: "tables_of X (calm w) = tables_of X w"
  by (rule tables_of_cong) simp

section \<open>Computations that pass on every error\<close>

text \<open>\<open>calming c m\<close>: where \<open>m\<close> succeeds, it does the same in the state that \<open>c\<close> has calmed.\<close>

named_theorems calming_rules "operations that pass on every error"

definition calming :: "('s \<Rightarrow> 's) \<Rightarrow> ('s, 'a) sio \<Rightarrow> bool" where
  "calming c m \<longleftrightarrow> (\<forall>s x t. m s = (Inr x, t) \<longrightarrow> m (c s) = (Inr x, c t))"

lemma calmingI: "(\<And>s x t. m s = (Inr x, t) \<Longrightarrow> m (c s) = (Inr x, c t)) \<Longrightarrow> calming c m"
  by (simp add: calming_def)

lemma calmingD: "calming c m \<Longrightarrow> m s = (Inr x, t) \<Longrightarrow> m (c s) = (Inr x, c t)"
  by (simp add: calming_def)

lemma calming_pure: "(\<And>s. f (c s) = f s) \<Longrightarrow> (\<And>s. g (c s) = c (g s)) \<Longrightarrow> calming c (\<lambda>s. (f s, g s))"
  by (simp add: calming_def)

lemma calming_ret [calming_rules]: "calming c (ret x)"
  by (simp add: calming_def)

lemma calming_Pair: "calming c (Pair (Inr x))"
  by (simp add: calming_def)

lemma calming_throw [calming_rules]: "calming c (throw e)"
  by (simp add: calming_def)

lemma calming_of_option [calming_rules]: "calming c (of_option e x)"
  by (cases x) (simp_all add: calming_def)

lemma calming_of_result [calming_rules]: "calming c (of_result x)"
  by (simp add: calming_def)

lemma calming_bindS [calming_rules]:
  assumes "calming c m" and "\<And>x. calming c (k x)"
  shows "calming c (bindS m k)"
proof (rule calmingI)
  fix s x u assume "bindS m k s = (Inr x, u)"
  then obtain y t where "m s = (Inr y, t)" "k y t = (Inr x, u)" by (rule bindS_InrE)
  from calmingD [OF assms(1) this(1)] calmingD [OF assms(2) this(2)]
  have "m (c s) = (Inr y, c t)" "k y (c t) = (Inr x, c u)" .
  then show "bindS m k (c s) = (Inr x, c u)" by (simp add: bindS_def)
qed

lemma calming_on_snd [calming_rules]: "calming c m \<Longrightarrow> calming (apsnd c) (on_snd m)"
  by (auto simp: calming_def on_snd_def split: prod.splits)

lemma calming_with_local [calming_rules]: "calming (apsnd c) m \<Longrightarrow> calming c (with_local l m)"
  by (fastforce simp: calming_def with_local_def split: prod.splits)

lemma calming_if [calming_rules]:
  "(b \<Longrightarrow> calming c m) \<Longrightarrow> (\<not> b \<Longrightarrow> calming c n) \<Longrightarrow> calming c (if b then m else n)"
  by simp

lemma calming_option [calming_rules]:
  "calming c m \<Longrightarrow> (\<And>y. calming c (k y)) \<Longrightarrow> calming c (case x of None \<Rightarrow> m | Some y \<Rightarrow> k y)"
  by (cases x) simp_all

lemma calming_prod [calming_rules]: "(\<And>y z. calming c (k y z)) \<Longrightarrow> calming c (case x of (y, z) \<Rightarrow> k y z)"
  by (cases x) simp

section \<open>The calls to the operating system\<close>

lemma calm_pop_fault: "pop_fault w = (None, v) \<Longrightarrow> calm v = calm w"
  by (auto simp: pop_fault_def split: list.splits)

lemma contents_calm_pop: "pop_fault w = (x, v) \<Longrightarrow> contents v f = contents w f"
  by (auto dest: pop_fault_world)

lemma os_call_calm: "os_call w = (Inr x, v) \<Longrightarrow> calm v = calm w"
  by (auto simp: os_call_def calm_pop_fault split: prod.splits option.splits)

lemma calming_os_call [calming_rules]: "calming calm os_call"
  by (rule calmingI) (simp add: os_call_calm calls_ok)

lemma calming_create_dir_all [calming_rules]: "calming calm create_dir_all"
  unfolding create_dir_all_def by (rule calming_os_call)

lemma calming_now_micros [calming_rules]: "calming calm now_micros"
  by (auto simp: calming_def now_micros_def Let_def calm_def split: if_splits)

lemma calming_read_dir [calming_rules]: "calming calm read_dir"
  unfolding read_dir_def by (intro calming_rules calming_pure) simp_all

lemma calming_remove_file [calming_rules]: "calming calm (remove_file n)"
  unfolding remove_file_def by (intro calming_rules) (auto simp: calming_def calm_def)

lemma calming_file_open [calming_rules]: "calming calm (file_open n)"
  unfolding file_open_def by (intro calming_rules) (auto simp: calming_def)

lemma calming_open_truncated [calming_rules]: "calming calm (open_truncated f)"
  unfolding open_truncated_def by (intro calming_rules calming_pure) (simp_all add: calm_set_contents)

lemma calming_open_kept [calming_rules]: "calming calm (open_kept f)"
  unfolding open_kept_def by (intro calming_rules calming_pure) simp_all

lemma calming_set_cur [calming_rules]: "calming (apsnd calm) (set_cur n)"
  by (auto simp: calming_def set_cur_def)

lemma calming_seek_start [calming_rules]: "calming (apsnd calm) (seek_start n)"
  unfolding seek_start_def by (intro calming_rules)

lemma calming_seek_end [calming_rules]: "calming (apsnd calm) (seek_end k)"
  unfolding seek_end_def
  by (intro calming_rules) (auto simp: calming_def set_cur_def file_len_def split: if_splits)

lemma calming_stream_position [calming_rules]: "calming (apsnd calm) stream_position"
  unfolding stream_position_def by (intro calming_rules calming_pure) simp_all

lemma calming_metadata_len [calming_rules]: "calming (apsnd calm) metadata_len"
  unfolding metadata_len_def by (intro calming_rules calming_pure) (simp_all add: file_len_def)

lemma calming_read_to_end [calming_rules]: "calming (apsnd calm) read_to_end"
  unfolding read_to_end_def by (intro calming_rules) (auto simp: calming_def Let_def)

lemma calming_read_exact [calming_rules]: "calming (apsnd calm) (read_exact n)"
  unfolding read_exact_def by (intro calming_rules) (auto simp: calming_def Let_def split: if_splits)

lemma calming_write_all [calming_rules]: "calming (apsnd calm) (write_all b)"
proof (rule calmingI)
  fix s x t assume run: "write_all b s = (Inr x, t)"
  then obtain v where p: "pop_fault (snd s) = (None, v)" and t: "t = put_bytes b (fst s, v)"
    by (auto simp: write_all_def split: prod.splits option.splits)
  have "pop_fault (calm (snd s)) = (None, calm v)" using calm_pop_fault [OF p] by (simp add: pop_fault_def)
  then show "write_all b (apsnd calm s) = (Inr x, apsnd calm t)"
    using contents_calm_pop [OF p] by (cases s) (simp add: write_all_def t put_bytes_def Let_def calm_set_contents)
qed

lemma calming_sync_all [calming_rules]: "calming (apsnd calm) sync_all"
  unfolding sync_all_def by (intro calming_rules)

lemma calming_set_len_zero [calming_rules]: "calming (apsnd calm) set_len_zero"
  unfolding set_len_zero_def by (intro calming_rules calming_pure) (auto simp: calm_set_contents)

section \<open>The operations of the store\<close>

lemma calming_header_read_next [calming_rules]: "calming (apsnd calm) (header_read_next X)"
  unfolding header_read_next_def by (intro calming_rules)

lemma calming_header_has_at_least_one [calming_rules]: "calming (apsnd calm) (header_has_at_least_one X)"
  unfolding header_has_at_least_one_def by (intro calming_rules)

lemma calming_header_write [calming_rules]: "calming (apsnd calm) (header_write X e)"
  unfolding header_write_def by (intro calming_rules)

lemma calming_read_bloom_filter [calming_rules]: "calming (apsnd calm) read_bloom_filter"
  unfolding read_bloom_filter_def Let_def by (intro calming_rules)

lemma calming_from_path [calming_rules]: "calming calm (from_path X n)"
  unfolding from_path_def by (intro calming_rules) (auto simp: calming_def)

lemma calming_on_file [calming_rules]: "calming (apsnd calm) m \<Longrightarrow> calming (apsnd calm) (on_file m)"
  by (fastforce simp: calming_def on_file_def split: prod.splits)

lemma calming_read_next_entry [calming_rules]: "calming (apsnd calm) (read_next_entry X)"
  unfolding read_next_entry_def
  by (intro calming_rules) (auto simp: calming_def dest: calmingD [OF calming_on_file [OF calming_header_read_next]])

lemma calming_find_in_table [calming_rules]: "calming (apsnd calm) (find_in_table X k)"
proof (rule calmingI)
  fix s x t assume "find_in_table X k s = (Inr x, t)"
  then show "find_in_table X k (apsnd calm s) = (Inr x, apsnd calm t)"
  proof (induction X k s rule: find_in_table.induct)
    case (1 X k s)
    obtain r u where r: "read_next_entry X s = (r, u)" by (metis surj_pair)
    show ?case
    proof (cases "\<exists>e. r = Inr (Some e) \<and> entry_key e \<noteq> k")
      case True
      then obtain e where e: "r = Inr (Some e)" "entry_key e \<noteq> k" by blast
      with 1 r have "find_in_table X k (apsnd calm u) = (Inr x, apsnd calm t)"
        by (simp add: find_in_table.simps [of X k s])
      with e r calmingD [OF calming_read_next_entry, of X s "Some e" u] show ?thesis
        by (simp add: find_in_table.simps [of X k "apsnd calm s"])
    next
      case False
      with 1(2) r calmingD [OF calming_read_next_entry, of X s _ u] show ?thesis
        by (auto simp: find_in_table.simps [of X k s] find_in_table.simps [of X k "apsnd calm s"]
            split: sum.splits option.splits if_splits)
    qed
  qed
qed

lemma calming_write_entries [calming_rules]: "calming (apsnd calm) (write_entries X es f)"
  by (induction es arbitrary: f) (auto intro!: calming_ret calming_bindS calming_header_write)

lemma calming_write_table [calming_rules]: "calming (apsnd calm) (write_table X es n)"
  unfolding write_table_def by (intro calming_rules)

lemma calming_new_table [calming_rules]: "calming calm (new_table X m)"
  unfolding new_table_def by (intro calming_rules)

lemma calming_flush_to [calming_rules]: "calming (apsnd calm) (flush_to X)"
proof (rule calmingI)
  fix s x t assume "flush_to X s = (Inr x, t)"
  then show "flush_to X (apsnd calm s) = (Inr x, apsnd calm t)"
    using calmingD [OF calming_new_table, of X "fst s" "snd s"]
    by (cases s) (auto simp: flush_to_def on_snd_def elim!: bindS_InrE split: if_splits prod.splits
      intro!: bindS_Inr [THEN trans])
qed

section \<open>The compaction\<close>

lemma calming_advance [calming_rules]: "calming calm (advance X t)"
proof (rule calmingI)
  fix w x v assume "advance X t w = (Inr x, v)"
  then obtain e t' where "read_next_entry X (t, w) = (Inr e, (t', v))" "x = (e, t')"
    by (auto simp: advance_def split: prod.splits sum.splits)
  with calmingD [OF calming_read_next_entry this(1)] show "advance X t (calm w) = (Inr x, calm v)"
    by (simp add: advance_def)
qed

lemma calming_open_all [calming_rules]: "calming calm (open_all X ns)"
  by (induction ns) (simp_all add: calming_Pair, intro calming_rules)

lemma calming_prime [calming_rules]: "calming calm (prime X ts)"
  by (induction ts) (simp_all add: calming_Pair, intro calming_rules)

lemma calming_take_winner [calming_rules]: "calming (apsnd (apsnd calm)) (take_winner X k e)"
  by (auto simp: calming_def take_winner_def split: entry.splits prod.splits sum.splits if_splits)

lemma calming_visit [calming_rules]: "calming (apsnd (apsnd calm)) (visit X k c)"
  unfolding visit_def by (intro calming_rules)

lemma calming_visit_all [calming_rules]: "calming (apsnd (apsnd calm)) (visit_all X k cs)"
  by (induction cs) (simp_all add: calming_Pair, intro calming_rules)

lemma calming_flush_if_full [calming_rules]: "calming (apsnd calm) (flush_if_full X)"
  using calmingD [OF calming_flush_to] by (auto simp: calming_def flush_if_full_def)

lemma calming_merge_loop [calming_rules]: "calming (apsnd (apsnd calm)) (merge_loop X fuel cs)"
  by (induction fuel arbitrary: cs) (simp_all add: calming_throw Let_def, intro calming_rules)

lemma calming_merge_all [calming_rules]: "calming (apsnd (apsnd calm)) (merge_all X fuel cs)"
  unfolding merge_all_def
  by (intro calming_rules) (use calmingD [OF calming_flush_to] in \<open>auto simp: calming_def\<close>)

lemma calming_remove_files [calming_rules]: "calming calm (remove_files ns)"
  by (induction ns) (simp_all add: calming_Pair, intro calming_rules)

lemma calming_compact [calming_rules]: "calming calm (compact X)"
proof -
  have "compact_fuel (calm w) = compact_fuel w" for w by (simp add: compact_fuel_def)
  then have "calming calm (\<lambda>w. with_local memtable_new (with_local {} (merge_all X (compact_fuel w) cs)) w)" for cs
    using calmingD [OF calming_with_local [OF calming_with_local [OF calming_merge_all]]]
    by (simp add: calming_def)
  then show ?thesis unfolding compact_def Let_def by (intro calming_rules)
qed

section \<open>The log\<close>

lemma calming_on_wal [calming_rules]: "calming (apsnd calm) m \<Longrightarrow> calming (apsnd calm) (on_wal m)"
  by (fastforce simp: calming_def on_wal_def split: prod.splits)

lemma calming_on_memtable [calming_rules]: "calming (apsnd calm) m \<Longrightarrow> calming (apsnd calm) (on_memtable m)"
  by (fastforce simp: calming_def on_memtable_def split: prod.splits)

lemma calming_on_fst [calming_rules]: "calming (apsnd calm) (on_fst m)"
  by (auto simp: calming_def on_fst_def split: prod.splits)

lemma calming_log_write [calming_rules]: "calming (apsnd calm) (log_write X e)"
  unfolding log_write_def by (intro calming_rules)

lemma calming_get_scan [calming_rules]: "calming calm (get_scan X k ns)"
  by (induction ns) (simp_all add: calming_Pair, intro calming_rules)

lemma calming_log_get [calming_rules]: "calming (apsnd calm) (log_get X k)"
proof -
  have "calming (apsnd calm) (on_snd (bindS read_dir (\<lambda>names. get_scan X k (sort_desc names))))"
    by (intro calming_rules)
  from calmingD [OF this] show ?thesis
    by (intro calmingI) (auto simp: log_get_def split: option.splits)
qed

lemma calming_log_contains [calming_rules]: "calming (apsnd calm) (log_contains X k)"
  unfolding log_contains_def by (intro calming_rules)

lemma calming_log_flush [calming_rules]: "calming (apsnd calm) (log_flush X)"
  unfolding log_flush_def Let_def
  by (intro calming_rules) (use calmingD [OF calming_on_snd [OF calming_compact]] in \<open>fastforce simp: calming_def\<close>)

lemma calming_maybe_flush [calming_rules]: "calming (apsnd calm) (maybe_flush X)"
  using calmingD [OF calming_log_flush] by (auto simp: calming_def maybe_flush_def)

text \<open>
  A client that opens the store once: if all its calls succeed while calls to the operating
  system may fail, they do what they do when none fails.
\<close>

lemma calming_act: "a \<noteq> Reopen \<Longrightarrow> calming (apsnd calm) (act X a)"
  by (cases a) (simp_all add: log_compact_def, (intro calming_rules)+)

lemma calming_script: "Reopen \<notin> set as \<Longrightarrow> calming (apsnd calm) (script X as)"
  by (induction as) (auto intro!: calming_rules calming_act)

lemma script_success:
  assumes "log_inv X U (l, w)" and "Reopen \<notin> set as" and "script X as (l, w\<lparr>faults := fs\<rparr>) = (Inr rs, (l', v))"
  shows "script X as (l, w) = (Inr rs, (l', calm v))"
  using calmingD [OF calming_script [OF assms(2)], of X "(l, w\<lparr>faults := fs\<rparr>)"] assms(3)
    calm_faulted [OF log_invD(2) [OF assms(1)]] by simp

end
