(* ===== verification/Crash.thy ===== *)
theory Crash
  imports Calm
begin

text \<open>
  What the files hold when a call fails, or the process is killed, at any point of a write,
  of a flush, or of the deletions that end a compaction; and what is read back from them.
\<close>

section \<open>Appending under faults\<close>

text \<open>
  \<open>appends m b\<close>: on a file that exists, with the cursor at its end, \<open>m\<close> appends some prefix of
  \<open>b\<close>, and all of \<open>b\<close> if it succeeds, and does nothing else to the world.
\<close>

definition at_end :: "fh \<Rightarrow> world \<Rightarrow> bool" where
  "at_end h w \<longleftrightarrow> cur h = length (contents w (fid h)) \<and> set_contents (fid h) (contents w (fid h)) w = w"

definition grown :: "fid \<Rightarrow> u8 list \<Rightarrow> world \<Rightarrow> world \<Rightarrow> bool" where
  "grown f b w v \<longleftrightarrow> (\<exists>fs. v = set_contents f (contents w f @ b) (w\<lparr>faults := fs\<rparr>))"

definition appends :: "'a file_op \<Rightarrow> u8 list \<Rightarrow> bool" where
  "appends m b \<longleftrightarrow> (\<forall>h w r h' v. at_end h w \<longrightarrow> m (h, w) = (r, (h', v)) \<longrightarrow>
     fid h' = fid h \<and> (\<exists>n. grown (fid h) (take n b) w v) \<and>
     (\<forall>x. r = Inr x \<longrightarrow> grown (fid h) b w v \<and> cur h' = length (contents v (fid h))))"

lemma grown_contents: "grown f b w v \<Longrightarrow> contents v f = contents w f @ b"
  by (auto simp: grown_def)

lemma grown_trans: "grown f a w v \<Longrightarrow> grown f b v u \<Longrightarrow> grown f (a @ b) w u"
  by (auto simp: grown_def set_contents_faults)

lemma grown_refl:
  assumes "set_contents f (contents w f) w = w"
  shows "grown f [] w (w\<lparr>faults := fs\<rparr>)"
  using assms by (auto simp: grown_def set_contents_faults)

lemma appends_apply:
  assumes "appends m b" and "at_end h w" and "m (h, w) = (r, (h', v))"
  shows "fid h' = fid h" and "\<exists>n. grown (fid h) (take n b) w v"
    and "r = Inr x \<Longrightarrow> grown (fid h) b w v \<and> at_end h' v"
proof -
  have *: "fid h' = fid h \<and> (\<exists>n. grown (fid h) (take n b) w v) \<and>
     (\<forall>x. r = Inr x \<longrightarrow> grown (fid h) b w v \<and> cur h' = length (contents v (fid h)))"
    using assms unfolding appends_def by blast
  then show "fid h' = fid h" and "\<exists>n. grown (fid h) (take n b) w v" by blast+
  assume "r = Inr x"
  with * have g: "grown (fid h) b w v" and c: "cur h' = length (contents v (fid h))" by blast+
  from g obtain fs where v: "v = set_contents (fid h) (contents w (fid h) @ b) (w\<lparr>faults := fs\<rparr>)"
    by (auto simp: grown_def)
  have "set_contents (fid h) (contents v (fid h)) v = v" by (simp add: v)
  with g c * show "grown (fid h) b w v \<and> at_end h' v" by (simp add: at_end_def)
qed

lemma appendsI:
  assumes "\<And>h w r h' v. at_end h w \<Longrightarrow> m (h, w) = (r, (h', v)) \<Longrightarrow> fid h' = fid h \<and>
     (\<exists>n. grown (fid h) (take n b) w v) \<and>
     (\<forall>x. r = Inr x \<longrightarrow> grown (fid h) b w v \<and> cur h' = length (contents v (fid h)))"
  shows "appends m b"
  using assms unfolding appends_def by blast

lemma appends_bindS:
  assumes "appends m a" and "\<And>s x t. m s = (Inr x, t) \<Longrightarrow> appends (k x) b"
  shows "appends (bindS m k) (a @ b)"
proof (rule appendsI)
  fix h w r h' v assume e: "at_end h w" and run: "bindS m k (h, w) = (r, (h', v))"
  obtain r1 h1 w1 where m: "m (h, w) = (r1, (h1, w1))" by (metis surj_pair)
  note f = appends_apply [OF assms(1) e m]
  show "fid h' = fid h \<and> (\<exists>n. grown (fid h) (take n (a @ b)) w v) \<and>
     (\<forall>x. r = Inr x \<longrightarrow> grown (fid h) (a @ b) w v \<and> cur h' = length (contents v (fid h)))"
  proof (cases r1)
    case (Inl err)
    then have *: "r = Inl err" "h' = h1" "v = w1" using run m by (simp_all add: bindS_def)
    obtain n where "grown (fid h) (take n a) w w1" using f(2) by blast
    then have "grown (fid h) (take (min n (length a)) (a @ b)) w v"
      using *(3) by (cases "n \<le> length a") (simp_all add: min_def)
    with * f(1) show ?thesis by blast
  next
    case (Inr x)
    then have run2: "k x (h1, w1) = (r, (h', v))" using run m by (simp add: bindS_def)
    note g = f(3) [OF Inr]
    note f2 = appends_apply [OF assms(2) [OF m [unfolded Inr]] g [THEN conjunct2] run2]
    obtain n where "grown (fid h) (take n b) w1 v" using f2(2) f(1) by auto
    then have "grown (fid h) (take (length a + n) (a @ b)) w v"
      using grown_trans [OF g [THEN conjunct1]] by simp
    moreover have "grown (fid h) (a @ b) w v \<and> cur h' = length (contents v (fid h))" if "r = Inr y" for y
      using f2(3) [OF that] grown_trans [OF g [THEN conjunct1]] f(1) f2(1) by (simp add: at_end_def)
    moreover have "fid h' = fid h" using f(1) f2(1) by simp
    ultimately show ?thesis by blast
  qed
qed

lemma appends_bindS_Nil:
  assumes "appends m a" and "\<And>x. appends (k x) []"
  shows "appends (bindS m k) a"
  using appends_bindS [OF assms] by simp

lemma appends_Nil_bindS:
  assumes "appends m []" and "\<And>x. appends (k x) a"
  shows "appends (bindS m k) a"
  using appends_bindS [OF assms] by simp

lemma grown_self: "at_end h w \<Longrightarrow> grown (fid h) [] w w"
  using grown_refl [of "fid h" w "faults w"] by (simp add: at_end_def)

lemma appends_pure: "(\<And>s. m s = (f s, s)) \<Longrightarrow> appends m []"
  by (rule appendsI) (auto simp: grown_self at_end_def)

lemma grown_write:
  "at_end h w \<Longrightarrow> grown (fid h) b w (snd (put_bytes b (h, w\<lparr>faults := fs\<rparr>)))"
  by (auto simp: at_end_def grown_def put_bytes_def Let_def)

lemma appends_write_all: "appends (write_all b) b"
proof (rule appendsI)
  fix h w r h' v assume e: "at_end h w" and run: "write_all b (h, w) = (r, (h', v))"
  obtain x u where p: "pop_fault w = (x, u)" by fastforce
  then obtain fs where u: "u = w\<lparr>faults := fs\<rparr>" using pop_fault_world by blast
  show "fid h' = fid h \<and> (\<exists>n. grown (fid h) (take n b) w v) \<and>
     (\<forall>x. r = Inr x \<longrightarrow> grown (fid h) b w v \<and> cur h' = length (contents v (fid h)))"
  proof (cases x)
    case None
    then have *: "r = Inr ()" "(h', v) = put_bytes b (h, u)"
      using run p by (simp_all add: write_all_def split: prod.splits)
    then have "grown (fid h) b w v" using grown_write [OF e, of b fs] u by (metis snd_conv)
    moreover have "fid h' = fid h" "cur h' = cur h + length b"
      using *(2) by (simp_all add: put_bytes_def Let_def)
    ultimately show ?thesis
      using e by (auto simp: grown_contents at_end_def intro!: exI [of _ "length b"])
  next
    case (Some n)
    then have *: "r = Inl IoError" "(h', v) = put_bytes (take n b) (h, u)"
      using run p by (simp_all add: write_all_def split: prod.splits)
    then have "grown (fid h) (take n b) w v" using grown_write [OF e, of "take n b" fs] u by (metis snd_conv)
    with * show ?thesis by (auto simp: put_bytes_def Let_def)
  qed
qed

lemma appends_os_call: "appends (on_snd os_call) []"
proof (rule appendsI)
  fix h w r h' v assume e: "at_end h w" and run: "on_snd os_call (h, w) = (r, (h', v))"
  obtain r1 u where c: "os_call w = (r1, u)" by fastforce
  then obtain fs where "u = w\<lparr>faults := fs\<rparr>" using os_call_world by blast
  then have "grown (fid h) [] w u" "contents u (fid h) = contents w (fid h)"
    using e grown_refl [of "fid h" w fs] by (simp_all add: at_end_def)
  with c run e show "fid h' = fid h \<and> (\<exists>n. grown (fid h) (take n []) w v) \<and>
     (\<forall>x. r = Inr x \<longrightarrow> grown (fid h) [] w v \<and> cur h' = length (contents v (fid h)))"
    by (auto simp: on_snd_def at_end_def)
qed

lemma appends_sync_all: "appends sync_all []"
  unfolding sync_all_def by (rule appends_os_call)

lemma appends_seek_end: "appends (seek_end 0) []"
  unfolding seek_end_def
proof (rule appends_Nil_bindS [OF appends_os_call])
  show "appends (\<lambda>s. if 0 \<le> file_len s then set_cur (file_len s - 0) s else (Inl IoError, s)) []"
    by (rule appendsI) (auto simp: set_cur_def file_len_def grown_self)
qed

lemma appends_header_write:
  assumes "entry_ok X e"
  shows "appends (header_write X e) (record_bytes X e)"
  unfolding header_write_def header_serialize_ok [OF assms]
proof (rule appends_Nil_bindS [OF appends_seek_end])
  have "bindS (of_result (Inr (record_bytes X e))) write_all = write_all (record_bytes X e)"
    by (rule ext) simp
  then show "appends (bindS (of_result (Inr (record_bytes X e))) (\<lambda>b. write_all b)) (record_bytes X e)"
    using appends_write_all by simp
qed

lemma appends_write_entries:
  "list_all (entry_ok X) es \<Longrightarrow> appends (write_entries X es f) (records_bytes X es)"
proof (induction es arbitrary: f)
  case Nil
  show ?case by (simp add: appends_pure [of _ "\<lambda>_. Inr f"])
next
  case (Cons e es)
  then show ?case by (auto intro!: appends_bindS appends_header_write)
qed

section \<open>A write that fails\<close>

text \<open>Seeking to the end, from wherever the cursor is.\<close>

lemma seek_end_outcome:
  assumes "set_contents (fid h) (contents w (fid h)) w = w" and "seek_end 0 (h, w) = (r, (h', v))"
  shows "fid h' = fid h" and "grown (fid h) [] w v" and "r = Inr x \<Longrightarrow> at_end h' v"
proof -
  obtain r1 u where c: "os_call w = (r1, u)" by fastforce
  then obtain fs where u: "u = w\<lparr>faults := fs\<rparr>" using os_call_world by blast
  have "fid h' = fid h \<and> v = u \<and> (r = Inr x \<longrightarrow> cur h' = length (contents w (fid h)))"
    using assms(2) c u
    by (cases r1) (auto simp: seek_end_def bindS_def on_snd_def set_cur_def file_len_def)
  moreover have "grown (fid h) [] w u" using grown_refl [OF assms(1)] u by simp
  moreover have "set_contents (fid h) (contents u (fid h)) u = u"
    using assms(1) u by (simp add: set_contents_faults)
  ultimately show "fid h' = fid h" and "grown (fid h) [] w v" and "r = Inr x \<Longrightarrow> at_end h' v"
    using u by (auto simp: at_end_def)
qed

lemma header_write_outcome:
  assumes "entry_ok X e" and "set_contents (fid h) (contents w (fid h)) w = w"
    and "header_write X e (h, w) = (r, (h', v))"
  shows "fid h' = fid h" and "\<exists>n. grown (fid h) (take n (record_bytes X e)) w v"
    and "r = Inr x \<Longrightarrow> grown (fid h) (record_bytes X e) w v"
proof -
  obtain r1 h1 w1 where s: "seek_end 0 (h, w) = (r1, (h1, w1))" by (metis surj_pair)
  note o = seek_end_outcome [OF assms(2) s]
  have "fid h' = fid h \<and> (\<exists>n. grown (fid h) (take n (record_bytes X e)) w v) \<and>
      (r = Inr x \<longrightarrow> grown (fid h) (record_bytes X e) w v)"
  proof (cases r1)
    case (Inl err)
    then have "r = Inl err" "h' = h1" "v = w1"
      using assms(3) s by (simp_all add: header_write_def bindS_def)
    with o show ?thesis by (auto intro!: exI [of _ 0])
  next
    case (Inr y)
    then have "write_all (record_bytes X e) (h1, w1) = (r, (h', v))"
      using assms(3) s by (simp add: header_write_def bindS_def header_serialize_ok [OF assms(1)])
    from appends_apply [OF appends_write_all o(3) [OF Inr] this] o(1,2)
    show ?thesis using grown_trans by fastforce
  qed
  then show "fid h' = fid h" and "\<exists>n. grown (fid h) (take n (record_bytes X e)) w v"
    and "r = Inr x \<Longrightarrow> grown (fid h) (record_bytes X e) w v" by blast+
qed

lemma grown_Wal: "grown Wal b w v \<longleftrightarrow> (\<exists>fs. v = w\<lparr>faults := fs, wal := wal w @ b\<rparr>)"
  by (auto simp: grown_def set_contents.simps)

text \<open>
  Whatever fails in a write, the WAL keeps what it had and gets some beginning of the record,
  the whole of it if the write succeeds; the memtable gets the entry only with the whole
  record; the SSTables are not touched.
\<close>

lemma log_write_outcome:
  assumes "entry_ok X e" and "fid (wal_file l) = Wal" and "memtable_wf X (log_memtable l)"
    and "tracked (log_memtable l) + esize X e < 2 ^ 64" and "log_write X e (l, w) = (r, (l', v))"
  shows "fid (wal_file l') = Wal" and "flush_count l' = flush_count l"
    and "\<exists>n. grown Wal (take n (record_bytes X e)) w v"
    and "r = Inr () \<Longrightarrow> grown Wal (record_bytes X e) w v \<and> log_memtable l' = inserted X e (log_memtable l)"
    and "r = Inl err \<Longrightarrow> log_memtable l' = log_memtable l"
proof -
  let ?rec = "record_bytes X e"
  obtain r1 h1 w1 where hw: "header_write X e (wal_file l, w) = (r1, (h1, w1))" by (metis surj_pair)
  have "set_contents (fid (wal_file l)) (contents w (fid (wal_file l))) w = w"
    by (simp add: assms(2) set_contents.simps)
  note o = header_write_outcome [OF assms(1) this hw, unfolded assms(2)]
  obtain r2 w2 where sy: "sync_all (h1, w1) = (r2, (h1, w2))" and "\<exists>fs. w2 = w1\<lparr>faults := fs\<rparr>"
    using os_call_world by (cases "os_call w1") (fastforce simp: sync_all_def on_snd_def)
  then have g: "grown Wal b w w1 \<Longrightarrow> grown Wal b w w2" for b
    by (auto simp: grown_def set_contents_faults)
  have pr: "process X e (log_memtable l) =
      (Inr (memtable_get (log_memtable l) (entry_key e)), inserted X e (log_memtable l))"
    using assms(1,3,4) by (intro process_ok)
  have *: "fid (wal_file l') = Wal \<and> flush_count l' = flush_count l \<and> (\<exists>n. grown Wal (take n ?rec) w v) \<and>
      (r = Inr () \<longrightarrow> grown Wal ?rec w v \<and> log_memtable l' = inserted X e (log_memtable l)) \<and>
      (\<forall>err. r = Inl err \<longrightarrow> log_memtable l' = log_memtable l)"
  proof (cases r1)
    case (Inl x)
    then have "r = Inl x" "l' = l\<lparr>wal_file := h1\<rparr>" "v = w1"
      using assms(5) hw by (simp_all add: log_write_def bindS_def on_wal_def)
    with o(1,2) assms(2) show ?thesis by simp
  next
    case (Inr y)
    note whole = o(3) [OF Inr]
    show ?thesis
    proof (cases r2)
      case (Inl x)
      then have "r = Inl x" "l' = l\<lparr>wal_file := h1\<rparr>" "v = w2"
        using assms(5) hw Inr sy by (simp_all add: log_write_def bindS_def on_wal_def)
      with o(1) assms(2) g [OF whole] show ?thesis by (auto intro: exI [of _ "length ?rec"])
    next
      case (Inr z)
      then have "r = Inr ()" "l' = l\<lparr>wal_file := h1, log_memtable := inserted X e (log_memtable l)\<rparr>" "v = w2"
        using assms(5) hw \<open>r1 = Inr y\<close> sy pr
        by (simp_all add: log_write_def bindS_def on_wal_def on_memtable_def on_fst_def)
      with o(1) assms(2) g [OF whole] show ?thesis by (auto intro: exI [of _ "length ?rec"])
    qed
  qed
  then show "fid (wal_file l') = Wal" and "flush_count l' = flush_count l"
    and "\<exists>n. grown Wal (take n ?rec) w v"
    and "r = Inr () \<Longrightarrow> grown Wal ?rec w v \<and> log_memtable l' = inserted X e (log_memtable l)"
    and "r = Inl err \<Longrightarrow> log_memtable l' = log_memtable l" by blast+
qed

section \<open>A flush that fails\<close>

lemma write_entries_filter:
  "write_entries X es f s = (Inr g, t) \<Longrightarrow> g = fold (bloom_insert X) (map (as_bytes \<circ> entry_key) es) f"
  by (induction es arbitrary: f s) (auto elim!: bindS_InrE)

lemma appends_write_table:
  assumes "list_all (entry_ok X) es" and "length es * 10 < 2 ^ 32"
  shows "appends (write_table X es (length es * 10)) (table_image X es)"
proof -
  let ?n = "length es * 10"
  let ?f = "bloom_of X ?n (map entry_key es)"
  have "appends (bindS (write_all (inner ?f)) (\<lambda>_. bindS (of_result (u32_try_from ?n))
      (\<lambda>count. bindS (write_all (u32_to_le_bytes count)) (\<lambda>_. sync_all)))) (footer_bytes ?f)"
    unfolding footer_bytes_def bit_count_bloom_of
  proof (rule appends_bindS [OF appends_write_all])
    have "appends (bindS (write_all (u32_to_le_bytes (of_nat ?n))) (\<lambda>_. sync_all)) (u32_to_le_bytes (of_nat ?n))"
      by (rule appends_bindS_Nil [OF appends_write_all appends_sync_all])
    moreover have "bindS (of_result (u32_try_from ?n))
        (\<lambda>count. bindS (write_all (u32_to_le_bytes count)) (\<lambda>_. sync_all)) =
        bindS (write_all (u32_to_le_bytes (of_nat ?n))) (\<lambda>_. sync_all)"
      using assms(2) by (intro ext) simp
    ultimately show "appends (bindS (of_result (u32_try_from ?n))
        (\<lambda>count. bindS (write_all (u32_to_le_bytes count)) (\<lambda>_. sync_all))) (u32_to_le_bytes (of_nat ?n))"
      by simp
  qed
  then have "appends (write_table X es ?n) (records_bytes X es @ footer_bytes ?f)"
    unfolding write_table_def
    by (intro appends_bindS [OF appends_write_entries [OF assms(1)]])
      (auto simp: bloom_of_def dest!: write_entries_filter)
  then show ?thesis by (simp add: table_image_def)
qed

text \<open>
  The files after a flush of the memtable, whatever fails: none of them changed, or the new
  table is there, whole or in part. A flush that succeeds wrote all of it.
\<close>

definition torn_table :: "nat \<Rightarrow> crates \<Rightarrow> memtable \<Rightarrow> world \<Rightarrow> world \<Rightarrow> bool" where
  "torn_table n X m w v \<longleftrightarrow> wal v = wal w \<and> clock v = clock w \<and>
     ssts v = AList.update (next_name w) (take n (table_image X (memtable_values m))) (ssts w)"

lemma new_table_outcome:
  assumes "memtable_wf X m" and "memtable_len m * 10 < 2 ^ 32" and "0 \<le> clock w (ticks w)"
    and "new_table X m w = (r, v)"
  shows "r \<noteq> Inr () \<and> wal v = wal w \<and> ssts v = ssts w \<or> (\<exists>n. torn_table n X m w v) \<and>
    (r = Inr () \<longrightarrow> torn_table (length (table_image X (memtable_values m))) X m w v)"
proof -
  let ?img = "table_image X (memtable_values m)"
  obtain r1 w1 where s1: "create_dir_all w = (r1, w1)" by fastforce
  then obtain fs where w1: "w1 = w\<lparr>faults := fs\<rparr>" using create_dir_all_world by blast
  let ?w2 = "w1\<lparr>ticks := Suc (ticks w)\<rparr>"
  have s2: "now_micros w1 = (Inr (nat (clock w (ticks w))), ?w2)"
    using assms(3) by (simp add: w1 calls_ok)
  obtain r3 w3 where s3: "open_truncated (Sst (next_name w)) ?w2 = (r3, w3)" by fastforce
  obtain r4 u where c: "os_call ?w2 = (r4, u)" by fastforce
  then obtain fs' where u: "u = ?w2\<lparr>faults := fs'\<rparr>" using os_call_world by blast
  have mul: "checked_mul (memtable_len m) 10 = Some (memtable_len m * 10)"
    using assms(2) by (simp add: checked_mul_def)
  show ?thesis
  proof (cases "\<exists>x y. r1 = Inr x \<and> r4 = Inr y")
    case False
    then have "r \<noteq> Inr () \<and> (v = w1 \<or> v = u)"
      using assms(4) s1 s2 s3 c
      by (cases r1; cases r4) (auto simp: new_table_def bindS_def open_truncated_def next_name_def)
    with u w1 show ?thesis by auto
  next
    case True
    let ?h = "\<lparr>fid = Sst (next_name w), cur = 0\<rparr>" and ?w3 = "set_contents (Sst (next_name w)) [] u"
    have o: "open_truncated (Sst (next_name w)) ?w2 = (Inr ?h, ?w3)"
      using True c by (auto simp: open_truncated_def bindS_def)
    obtain h' where wt: "write_table X (memtable_values m) (memtable_len m * 10) (?h, ?w3) = (r, (h', v))"
      using assms(4) s1 s2 o mul True
      by (auto simp: new_table_def bindS_def next_name_def with_local_def split: prod.splits)
    have ap: "appends (write_table X (memtable_values m) (memtable_len m * 10)) ?img"
      using appends_write_table [OF memtable_values_ok [OF assms(1)]] assms(2) by simp
    have e: "at_end ?h ?w3" by (simp add: at_end_def)
    note f = appends_apply [OF ap e wt]
    have torn: "torn_table n X m w v" if "grown (Sst (next_name w)) (take n ?img) ?w3 v" for n
      using that u w1 by (auto simp: grown_def torn_table_def set_contents_faults)
    obtain n where "torn_table n X m w v" using f(2) torn by auto
    moreover have "torn_table (length ?img) X m w v" if "r = Inr ()"
      using f(3) [OF that] torn [of "length ?img"] by simp
    ultimately show ?thesis by blast
  qed
qed

lemma log_flush_outcome:
  assumes "memtable_wf X (log_memtable l)" and "memtable_values (log_memtable l) \<noteq> []"
    and "memtable_len (log_memtable l) * 10 < 2 ^ 32" and "0 \<le> clock w (ticks w)"
    and "fid (wal_file l) = Wal" and "\<not> compaction_due l" and "log_flush X (l, w) = (r, (l', v))"
  obtains (no_table) "r \<noteq> Inr ()" and "l' = l" and "wal v = wal w" and "ssts v = ssts w"
    | (torn) n where "r \<noteq> Inr ()" and "l' = l" and "torn_table n X (log_memtable l) w v"
    | (kept_wal) "r \<noteq> Inr ()" and "log_memtable l' = memtable_new" and "fid (wal_file l') = Wal"
        and "torn_table (length (table_image X (memtable_values (log_memtable l)))) X (log_memtable l) w v"
    | (emptied) w1 where "log_memtable l' = memtable_new" and "fid (wal_file l') = Wal"
        and "torn_table (length (table_image X (memtable_values (log_memtable l)))) X (log_memtable l) w w1"
        and "wal v = []" and "ssts v = ssts w1"
proof -
  let ?m = "log_memtable l"
  have ne: "\<not> is_empty ?m" using assms(1,2) by (simp add: is_empty_iff)
  obtain r1 w1 where nt: "new_table X ?m w = (r1, w1)" by fastforce
  note o = new_table_outcome [OF assms(1,3,4) nt]
  show ?thesis
  proof (cases r1)
    case (Inl e)
    then have "r = Inl e" "l' = l" "v = w1"
      using assms(7) nt ne
      by (simp_all add: log_flush_def flush_to_def bindS_def on_memtable_def on_snd_def)
    with o Inl show ?thesis using no_table torn by auto
  next
    case (Inr x)
    then have full: "torn_table (length (table_image X (memtable_values ?m))) X ?m w w1" using o by auto
    obtain r2 u where c: "os_call w1 = (r2, u)" by fastforce
    then obtain fs where u: "u = w1\<lparr>faults := fs\<rparr>" using os_call_world by blast
    have full': "torn_table (length (table_image X (memtable_values ?m))) X ?m w u"
      using full u by (simp add: torn_table_def)
    have start: "log_flush X (l, w) = bindS (on_wal set_len_zero) (\<lambda>_.
        bindS (on_wal (seek_start 0)) (\<lambda>_ s.
          let l = (fst s)\<lparr>flush_count := saturating_add (flush_count (fst s)) 1\<rparr> in
          if flush_count l mod COMPACT_EVERY_N_FLUSHES = 0 then on_snd (compact X) (l, snd s)
          else (Inr (), (l, snd s)))) (l\<lparr>log_memtable := memtable_new\<rparr>, w1)"
      using nt ne Inr by (simp add: log_flush_def flush_to_def bindS_def on_memtable_def on_snd_def)
    show ?thesis
    proof (cases r2)
      case (Inl e)
      then have "r = Inl e" "l' = l\<lparr>log_memtable := memtable_new\<rparr>" "v = u"
        using assms(7) start c by (simp_all add: bindS_def on_wal_def set_len_zero_def on_snd_def)
      with full' assms(5) show ?thesis using kept_wal by simp
    next
      case (Inr y)
      let ?u = "u\<lparr>wal := []\<rparr>"
      obtain r3 u3 where c3: "os_call ?u = (r3, u3)" by fastforce
      then obtain fs3 where u3: "u3 = ?u\<lparr>faults := fs3\<rparr>" using os_call_world by blast
      have sl: "set_len_zero (wal_file l, w1) = (Inr (), (wal_file l, ?u))"
        using c Inr assms(5) by (simp add: set_len_zero_def bindS_def on_snd_def set_contents.simps)
      have "v = u3 \<and> log_memtable l' = memtable_new \<and> fid (wal_file l') = Wal"
        using assms(5,6,7) c3 sl unfolding start
        by (cases r3) (auto simp: bindS_def on_wal_def seek_start_def set_cur_def on_snd_def Let_def
            compaction_due_def)
      with full' u3 show ?thesis using emptied [of u] by simp
    qed
  qed
qed

section \<open>Reading past a damaged table\<close>

text \<open>Without faults, opening a file in the directory is never an error, whatever it holds.\<close>

lemma read_bloom_filter_total:
  assumes "faults w = []"
  obtains (short) h' where "read_bloom_filter (h, w) = (Inr None, (h', w))"
    | (filter) f where "read_bloom_filter (h, w) = (Inr (Some f), (h\<lparr>cur := 0\<rparr>, w))"
        and "length (inner f) + 4 \<le> length (contents w (fid h))" and "length (inner f) < 2 ^ 32"
proof -
  let ?c = "contents w (fid h)"
  let ?n = "unat (u32_from_le_bytes (take 4 (drop (length ?c - 4) ?c)))"
  have n: "?n < 2 ^ 32" using unsigned_less [of "u32_from_le_bytes (take 4 (drop (length ?c - 4) ?c))"] by simp
  note b = div_ceil_8_bound [OF n]
  then have add: "checked_add (div_ceil ?n 8) 4 = Some (div_ceil ?n 8 + 4)" by simp
  consider "length ?c < 4" | "4 \<le> length ?c" "length ?c < div_ceil ?n 8 + 4" | "div_ceil ?n 8 + 4 \<le> length ?c"
    by linarith
  then show ?thesis
  proof cases
    case 1
    with assms show ?thesis
      by (intro short [of "h\<lparr>cur := length ?c\<rparr>"]) (simp add: read_bloom_filter_def bindS_def calls_ok)
  next
    case 2
    with assms add show ?thesis
      by (intro short [of "h\<lparr>cur := length ?c\<rparr>"])
        (simp add: read_bloom_filter_def bindS_def calls_ok Let_def checked_sub_def)
  next
    case 3
    let ?f = "\<lparr>bit_count = ?n, inner = take (div_ceil ?n 8) (drop (length ?c - (div_ceil ?n 8 + 4)) ?c)\<rparr>"
    have l: "length (inner ?f) = div_ceil ?n 8" using 3 by simp
    have "read_bloom_filter (h, w) = (Inr (Some ?f), (h\<lparr>cur := 0\<rparr>, w))"
      using assms add 3
      by (simp add: read_bloom_filter_def bindS_def calls_ok Let_def checked_sub_def)
    moreover have "length (inner ?f) + 4 \<le> length ?c" unfolding l by (rule 3)
    moreover have "length (inner ?f) < 2 ^ 32" unfolding l by (rule b)
    ultimately show ?thesis by (rule filter)
  qed
qed

lemma from_path_total:
  assumes "faults w = []" and "n \<in> set (map fst (ssts w))" and "length (contents w (Sst n)) < 2 ^ 64"
  shows "\<exists>opt. from_path X n w = (Inr opt, w) \<and>
    (\<forall>t. opt = Some t \<longrightarrow> table_file t = \<lparr>fid = Sst n, cur = 0\<rparr>)"
proof -
  let ?h = "\<lparr>fid = Sst n, cur = 0\<rparr>"
  have opn: "file_open n w = (Inr ?h, w)" using assms(1,2) by (simp add: calls_ok)
  show ?thesis
  proof (cases rule: read_bloom_filter_total [OF assms(1), of ?h])
    case (1 h')
    with opn show ?thesis by (simp add: from_path_def bindS_def with_local_def)
  next
    case (2 f)
    have "\<exists>b. header_has_at_least_one X (?h, w) = (Inr b, (?h, w))"
      using assms(1,3)
      by (cases "scan_windows X 0 (contents w (Sst n))")
        (auto simp: header_has_at_least_one_def bindS_def calls_ok)
    then obtain b where one: "header_has_at_least_one X (?h, w) = (Inr b, (?h, w))" ..
    have "checked_add (length (inner f)) 4 = Some (length (inner f) + 4)" using 2(3) by simp
    with 2 opn one assms(1) show ?thesis
      by (cases b) (simp_all add: from_path_def bindS_def with_local_def calls_ok checked_sub_def)
  qed
qed

text \<open>The scan of a table returns nothing but a record of the file.\<close>

lemma find_in_table_sound:
  assumes "faults w = []" and "length (contents w (fid (table_file t))) < 2 ^ 64"
  shows "\<exists>x t'. find_in_table X k (t, w) = (Inr x, (t', w)) \<and>
    (\<forall>e. x = Some e \<longrightarrow> entry_key e = k \<and>
      e \<in> set (read_records X (drop (cur (table_file t)) (contents w (fid (table_file t))))))"
  using assms(2)
proof (induction "length (contents w (fid (table_file t))) - cur (table_file t)" arbitrary: t rule: less_induct)
  case less
  let ?h = "table_file t"
  let ?bs = "drop (cur ?h) (contents w (fid ?h))"
  have rn: "read_next_entry X (t, w) = (if filter_pos t < cur ?h then (Inr None, (t, w))
      else on_file (header_read_next X) (t, w))"
    using assms(1) by (simp add: read_next_entry_def bindS_def on_file_def calls_ok)
  show ?case
  proof (cases "filter_pos t < cur ?h \<or> scan_windows X 0 ?bs = None")
    case True
    then have "\<exists>t'. read_next_entry X (t, w) = (Inr None, (t', w))"
      using rn assms(1) less.prems by (auto simp: on_file_def header_read_next_ok)
    then show ?thesis by (auto simp: find_in_table.simps)
  next
    case False
    then obtain p e n where sc: "scan_windows X 0 ?bs = Some (p, e, n)" by auto
    let ?t = "t\<lparr>table_file := ?h\<lparr>cur := cur ?h + p + n\<rparr>\<rparr>"
    have step: "read_next_entry X (t, w) = (Inr (Some e), (?t, w))"
      using rn False assms(1) less.prems sc by (simp add: on_file_def header_read_next_ok)
    have rec: "read_records X ?bs = e # read_records X (drop (cur ?h + p + n) (contents w (fid ?h)))"
      using sc by (simp add: read_records.simps [of X ?bs] ac_simps)
    show ?thesis
    proof (cases "entry_key e = k")
      case True
      with step rec show ?thesis by (simp add: find_in_table.simps)
    next
      case False
      have "length (contents w (fid (table_file ?t))) - cur (table_file ?t) < length (contents w (fid ?h)) - cur ?h"
        using scan_windows_bounds [OF sc] HEADER_LEN_pos by auto
      from less.hyps [OF this] less.prems obtain x t' where "find_in_table X k (?t, w) = (Inr x, (t', w))"
          "\<forall>e. x = Some e \<longrightarrow> entry_key e = k \<and>
            e \<in> set (read_records X (drop (cur ?h + p + n) (contents w (fid ?h))))" by auto
      with step rec False show ?thesis by (simp add: find_in_table.simps)
    qed
  qed
qed

text \<open>A file is passed over, or one of its records answers the lookup.\<close>

lemma get_scan_file:
  assumes "faults w = []" and "map_of (ssts w) n = Some bs" and "length bs < 2 ^ 64"
  shows "get_scan X k (n # ns) w = get_scan X k ns w \<or>
    (\<exists>e \<in> set (read_records X bs). entry_key e = k \<and> get_scan X k (n # ns) w = (Inr (visible e), w))"
proof -
  have c: "contents w (Sst n) = bs" using assms(2) by (rule contents_Sst)
  have "n \<in> set (map fst (ssts w))" using assms(2) by (metis dom_map_of_conv_image_fst domI list.set_map)
  from from_path_total [OF assms(1) this] c assms(3) obtain opt where
    o: "from_path X n w = (Inr opt, w)" "\<forall>t. opt = Some t \<longrightarrow> table_file t = \<lparr>fid = Sst n, cur = 0\<rparr>"
    by blast
  show ?thesis
  proof (cases opt)
    case None
    with o show ?thesis by (simp add: bindS_def)
  next
    case (Some t)
    then have f: "table_file t = \<lparr>fid = Sst n, cur = 0\<rparr>" using o(2) by blast
    then obtain x t' where "find_in_table X k (t, w) = (Inr x, (t', w))"
        "\<forall>e. x = Some e \<longrightarrow> entry_key e = k \<and> e \<in> set (read_records X bs)"
      using find_in_table_sound [OF assms(1), of t X k] c assms(3) by auto
    with o(1) Some show ?thesis by (cases x) (auto simp: bindS_def with_local_def)
  qed
qed

lemma get_scan_pass:
  assumes "faults w = []" and "map_of (ssts w) n = Some bs" and "length bs < 2 ^ 64"
    and "k \<notin> entry_key ` set (read_records X bs)"
  shows "get_scan X k (n # ns) w = get_scan X k ns w"
  using get_scan_file [OF assms(1-3)] assms(4) by blast

section \<open>Lookups after a flush that failed\<close>

text \<open>\<open>answers X l v m\<close>: every lookup in the store \<open>(l, v)\<close> is answered from the map \<open>m\<close>.\<close>

definition answers :: "crates \<Rightarrow> log \<Rightarrow> world \<Rightarrow> (string \<Rightarrow> string option) \<Rightarrow> bool" where
  "answers X l v m \<longleftrightarrow> (\<forall>k. fst (log_get X k (l, v)) = Inr (map_option (Set k) (m k)))"

lemma answers_inv: "log_inv X U (l, v) \<Longrightarrow> answers X l v (disk_map X v)"
  by (simp add: answers_def log_get_map)

lemma answers_scan:
  assumes "disk_ok X U w" and "faults v = []"
    and "\<And>k. memtable_get (log_memtable l) k = None \<Longrightarrow>
      get_scan X k (sort_desc (map fst (ssts v))) v = (Inr (live_entry (latest X w k)), v)"
    and "\<And>k e. memtable_get (log_memtable l) k = Some e \<Longrightarrow> latest X w k = Some e"
  shows "answers X l v (disk_map X w)"
  unfolding answers_def live_latest [symmetric]
proof
  fix k
  show "fst (log_get X k (l, v)) = Inr (live_entry (latest X w k))"
    using assms(2) assms(3,4) [of k]
    by (cases "memtable_get (log_memtable l) k")
      (simp_all add: log_get_def on_snd_def bindS_def calls_ok visible_live)
qed

lemma holds_at:
  assumes "holds X v T"
  shows "\<forall>n \<in> set (sort_desc (map fst (ssts v))).
    map_of (ssts v) n = Some (table_image X (table_named T n)) \<and> table_ok X (table_named T n)"
  using holds_names [OF assms] holds_table [OF assms] by simp

text \<open>The whole table is there: the lookups need neither the WAL nor the memtable.\<close>

lemma holds_full_table:
  assumes "disk_ok X U w" and "clock_ok (Suc n) w"
    and "memtable_values (memtable_of X (wal_entries X w)) \<noteq> []"
    and "torn_table (length (table_image X (memtable_values (memtable_of X (wal_entries X w))))) X
      (memtable_of X (wal_entries X w)) w v"
  shows "holds X v (with_memtable (memtable_of X (wal_entries X w)) w (tables_of X w))"
proof -
  let ?m = "memtable_of X (wal_entries X w)"
  have "ssts v = ssts (flushed X (memtable_values ?m) w)" using assms(4) by (simp add: torn_table_def)
  from holds_cong [OF this]
  show ?thesis
    using holds_flushed [OF disk_okD(2) [OF assms(1)] assms(2) table_ok_memtable [OF assms(1,3)]] assms(3)
    by (simp add: with_memtable_def)
qed

lemma answers_full_table:
  assumes "disk_ok X U w" and "clock_ok (Suc n) w"
    and "memtable_values (memtable_of X (wal_entries X w)) \<noteq> []"
    and "holds X v (with_memtable (memtable_of X (wal_entries X w)) w (tables_of X w))" and "faults v = []"
    and "log_memtable l = memtable_new \<or> log_memtable l = memtable_of X (wal_entries X w)"
  shows "answers X l v (disk_map X w)"
proof (rule answers_scan [OF assms(1,5)])
  let ?m = "memtable_of X (wal_entries X w)"
  let ?T = "with_memtable ?m w (tables_of X w)"
  fix k
  have "store_get ?T k = latest X w k"
    using latest_with_memtable [OF assms(1), where n = n] assms(2,3) by (simp add: table_cost_def)
  then show "get_scan X k (sort_desc (map fst (ssts v))) v = (Inr (live_entry (latest X w k)), v)"
    using get_scan_ok [OF assms(5) holds_at [OF assms(4)], of k] holds_names(1) [OF assms(4)]
    by (simp add: store_get_def newest_first_def)
  show "memtable_get (log_memtable l) k = Some e \<Longrightarrow> latest X w k = Some e" for e
    using assms(6) wal_memtable(5) [OF assms(1)] by (auto simp: latest_def)
qed

text \<open>
  A part of the table is there: the memtable, or its replay from the WAL, has every key the
  torn table can have, and the older tables have the others.
\<close>

lemma answers_torn_table:
  assumes "disk_ok X U w" and "clock_ok (Suc j) w"
    and "torn_table n X (memtable_of X (wal_entries X w)) w v" and "faults v = []"
    and "log_memtable l = memtable_of X (wal_entries X w)"
    and "entry_key ` set (read_records X (take n (table_image X (memtable_values (log_memtable l)))))
      \<subseteq> entry_key ` set (memtable_values (log_memtable l))"
    and "length (table_image X (memtable_values (log_memtable l))) < 2 ^ 64"
  shows "answers X l v (disk_map X w)"
proof (rule answers_scan [OF assms(1,4)])
  let ?m = "memtable_of X (wal_entries X w)" and ?T = "tables_of X w"
  let ?torn = "take n (table_image X (memtable_values ?m))"
  note d = disk_okD [OF assms(1)] and m = wal_memtable [OF assms(1)]
  fix k
  show "memtable_get (log_memtable l) k = Some e \<Longrightarrow> latest X w k = Some e" for e
    using assms(5) m(5) by (simp add: latest_def)
  assume none: "memtable_get (log_memtable l) k = None"
  have fresh: "next_name w \<notin> fst ` set (ssts w)" using assms(2) by (rule clock_ok_fresh)
  have ss: "ssts v = ssts w @ [(next_name w, ?torn)]"
    using assms(3) update_fresh [OF fresh] by (simp add: torn_table_def)
  have less: "\<forall>f \<in> set (map fst (ssts w)). f < next_name w"
    using clock_ok_names [OF assms(2)] by simp
  have names: "sort_desc (map fst (ssts v)) = next_name w # sort_desc (map fst (ssts w))"
    using sort_snoc_greatest [OF less] by (simp add: ss sort_desc_def)
  have look: "map_of (ssts v) f = map_of (ssts w) f" if "f \<in> set (map fst (ssts w))" for f
  proof -
    have "f \<in> fst ` set (ssts w)" using that by (simp only: list.set_map)
    with fresh have "f \<noteq> next_name w" by blast
    then show ?thesis by (simp add: ss map_add_def split: option.split)
  qed
  have "map_of (ssts v) (next_name w) = Some ?torn"
    using fresh by (simp add: ss map_add_def map_of_eq_None_iff [THEN iffD2])
  moreover have "k \<notin> entry_key ` set (read_records X ?torn)"
    using assms(5,6) none memtable_get_lookup [OF m(1)] by (auto simp: lookup_entry_None_iff)
  moreover have "length ?torn < 2 ^ 64" using assms(5,7) by simp
  ultimately have "get_scan X k (sort_desc (map fst (ssts v))) v = get_scan X k (sort_desc (map fst (ssts w))) v"
    unfolding names by (intro get_scan_pass [OF assms(4)])
  also have "\<dots> = (Inr (live_entry (newest (map (table_named ?T) (sort_desc (map fst (ssts w)))) k)), v)"
  proof (rule get_scan_ok [OF assms(4)], intro ballI)
    fix f assume f: "f \<in> set (sort_desc (map fst (ssts w)))"
    from bspec [OF holds_at [OF d(2)] f] look f show "map_of (ssts v) f = Some (table_image X (table_named ?T f)) \<and>
        table_ok X (table_named ?T f)" by simp
  qed
  also have "newest (map (table_named ?T) (sort_desc (map fst (ssts w)))) k = latest X w k"
    using none assms(5) m(5) holds_names(1) [OF d(2)]
    by (simp add: latest_def store_get_def newest_first_def)
  finally show "get_scan X k (sort_desc (map fst (ssts v))) v = (Inr (live_entry (latest X w k)), v)" .
qed

text \<open>
  A flush that fails, or is interrupted, anywhere: all lookups are answered as before, by this
  process and by the next one. What a torn table can give to the reader is a hypothesis on
  its bytes; it holds of every cut at which the rest is quiet.
\<close>

lemma wal_ok_kept_or_emptied:
  assumes "wal_ok X U w" and "wal v = wal w \<or> wal v = []"
  shows "wal_ok X U v"
  using assms(2)
proof
  assume "wal v = wal w"
  with assms(1) wal_ok_cong show ?thesis by blast
next
  assume "wal v = []"
  with wal_okD(1) [OF assms(1)] appendable_records [of X U "[]"] show ?thesis
    by (simp add: wal_ok_def wal_entries_empty)
qed

lemma length_update_le: "length (AList.update n b al) \<le> Suc (length al)"
  by (induction al) auto

lemma log_flush_crash:
  assumes "log_inv X U (l, w)" and "clock_ok (Suc n) w" and "\<not> compaction_due l"
    and "memtable_values (log_memtable l) \<noteq> []" and "Suc (length (ssts w)) < 2 ^ 64"
    and "\<forall>i. entry_key ` set (read_records X (take i (table_image X (memtable_values (log_memtable l)))))
      \<subseteq> entry_key ` set (memtable_values (log_memtable l))"
    and "log_flush X (l, w\<lparr>faults := fs\<rparr>) = (r, (l', v))"
  shows "answers X l' (calm v) (disk_map X w)"
    and "\<exists>l''. log_new X False (calm v) = (Inr l'', calm v) \<and> answers X l'' (calm v) (disk_map X w)"
proof -
  note i = log_invD [OF assms(1)]
  note d = disk_okD [OF i(1)] and m = wal_memtable [OF i(1)]
  let ?m = "memtable_of X (wal_entries X w)"
  let ?T = "with_memtable ?m w (tables_of X w)"
  let ?full = "torn_table (length (table_image X (memtable_values ?m))) X ?m w"
  have ne: "memtable_values ?m \<noteq> []" using assms(4) i(4) by simp
  have vals: "memtable_len ?m * 10 < 2 ^ 32" using m(3) d(6) by simp
  have c0: "0 \<le> clock (w\<lparr>faults := fs\<rparr>) (ticks (w\<lparr>faults := fs\<rparr>))" using clock_ok_now [OF assms(2)] by simp
  have small: "length (table_image X (memtable_values ?m)) < 2 ^ 64"
    using table_okD(5) [OF table_ok_memtable [OF i(1) ne]] .
  note whole = answers_full_table [OF i(1) assms(2) ne]
  have reopen: "\<exists>l''. log_new X False (calm v) = (Inr l'', calm v) \<and>
      log_memtable l'' = memtable_of X (wal_entries X v)"
    if "wal v = wal w \<or> wal v = []" "length (ssts v) \<le> Suc (length (ssts w))"
  proof -
    have "wal_ok X U v" using wal_ok_kept_or_emptied [OF disk_ok_wal [OF i(1)] that(1)] .
    then have "wal_ok X U (calm v)" using wal_ok_cong [of "calm v" v] by simp
    from log_new_wal [OF this] that(2) assms(5) show ?thesis by auto
  qed
  have at_v: "holds X (calm v) ?T" if "?full u" "ssts v = ssts u" for u
    using holds_full_table [OF i(1) assms(2) ne that(1)] that(2) holds_cong [of "calm v" u] by simp
  have "answers X l' (calm v) (disk_map X w) \<and>
      (\<exists>l''. log_new X False (calm v) = (Inr l'', calm v) \<and> answers X l'' (calm v) (disk_map X w))"
  proof (cases rule: log_flush_outcome [OF _ _ _ c0 i(3) assms(3,7)])
    case 1
    show ?case using m(1) by (simp add: i(4))
  next
    case 2
    show ?case by (rule assms(4))
  next
    case 3
    show ?case using vals by (simp add: i(4))
  next
    case 4
    then have c: "wal (calm v) = wal w" "ssts (calm v) = ssts w" by simp_all
    have "log_inv X U (l, calm v)"
      using disk_ok_cong [OF c] wal_entries_cong [OF c(1)] i by (simp add: log_inv_def memtable_of_def)
    moreover obtain l'' where "log_new X False (calm v) = (Inr l'', calm v)" "log_inv X U (l'', calm v)"
      using log_new_ok [of X U "calm v"] disk_ok_cong [OF c] i(1) c(2) assms(5) by auto
    ultimately show ?thesis using answers_inv disk_map_cong [OF c] 4(2) by fastforce
  next
    case (5 n)
    then have t: "torn_table n X ?m w (calm v)" and l: "l' = l"
      by (simp_all add: i(4) torn_table_def next_name_def)
    then have "wal v = wal w" and "length (ssts v) \<le> Suc (length (ssts w))"
      using length_update_le [of "next_name w"] by (simp_all add: torn_table_def)
    with reopen wal_entries_cong [of v w X] obtain l'' where
      l'': "log_new X False (calm v) = (Inr l'', calm v)" "log_memtable l'' = ?m" by auto
    have "answers X x (calm v) (disk_map X w)" if "log_memtable x = ?m" for x
      using answers_torn_table [OF i(1) assms(2) t _ that] assms(6) small that by (simp add: i(4))
    with l l'' i(4) show ?thesis by auto
  next
    case 6
    then have t: "?full v" by (simp add: i(4) torn_table_def next_name_def)
    then have "wal v = wal w" and "length (ssts v) \<le> Suc (length (ssts w))"
      using length_update_le [of "next_name w"] by (simp_all add: torn_table_def)
    with reopen wal_entries_cong [of v w X] whole [OF at_v [OF t]] 6(2) show ?thesis by auto
  next
    case (7 u)
    then have t: "?full u" by (simp add: i(4) torn_table_def next_name_def)
    then have "length (ssts v) \<le> Suc (length (ssts w))"
      using length_update_le [of "next_name w"] 7(5) by (simp add: torn_table_def)
    with reopen whole [OF at_v [OF t 7(5)]] 7(1,4) show ?thesis
      by (auto simp: wal_entries_empty memtable_of_def)
  qed
  then show "answers X l' (calm v) (disk_map X w)"
    and "\<exists>l''. log_new X False (calm v) = (Inr l'', calm v) \<and> answers X l'' (calm v) (disk_map X w)" by blast+
qed

section \<open>A compaction that is interrupted\<close>

text \<open>The deletions stop at the first one that fails, with the files before it gone.\<close>

lemma remove_files_outcome:
  assumes "remove_files ns w = (r, v)" and "distinct ns" and "set ns \<subseteq> fst ` set (ssts w)"
  obtains j where "j \<le> length ns" and "wal v = wal w" and "clock v = clock w" and "ticks v = ticks w"
    and "ssts v = filter (\<lambda>p. fst p \<notin> set (take j ns)) (ssts w)" and "r = Inr () \<longleftrightarrow> j = length ns"
  using assms
proof (induction ns arbitrary: w thesis)
  case Nil
  from Nil(1) [of 0] Nil(2) show ?case by simp
next
  case (Cons n ns)
  obtain r1 u where c: "os_call w = (r1, u)" by fastforce
  then obtain fs where u: "u = w\<lparr>faults := fs\<rparr>" using os_call_world by blast
  show ?case
  proof (cases r1)
    case (Inl e)
    then have "r = Inl e" "v = u" using Cons.prems(2) c by (simp_all add: remove_file_def bindS_def)
    with u Cons.prems(1) [of 0] show ?thesis by simp
  next
    case (Inr x)
    let ?w = "u\<lparr>ssts := AList.delete n (ssts w)\<rparr>"
    have "n \<in> set (map fst (ssts w))" using Cons.prems(4) by auto
    then have run: "remove_files ns ?w = (r, v)"
      using Cons.prems(2) c Inr u by (simp add: remove_file_def bindS_def)
    have "set ns \<subseteq> fst ` set (ssts ?w)" using Cons.prems(3,4) by (fastforce simp: delete_filter)
    then obtain j where j: "j \<le> length ns" "wal v = wal ?w" "clock v = clock ?w" "ticks v = ticks ?w"
        "ssts v = filter (\<lambda>p. fst p \<notin> set (take j ns)) (ssts ?w)" "r = Inr () \<longleftrightarrow> j = length ns"
      using Cons.IH [OF _ run] Cons.prems(3) by auto
    have "filter (\<lambda>p. fst p \<notin> set (take j ns)) (AList.delete n (ssts w)) =
        filter (\<lambda>p. fst p \<notin> set (take (Suc j) (n # ns))) (ssts w)"
      unfolding delete_filter filter_filter by (rule filter_cong) auto
    with j u Cons.prems(1) [of "Suc j"] show ?thesis by simp
  qed
qed

lemma newest_append: "newest (as @ bs) k = (case newest as k of None \<Rightarrow> newest bs k | Some e \<Rightarrow> Some e)"
  by (induction as) (auto split: option.splits)

lemma sort_append_less:
  fixes ms ns :: "'a::linorder list"
  shows "\<forall>m \<in> set ms. \<forall>n \<in> set ns. m < n \<Longrightarrow> sort (ms @ ns) = sort ms @ sort ns"
  by (rule properties_for_sort) (auto simp: sorted_append intro: less_imp_le)

lemma newest_first_append:
  assumes "\<forall>m \<in> fst ` set T. \<forall>n \<in> fst ` set V. m < n"
  shows "newest_first (T @ V) = newest_first V @ newest_first T"
proof -
  have "sort_desc (map fst (T @ V)) = sort_desc (map fst V) @ sort_desc (map fst T)"
    using sort_append_less [of "map fst T" "map fst V"] assms by (simp add: sort_desc_def)
  moreover have "table_named (T @ V) m = table_named T m" if "m \<in> fst ` set T" for m
    using assms that by (intro table_named_append(1)) blast
  moreover have "table_named (T @ V) m = table_named V m" if "m \<in> fst ` set V" for m
    using assms that by (intro table_named_append(2)) blast
  ultimately show ?thesis by (simp add: newest_first_def)
qed

lemma map_of_filter_key: "P n \<Longrightarrow> map_of (filter (\<lambda>p. P (fst p)) al) n = map_of al n"
  by (induction al) auto

lemma newest_first_drop:
  assumes "distinct (map fst T)"
  shows "newest_first (filter (\<lambda>p. fst p \<notin> set (take j (sort_desc (map fst T)))) T) = drop j (newest_first T)"
proof -
  let ?ns = "sort_desc (map fst T)"
  let ?P = "\<lambda>n. n \<notin> set (take j ?ns)"
  let ?V = "filter (\<lambda>p. ?P (fst p)) T"
  have "map fst ?V = filter ?P (map fst T)" by (simp add: filter_map comp_def)
  then have "sort_desc (map fst ?V) = filter ?P ?ns"
    by (simp add: sort_desc_def filter_sort rev_filter [symmetric])
  also have "filter ?P ?ns = drop j ?ns"
  proof -
    have d: "distinct ?ns" using assms by simp
    have "filter ?P (take j ?ns @ drop j ?ns) = drop j ?ns"
      using set_take_disj_set_drop_if_distinct [OF d, of j j]
      by (simp only: filter_append) (auto simp: filter_empty_conv intro!: filter_True)
    then show ?thesis by simp
  qed
  finally have names: "sort_desc (map fst ?V) = drop j ?ns" .
  have "table_named ?V n = table_named T n" if "n \<in> set (drop j ?ns)" for n
  proof -
    have "?P n" using that set_take_disj_set_drop_if_distinct [of ?ns j j] assms by auto
    then have "map_of ?V n = map_of T n" by (rule map_of_filter_key)
    then show ?thesis by (simp add: table_named_def)
  qed
  with names show ?thesis by (simp add: newest_first_def drop_map)
qed

lemma compact_cut:
  assumes "holds X w T" and "length ns = length (compacted X T)" and "sorted_wrt (<) ns"
    and "\<forall>n \<in> set ns. \<forall>m \<in> fst ` set T. m < n"
  shows "store_get (filter (\<lambda>p. fst p \<notin> set (take j (sort_desc (map fst T)))) T @ zip ns (compacted X T)) k =
    (case live_entry (store_get T k) of Some e \<Rightarrow> Some e | None \<Rightarrow> newest (drop j (newest_first T)) k)"
proof -
  let ?V = "filter (\<lambda>p. fst p \<notin> set (take j (sort_desc (map fst T)))) T"
  have "\<forall>m \<in> fst ` set ?V. \<forall>n \<in> fst ` set (zip ns (compacted X T)). m < n"
    using assms(4) set_zip_leftD by fastforce
  then have "newest_first (?V @ zip ns (compacted X T)) = rev (compacted X T) @ drop j (newest_first T)"
    using newest_first_append newest_first_zip [OF assms(2,3)] newest_first_drop [of T j] assms(1)
    by (simp add: holds_def)
  moreover have "newest (rev (compacted X T)) k = live_entry (store_get T k)"
    using store_get_compacted [OF assms(1-3), of k] by (simp add: store_get_def newest_first_zip [OF assms(2,3)])
  ultimately show ?thesis by (simp add: store_get_def newest_append split: option.split)
qed

end
