(* ===== verification/Recovery.thy ===== *)
theory Recovery
  imports Crash
begin

text \<open>
  Writes while any of the calls to the operating system can fail, in any order and any number
  of times: what the WAL then holds, what the running process answers, and what a process
  that opens the store later finds.
\<close>

section \<open>Records that are cut off\<close>

text \<open>The beginning of a record is no record.\<close>

lemma torn_no_record:
  assumes "entry_ok X e" and "n < length (record_bytes X e)"
  shows "\<exists>c. header_deserialize X (take n (record_bytes X e)) = Inl c"
proof (cases "header_deserialize X (take n (record_bytes X e))")
  case (Inr r)
  obtain d k where r: "r = (d, k)" by (cases r)
  then have "header_deserialize X (record_bytes X e) = Inr (d, k)" using header_deserialize_take Inr by blast
  then have "k = length (record_bytes X e)" using hdr.decode_enc [OF assms(1), of "[]"] by simp
  moreover have "k \<le> length (take n (record_bytes X e))"
  proof -
    obtain p rest where p: "take n (record_bytes X e) = u16_to_le_bytes MAGIC @ u32_to_le_bytes (crc32 X p) @
        u32_to_le_bytes (of_nat (length p)) @ p @ rest" "k = HEADER_LEN + length p"
      using Inr [unfolded r header_deserialize_Inr_iff] by blast
    show ?thesis unfolding p(1) using p(2) by (simp add: HEADER_LEN_def)
  qed
  ultimately show ?thesis using assms(2) by simp
qed simp

text \<open>
  \<open>unnested X e\<close>: no record begins within the record of \<open>e\<close>. An entry whose record has the two
  magic bytes only at its start is unnested. If a write breaks off, the part that is left of an
  unnested entry holds no record.
\<close>

definition unnested :: "crates \<Rightarrow> entry \<Rightarrow> bool" where
  "unnested X e \<longleftrightarrow> quiet X (tl (record_bytes X e)) []"

lemma record_bytes_Cons: "record_bytes X e = hd (record_bytes X e) # tl (record_bytes X e)"
proof -
  have "0 < length (record_bytes X e)" by (simp add: HEADER_LEN_def)
  then show ?thesis by (metis hd_Cons_tl length_greater_0_conv)
qed

lemma cut_record_quiet:
  assumes "entry_ok X e" and "unnested X e" and "n < length (record_bytes X e)"
  shows "quiet X (take n (record_bytes X e)) []"
  unfolding quiet_iff
proof (intro allI impI)
  fix i assume i: "i < length (take n (record_bytes X e))"
  show "\<exists>c. header_deserialize X (drop i (take n (record_bytes X e) @ [])) = Inl c"
  proof (cases i)
    case 0
    then show ?thesis using torn_no_record [OF assms(1,3)] by simp
  next
    case (Suc j)
    have "take n (record_bytes X e) = hd (record_bytes X e) # take (n - 1) (tl (record_bytes X e))"
      using i Suc record_bytes_Cons [of X e] by (metis take_Cons' list.size(3) not_less_zero take_0)
    then have "drop i (take n (record_bytes X e) @ []) = drop j (take (n - 1) (tl (record_bytes X e)) @ [])"
      and "j < length (take (n - 1) (tl (record_bytes X e)))" using i Suc by simp_all
    then show ?thesis using quiet_take [OF assms(2) [unfolded unnested_def], of "n - 1"] unfolding quiet_iff by simp
  qed
qed

lemma read_cut_records:
  assumes "\<forall>e \<in> set es. entry_ok X e \<and> unnested X e" and "quiet X foot []"
  shows "\<exists>i. read_records X (take n (records_bytes X es @ foot)) = take i es"
  using assms(1)
proof (induction es arbitrary: n)
  case Nil
  show ?case using read_records_quiet [OF quiet_take [OF assms(2)]] by simp
next
  case (Cons e es)
  let ?r = "record_bytes X e"
  have e: "entry_ok X e" "unnested X e" using Cons.prems by simp_all
  have bytes: "records_bytes X (e # es) @ foot = ?r @ records_bytes X es @ foot" by simp
  show ?case
  proof (cases "length ?r \<le> n")
    case True
    obtain i where i: "read_records X (take (n - length ?r) (records_bytes X es @ foot)) = take i es"
      using Cons.IH Cons.prems by fastforce
    have "take n (records_bytes X (e # es) @ foot) = ?r @ take (n - length ?r) (records_bytes X es @ foot)"
      using True unfolding bytes by simp
    with i hdr.read_all_enc [of X e] e(1) have
      "read_records X (take n (records_bytes X (e # es) @ foot)) = take (Suc i) (e # es)" by simp
    then show ?thesis by blast
  next
    case False
    then have "take n (records_bytes X (e # es) @ foot) = take n ?r" unfolding bytes by simp
    with read_records_quiet [OF cut_record_quiet [OF e]] False
    have "read_records X (take n (records_bytes X (e # es) @ foot)) = take 0 (e # es)" by simp
    then show ?thesis by blast
  qed
qed

text \<open>A table cut off anywhere holds a prefix of its entries.\<close>

lemma read_cut_table:
  assumes "universe X U" and "\<forall>e \<in> U. unnested X e" and "set es \<subseteq> U" and "key_sorted es"
  shows "\<exists>i. read_records X (take n (table_image X es)) = take i es"
  unfolding table_image_footer
  using assms(2,3) universeD(1) [OF assms(1)] by (intro read_cut_records universeD(3) [OF assms(1,3,4)]) blast

text \<open>
  A WAL of whole records, as every success leaves it. The last record of a write that fails can
  be cut off behind them.
\<close>

definition intact :: "crates \<Rightarrow> world \<Rightarrow> bool" where
  "intact X w \<longleftrightarrow> wal w = records_bytes X (wal_entries X w)"

lemma intact_cong: "wal v = wal w \<Longrightarrow> intact X v = intact X w"
  by (simp add: intact_def wal_entries_def)

lemma intact_empty: "wal w = [] \<Longrightarrow> intact X w"
  by (simp add: intact_def wal_entries_empty)

lemma intact_kept: "wal v = wal w \<or> wal v = [] \<Longrightarrow> intact X w \<Longrightarrow> intact X v"
  using intact_cong intact_empty by blast

lemma read_records_cut:
  assumes "list_all (entry_ok X) (es @ [e])" and "n < length (record_bytes X e) \<longrightarrow> unnested X e"
  shows "read_records X (records_bytes X es @ take n (record_bytes X e)) =
    (if n < length (record_bytes X e) then es else es @ [e])"
proof (cases "n < length (record_bytes X e)")
  case True
  have "read_records X (take n (record_bytes X e)) = []"
    using assms True by (intro read_records_quiet cut_record_quiet) simp_all
  with True assms(1) hdr.read_all_append [of X es "take n (record_bytes X e)"] show ?thesis
    by (simp add: records_bytes_def)
next
  case False
  with read_records_bytes [OF assms(1)] show ?thesis by simp
qed

lemma wal_entries_records:
  "list_all (entry_ok X) es \<Longrightarrow> wal_entries X (v\<lparr>wal := records_bytes X es\<rparr>) = es"
  by (simp add: wal_entries_def read_records_bytes)

section \<open>Writes under faults\<close>

text \<open>
  The state between writes when any calls can fail: the tables are a store, and the memtable has
  the writes that returned, and nothing else. The WAL can be anything.
\<close>

definition faulty :: "crates \<Rightarrow> entry set \<Rightarrow> entry list \<Rightarrow> log \<times> world \<Rightarrow> bool" where
  "faulty X U acked s \<longleftrightarrow> universe X U \<and> holds X (snd s) (tables_of X (snd s)) \<and>
     (\<forall>p \<in> set (tables_of X (snd s)). set (snd p) \<subseteq> U) \<and> fid (wal_file (fst s)) = Wal \<and>
     log_memtable (fst s) = memtable_of X acked \<and> set acked \<subseteq> U \<and> length acked \<le> MAX_WAL_ENTRIES"

lemma faulty_inv:
  assumes "log_inv X U (l, w)"
  shows "faulty X U (wal_entries X w) (l, w\<lparr>faults := fs\<rparr>)"
proof -
  have "tables_of X (w\<lparr>faults := fs\<rparr>) = tables_of X w" by (rule tables_of_cong) simp
  with log_invD [OF assms] disk_okD [OF log_invD(1) [OF assms]] show ?thesis
    by (auto simp: faulty_def holds_def MAX_WAL_ENTRIES_def)
qed

lemma faulty_memtable:
  assumes "faulty X U acked (l, w)"
  shows "list_all (entry_ok X) acked" and "length acked \<le> 2 ^ 29" and "memtable_wf X (log_memtable l)"
    and "e \<in> U \<Longrightarrow> entry_ok X e \<and> tracked (log_memtable l) + esize X e < 2 ^ 64"
proof -
  have u: "universe X U" and m: "log_memtable l = memtable_of X acked" and le: "length acked \<le> 2 ^ 28"
    using assms by (simp_all add: faulty_def MAX_WAL_ENTRIES_def)
  show ok: "list_all (entry_ok X) acked" using assms universeD(2) [OF u] by (simp add: faulty_def)
  show n: "length acked \<le> 2 ^ 29" using le by simp
  note f = memtable_of_facts [OF ok n]
  show "memtable_wf X (log_memtable l)" using f(1) m by simp
  assume "e \<in> U"
  then have "entry_ok X e" by (rule universeD(1) [OF u])
  with f(2) le esize_bound [of X e] show "entry_ok X e \<and> tracked (log_memtable l) + esize X e < 2 ^ 64"
    by (simp add: m)
qed

lemma memtable_of_snoc: "memtable_of X (es @ [e]) = inserted X e (memtable_of X es)"
  by (simp add: memtable_of_def)

lemma faulty_write:
  assumes "faulty X U acked (l, w)" and "e \<in> U" and "length acked < MAX_WAL_ENTRIES"
    and "log_write X e (l, w) = (r, (l', v))"
  shows "faulty X U (if r = Inr () then acked @ [e] else acked) (l', v)" and "ssts v = ssts w"
    and "\<exists>n. wal v = wal w @ take n (record_bytes X e) \<and> (r = Inr () \<longrightarrow> n = length (record_bytes X e))"
proof -
  note m = faulty_memtable [OF assms(1)]
  have fid: "fid (wal_file l) = Wal" using assms(1) by (simp add: faulty_def)
  note o = log_write_outcome [OF m(4) [OF assms(2), THEN conjunct1] fid m(3) m(4) [OF assms(2), THEN conjunct2] assms(4)]
  obtain n where n: "grown Wal (take n (record_bytes X e)) w v" "r = Inr () \<longrightarrow> n = length (record_bytes X e)"
  proof (cases "r = Inr ()")
    case True
    with o(4) that [of "length (record_bytes X e)"] show ?thesis by simp
  next
    case False
    with o(3) that show ?thesis by blast
  qed
  then show v: "ssts v = ssts w" by (auto simp: grown_Wal)
  have "wal v = wal w @ take n (record_bytes X e)" using n(1) by (auto simp: grown_Wal)
  with n(2) show "\<exists>n. wal v = wal w @ take n (record_bytes X e) \<and> (r = Inr () \<longrightarrow> n = length (record_bytes X e))"
    by blast
  have "log_memtable l' = memtable_of X (if r = Inr () then acked @ [e] else acked)"
    using o(4,5) assms(1) by (cases r) (simp_all add: memtable_of_snoc faulty_def)
  then show "faulty X U (if r = Inr () then acked @ [e] else acked) (l', v)"
    using assms(1-3) o(1) tables_of_cong [OF v] holds_cong [OF v] by (simp add: faulty_def)
qed

text \<open>A sequence of writes by a client that goes on whatever happens, with all results.\<close>

fun write_run :: "crates \<Rightarrow> entry list \<Rightarrow> log \<times> world \<Rightarrow> (err + unit) list \<times> log \<times> world" where
  "write_run X [] s = ([], s)"
| "write_run X (e # es) s = (case log_write X e s of (r, t) \<Rightarrow>
     case write_run X es t of (rs, u) \<Rightarrow> (r # rs, u))"

text \<open>The elements of a list that are marked.\<close>

definition pick :: "bool list \<Rightarrow> 'a list \<Rightarrow> 'a list" where
  "pick bs xs = map fst (filter snd (zip xs bs))"

lemma pick_simps [simp]:
  "pick [] xs = []" "pick bs [] = []" "pick (b # bs) (x # xs) = (if b then [x] else []) @ pick bs xs"
  by (simp_all add: pick_def)

lemma write_run_faulty:
  assumes "faulty X U acked (l, w)" and "set es \<subseteq> U" and "length acked + length es \<le> MAX_WAL_ENTRIES"
    and "write_run X es (l, w) = (rs, (l', v))"
  shows "length rs = length es \<and> ssts v = ssts w \<and> faulty X U (acked @ pick (map (\<lambda>r. r = Inr ()) rs) es) (l', v)"
  using assms
proof (induction es arbitrary: acked l w rs)
  case (Cons e es)
  obtain r l1 w1 where wr: "log_write X e (l, w) = (r, (l1, w1))" by (metis surj_pair)
  obtain rs' where wrs: "write_run X es (l1, w1) = (rs', (l', v))" and rs: "rs = r # rs'"
    using Cons.prems(4) wr by (auto split: prod.splits)
  have e: "e \<in> U" "length acked < MAX_WAL_ENTRIES" using Cons.prems(2,3) by simp_all
  note f = faulty_write [OF Cons.prems(1) e wr]
  have es: "set es \<subseteq> U" "length (if r = Inr () then acked @ [e] else acked) + length es \<le> MAX_WAL_ENTRIES"
    using Cons.prems(2,3) by simp_all
  from Cons.IH [OF f(1) es wrs] f(2) rs show ?case by (auto split: if_splits)
qed auto

text \<open>
  \<open>untorn w\<close>: no call that will fail leaves a part of its bytes behind. Then a write leaves
  its whole record or nothing of it, and what the WAL has are whole records.
\<close>

definition untorn :: "world \<Rightarrow> bool" where
  "untorn w \<longleftrightarrow> set (faults w) \<subseteq> {None, Some 0}"

lemma untorn_pop: "untorn w \<Longrightarrow> untorn (snd (pop_fault w)) \<and> (fst (pop_fault w) = None \<or> fst (pop_fault w) = Some 0)"
  by (auto simp: untorn_def pop_fault_def split: list.split)

lemma untorn_os_call: "untorn w \<Longrightarrow> os_call w = (r, v) \<Longrightarrow> untorn v \<and> wal v = wal w"
  by (auto simp: untorn_def os_call_def pop_fault_def split: list.splits option.splits)

lemma header_write_untorn:
  assumes "entry_ok X e" and "fid h = Wal" and "untorn w" and "header_write X e (h, w) = (r, (h', v))"
  shows "untorn v \<and> (\<exists>k. wal v = wal w @ (if k then record_bytes X e else []) \<and> (r = Inr () \<longrightarrow> k))"
proof -
  obtain r1 w1 where o: "os_call w = (r1, w1)" by fastforce
  note u1 = untorn_os_call [OF assms(3) o]
  obtain f2 w2 where p2: "pop_fault w1 = (f2, w2)" by fastforce
  have u2: "untorn w2" "f2 = None \<or> f2 = Some 0" "wal w2 = wal w1"
    using untorn_pop [of w1] u1 p2 by (auto simp: pop_fault_def split: list.splits)
  show ?thesis
  proof (cases r1)
    case (Inl x)
    then show ?thesis using assms(4) o u1
      by (auto simp: header_write_def bindS_def seek_end_def on_snd_def intro: exI [of _ False])
  next
    case (Inr x)
    have "header_write X e (h, w) = write_all (record_bytes X e) (h\<lparr>cur := length (wal w1)\<rparr>, w1)"
      using o Inr assms(1,2) by (simp add: header_write_def bindS_def seek_end_def on_snd_def set_cur_def file_len_def
          of_result_def header_serialize_ok contents.simps)
    then have w: "write_all (record_bytes X e) (h\<lparr>cur := length (wal w1)\<rparr>, w1) = (r, (h', v))" using assms(4) by simp
    have c: "contents w2 (fid h) = wal w" using assms(2) u1 u2(3) by (simp add: contents.simps)
    from u2(2) show ?thesis
    proof
      assume f: "f2 = None"
      then have "v = w2\<lparr>wal := wal w @ record_bytes X e\<rparr>"
        using w p2 c u1 assms(2) by (auto simp: write_all_def put_bytes_def Let_def overwrite_def set_contents.simps)
      with u2(1) show ?thesis by (intro conjI exI [of _ True]) (simp_all add: untorn_def)
    next
      assume f: "f2 = Some 0"
      then have "v = w2\<lparr>wal := wal w\<rparr>" "r = Inl IoError"
        using w p2 c u1 assms(2) by (auto simp: write_all_def put_bytes_def Let_def overwrite_def set_contents.simps)
      with u2(1) show ?thesis by (intro conjI exI [of _ False]) (simp_all add: untorn_def)
    qed
  qed
qed

lemma log_write_untorn:
  assumes "faulty X U acked (l, w)" and "e \<in> U" and "untorn w" and "log_write X e (l, w) = (r, (l', v))"
  shows "untorn v \<and> (\<exists>k. wal v = wal w @ (if k then record_bytes X e else []) \<and> (r = Inr () \<longrightarrow> k))"
proof -
  have fid: "fid (wal_file l) = Wal" using assms(1) by (simp add: faulty_def)
  have e: "entry_ok X e" using faulty_memtable(4) [OF assms(1,2)] by blast
  obtain r1 h1 w1 where hw: "header_write X e (wal_file l, w) = (r1, (h1, w1))" by (metis surj_pair)
  note u1 = header_write_untorn [OF e fid assms(3) hw]
  obtain r2 w2 where o: "os_call w1 = (r2, w2)" by fastforce
  have u2: "untorn w2" "wal w2 = wal w1" using untorn_os_call [OF _ o] u1 by simp_all
  have v: "v = (case r1 of Inl _ \<Rightarrow> w1 | Inr _ \<Rightarrow> w2)" and r: "r = Inr () \<longrightarrow> r1 = Inr ()"
    using assms(4) hw o
    by (cases r1; cases r2; simp add: log_write_def bindS_def on_wal_def on_memtable_def on_fst_def sync_all_def
        on_snd_def ret_def split: prod.splits sum.splits; metis)+
  show ?thesis
  proof (cases r1)
    case (Inl x)
    with v r u1 show ?thesis by (metis old.sum.simps(5))
  next
    case (Inr x)
    with v have "v = w2" by simp
    with u2 u1 r show ?thesis by metis
  qed
qed

lemma write_run_untorn:
  assumes "faulty X U acked (l, w)" and "set es \<subseteq> U" and "length acked + length es \<le> MAX_WAL_ENTRIES"
    and "untorn w" and "write_run X es (l, w) = (rs, (l', v))"
  shows "\<exists>kept. wal v = wal w @ records_bytes X (pick kept es) \<and> list_all2 (\<lambda>r b. r = Inr () \<longrightarrow> b) rs kept"
  using assms
proof (induction es arbitrary: acked l w rs)
  case Nil
  then show ?case by (auto intro: exI [of _ "[]"])
next
  case (Cons e es)
  obtain r l1 w1 where wr: "log_write X e (l, w) = (r, (l1, w1))" by (metis surj_pair)
  obtain rs' where wrs: "write_run X es (l1, w1) = (rs', (l', v))" and rs: "rs = r # rs'"
    using Cons.prems(5) wr by (auto split: prod.splits)
  have e: "e \<in> U" "length acked < MAX_WAL_ENTRIES" using Cons.prems(2,3) by simp_all
  note f = faulty_write [OF Cons.prems(1) e wr]
  obtain k where k: "untorn w1" "wal w1 = wal w @ (if k then record_bytes X e else [])" "r = Inr () \<longrightarrow> k"
    using log_write_untorn [OF Cons.prems(1) e(1) Cons.prems(4) wr] by blast
  have es: "set es \<subseteq> U" "length (if r = Inr () then acked @ [e] else acked) + length es \<le> MAX_WAL_ENTRIES"
    using Cons.prems(2,3) by simp_all
  obtain kept where "wal v = wal w1 @ records_bytes X (pick kept es)" "list_all2 (\<lambda>r b. r = Inr () \<longrightarrow> b) rs' kept"
    using Cons.IH [OF f(1) es k(1) wrs] by blast
  with k rs show ?case by (intro exI [of _ "k # kept"]) auto
qed

section \<open>What the map is afterwards\<close>

text \<open>Entries behind the old ones of a WAL change the map one after the other.\<close>

lemma disk_map_more:
  assumes "ssts v = ssts w" and "wal_entries X v = wal_entries X w @ es"
  shows "disk_map X v = fold apply_entry es (disk_map X w)"
proof -
  let ?m = "\<lambda>es k. case (case lookup_entry (rev (wal_entries X w @ es)) k of
      Some e \<Rightarrow> Some e | None \<Rightarrow> store_get (tables_of X w) k) of None \<Rightarrow> None | Some e \<Rightarrow> entry_value e"
  have "?m es = fold apply_entry es (?m [])"
  proof (induction es rule: rev_induct)
    case (snoc e es)
    have "?m (es @ [e]) = apply_entry e (?m es)" by (rule ext) (simp add: apply_entry_def)
    with snoc show ?case by simp
  qed simp
  moreover have "disk_map X v = ?m es"
    using tables_of_cong [OF assms(1), of X] assms(2)
    by (intro ext) (simp only: disk_map_def latest_def)
  moreover have "disk_map X w = ?m []" by (intro ext) (simp add: disk_map_def latest_def)
  ultimately show ?thesis by simp
qed

text \<open>
  What a process answers whose memtable is made of some entries: it does not look into the WAL.
\<close>

lemma faulty_answers:
  assumes "faulty X U acked (l, w)"
  shows "answers X l (calm w) (disk_map X (w\<lparr>wal := records_bytes X acked\<rparr>))"
proof -
  let ?w = "w\<lparr>wal := records_bytes X acked\<rparr>"
  have u: "universe X U" and acked: "set acked \<subseteq> U" "length acked \<le> MAX_WAL_ENTRIES"
    and lm: "log_memtable l = memtable_of X acked" and h: "holds X w (tables_of X w)"
    using assms by (auto simp: faulty_def)
  have we: "wal_entries X ?w = acked" by (rule wal_entries_records [OF faulty_memtable(1) [OF assms]])
  have T: "tables_of X ?w = tables_of X w" by (rule tables_of_cong) simp
  have h': "holds X (calm w) (tables_of X w)" using h by (simp add: holds_def)
  have ok: "disk_ok X U ?w"
    using assms u acked we appendable_records [OF u acked(1)] T h
    by (simp add: faulty_def disk_ok_def wal_ok_def holds_def)
  note look = wal_memtable(5) [OF ok, unfolded we]
  show ?thesis
  proof (rule answers_scan [OF ok])
    fix k assume "memtable_get (log_memtable l) k = None"
    then have "latest X ?w k = newest (newest_first (tables_of X w)) k"
      using look [of k] lm by (simp add: latest_def we T store_get_def)
    with get_scan_ok [OF _ holds_at [OF h'], of k] holds_names(1) [OF h']
    show "get_scan X k (sort_desc (map fst (ssts (calm w)))) (calm w) =
        (Inr (live_entry (latest X ?w k)), calm w)"
      by (simp add: newest_first_def)
  next
    fix k e assume "memtable_get (log_memtable l) k = Some e"
    with look [of k] lm show "latest X ?w k = Some e" by (simp add: latest_def we)
  qed simp
qed

lemma faulty_answers_more:
  assumes "faulty X U (wal_entries X w @ es) (l, v)" and "ssts v = ssts w"
  shows "answers X l (calm v) (fold apply_entry es (disk_map X w))"
proof -
  have "wal_entries X (v\<lparr>wal := records_bytes X (wal_entries X w @ es)\<rparr>) = wal_entries X w @ es"
    by (rule wal_entries_records [OF faulty_memtable(1) [OF assms(1)]])
  from disk_map_more [OF _ this] assms(2) faulty_answers [OF assms(1)] show ?thesis by simp
qed

text \<open>
  A process that opens a store whose WAL has the records of the old entries and of some more,
  and possibly a part of another one.
\<close>

lemma reopened_answers:
  assumes "disk_ok X U w" and "intact X w" and "set es \<subseteq> U" and "length (wal_entries X w) + length es \<le> MAX_WAL_ENTRIES"
    and "ssts v = ssts w" and "length (ssts w) < 2 ^ 64" and "wal_entries X v = wal_entries X w @ es" and "length (wal v) < 2 ^ 64"
  shows "\<exists>l2. log_new X False (calm v) = (Inr l2, calm v) \<and> answers X l2 (calm v) (fold apply_entry es (disk_map X w))"
proof -
  note d = disk_okD [OF assms(1)]
  have sub: "set (wal_entries X w @ es) \<subseteq> U" using d(4) assms(3) by simp
  have ok: "list_all (entry_ok X) (wal_entries X (calm v))" using universeD(2) [OF d(1) sub] assms(7) by simp
  have "length (wal_entries X (calm v)) \<le> 2 ^ 29" using assms(4,7) by (simp add: MAX_WAL_ENTRIES_def)
  with log_new_reads [of "calm v" X] ok assms(5,6,8) obtain h where
    h: "fid h = Wal" "log_new X False (calm v) = (Inr \<lparr>wal_file = h, log_memtable = memtable_of X (wal_entries X w @ es),
      flush_count = length (ssts v)\<rparr>, calm v)" using assms(7) by auto
  have "tables_of X v = tables_of X w" by (rule tables_of_cong [OF assms(5)])
  then have "faulty X U (wal_entries X w @ es) (\<lparr>wal_file = h, log_memtable = memtable_of X (wal_entries X w @ es),
      flush_count = length (ssts v)\<rparr>, v)"
    using d(1,2,7) sub h(1) assms(4) holds_cong [OF assms(5)] by (auto simp: faulty_def)
  from faulty_answers_more [OF this assms(5)] h(2) show ?thesis by blast
qed

lemma pick_subset: "set (pick bs xs) \<subseteq> set xs"
  by (auto simp: pick_def dest: set_zip_leftD)

lemma length_pick_le: "length (pick bs xs) \<le> length xs"
proof -
  have "length (filter snd (zip xs bs)) \<le> length (zip xs bs)" by (rule length_filter_le)
  then show ?thesis by (simp add: pick_def)
qed

lemma reopened_picked:
  assumes "log_inv X U (l, w)" and "intact X w" and "set es \<subseteq> U" and "length (wal_entries X w) + length es \<le> MAX_WAL_ENTRIES"
    and "length (ssts w) < 2 ^ 64" and "ssts v = ssts w" and "wal v = wal w @ records_bytes X (pick kept es)"
  shows "\<exists>l2. log_new X False (calm v) = (Inr l2, calm v) \<and> answers X l2 (calm v) (fold apply_entry (pick kept es) (disk_map X w))"
proof -
  let ?ds = "wal_entries X w @ pick kept es"
  note i = log_invD [OF assms(1)] and D = disk_okD [OF log_invD(1) [OF assms(1)]]
  have sub: "set (pick kept es) \<subseteq> U" using pick_subset [of kept es] assms(3) by blast
  have ok: "list_all (entry_ok X) ?ds" using D(4) sub by (intro universeD(2) [OF D(1)]) simp
  have "wal v = records_bytes X (wal_entries X w) @ records_bytes X (pick kept es)"
    using assms(2,7) unfolding intact_def by metis
  then have wal: "wal v = records_bytes X ?ds" by simp
  have we: "wal_entries X v = ?ds" unfolding wal_entries_def [of X v] wal by (rule read_records_bytes [OF ok])
  have len: "length (wal_entries X w) + length (pick kept es) \<le> MAX_WAL_ENTRIES"
    using assms(4) length_pick_le [of kept es] by simp
  then have "length ?ds \<le> 2 ^ 28" by (simp add: MAX_WAL_ENTRIES_def)
  then have "length (wal v) < 2 ^ 64" unfolding wal using length_records_bytes_le [OF ok] by simp
  from reopened_answers [OF i(1) assms(2) sub len assms(6,5) we this] show ?thesis .
qed

section \<open>A write that does not fail after one that did\<close>

text \<open>A write that breaks off: what it leaves in the WAL.\<close>

lemma log_write_torn:
  assumes "entry_ok X e" and "faults w = []" and "fid (wal_file l) = Wal"
  shows "log_write X e (l, w\<lparr>faults := [None, Some n]\<rparr>) = (Inl IoError,
    (l\<lparr>wal_file := (wal_file l)\<lparr>cur := length (wal w @ take n (record_bytes X e))\<rparr>\<rparr>,
     w\<lparr>wal := wal w @ take n (record_bytes X e)\<rparr>))"
  using assms
  by (simp add: log_write_def bindS_def on_wal_def header_write_def seek_end_def on_snd_def os_call_def pop_fault_def
      set_cur_def file_len_def of_result_def header_serialize_ok write_all_def put_bytes_def Let_def overwrite_def
      contents.simps set_contents.simps)

lemma faulty_write_calm:
  assumes "faulty X U acked (l, w)" and "e \<in> U" and "faults w = []"
  shows "\<exists>h. log_write X e (l, w) =
    (Inr (), (l\<lparr>wal_file := h, log_memtable := inserted X e (log_memtable l)\<rparr>, appended X e w))"
proof -
  note m = faulty_memtable [OF assms(1)]
  have fid: "fid (wal_file l) = Wal" using assms(1) by (simp add: faulty_def)
  have e: "entry_ok X e" "tracked (log_memtable l) + esize X e < 2 ^ 64" using m(4) [OF assms(2)] by blast+
  have hw: "header_write X e (wal_file l, w) =
      (Inr (), ((wal_file l)\<lparr>cur := length (wal w) + length (record_bytes X e)\<rparr>, appended X e w))"
    using header_write_ok [OF assms(3) e(1), of "wal_file l"] fid by (simp add: appended_def set_contents.simps)
  have "process X e (log_memtable l) =
      (Inr (memtable_get (log_memtable l) (entry_key e)), inserted X e (log_memtable l))"
    using m(3) e by (intro process_ok)
  with hw assms(3) show ?thesis
    by (intro exI [of _ "(wal_file l)\<lparr>cur := length (wal w) + length (record_bytes X e)\<rparr>"])
      (simp add: log_write_def bindS_def on_wal_def on_memtable_def on_fst_def calls_ok)
qed

text \<open>
  The bytes that are missing of a record can be the first bytes of the next one: the two
  together are the first record and the rest of the second, which is then lost.
\<close>

lemma swallowed_record:
  assumes "list_all (entry_ok X) (es @ [e, d])" and "unnested X d"
    and "record_bytes X e = h @ s" and "record_bytes X d = s @ t" and "s \<noteq> []"
  shows "read_records X (records_bytes X es @ h @ record_bytes X d) = es @ [e]"
proof -
  have "t = drop (length s - 1) (tl (record_bytes X d))" using assms(4,5) by (cases s) simp_all
  then have "quiet X t []" using quiet_drop [OF assms(2) [unfolded unnested_def]] by simp
  then have "read_records X t = []" by (rule read_records_quiet)
  moreover have "records_bytes X es @ h @ record_bytes X d = records_bytes X (es @ [e]) @ t" using assms(3,4) by simp
  ultimately show ?thesis
    using hdr.read_all_append [of X "es @ [e]" t] assms(1) by (simp add: records_bytes_def)
qed

lemma write_swallowed:
  assumes "log_inv X U (l, w)" and "intact X w" and "e \<in> U" and "d \<in> U" and "unnested X d"
    and "length (wal_entries X w) < MAX_WAL_ENTRIES" and "length (ssts w) < 2 ^ 64"
    and "record_bytes X e = h @ s" and "record_bytes X d = s @ t" and "s \<noteq> []"
  shows "\<exists>l1 v1 l2 v2 l3. log_write X e (l, w\<lparr>faults := [None, Some (length h)]\<rparr>) = (Inl IoError, (l1, v1)) \<and>
    log_write X d (l1, v1) = (Inr (), (l2, v2)) \<and> answers X l2 v2 (apply_entry d (disk_map X w)) \<and>
    log_new X False v2 = (Inr l3, v2) \<and> answers X l3 v2 (apply_entry e (disk_map X w))"
proof -
  note i = log_invD [OF assms(1)] and D = disk_okD [OF log_invD(1) [OF assms(1)]]
  let ?v = "w\<lparr>wal := wal w @ h\<rparr>"
  have ok: "entry_ok X e" "entry_ok X d" using universeD(1) [OF D(1)] assms(3,4) by blast+
  obtain l1 where one: "log_write X e (l, w\<lparr>faults := [None, Some (length h)]\<rparr>) = (Inl IoError, (l1, ?v))"
    using log_write_torn [OF ok(1) i(2,3), of "length h"] assms(8) by simp
  have f1: "faulty X U (wal_entries X w) (l1, ?v)"
    using faulty_write(1) [OF faulty_inv [OF assms(1)] assms(3,6) one] by simp
  obtain l2 where two: "log_write X d (l1, ?v) = (Inr (), (l2, appended X d ?v))"
    using faulty_write_calm [OF f1 assms(4)] i(2) by auto
  let ?u = "appended X d ?v"
  have f2: "faulty X U (wal_entries X w @ [d]) (l2, ?u)" using faulty_write(1) [OF f1 assms(4,6) two] by simp
  have calm: "calm ?u = ?u" using i(2) by (simp add: calm_def appended_def)
  have s: "ssts ?u = ssts w" by (simp add: appended_def)
  have "wal ?u = wal w @ h @ record_bytes X d" by (simp add: appended_def)
  also have "\<dots> = records_bytes X (wal_entries X w) @ h @ record_bytes X d"
    using assms(2) unfolding intact_def by (rule arg_cong)
  finally have "wal ?u = records_bytes X (wal_entries X w) @ h @ record_bytes X d" .
  moreover have "list_all (entry_ok X) (wal_entries X w @ [e, d])" using D(5) ok by simp
  ultimately have we: "wal_entries X ?u = wal_entries X w @ [e]"
    using swallowed_record [OF _ assms(5,8-10)] unfolding wal_entries_def [of X ?u] by simp
  have "length (wal ?u) < 2 ^ 64"
  proof -
    have "length h \<le> 2 ^ 33" "length (record_bytes X d) \<le> 2 ^ 33"
      using arg_cong [OF assms(8), of length] entry_ok_bounds(1) [OF ok(1)] entry_ok_bounds(1) [OF ok(2)]
      by (simp_all add: HEADER_LEN_def)
    moreover have "length (wal w) < 2 ^ 63"
      using length_records_bytes_le [OF D(5)] D(6) assms(2) unfolding intact_def by simp
    ultimately show ?thesis by (simp add: appended_def)
  qed
  from reopened_answers [OF i(1) assms(2) _ _ s assms(7) we this] assms(3,6) calm obtain l3 where
    "log_new X False ?u = (Inr l3, ?u)" "answers X l3 ?u (apply_entry e (disk_map X w))" by auto
  moreover have "answers X l2 ?u (apply_entry d (disk_map X w))" using faulty_answers_more [OF f2 s] calm by simp
  ultimately show ?thesis using one two by blast
qed

section \<open>A compaction that is interrupted\<close>

text \<open>
  The compaction deletes the old tables one by one, the newest first. If a deletion fails, or
  the process ends there, some of the oldest tables are still beside the merged ones.
\<close>

lemma holds_filter:
  assumes "holds X w T"
  shows "holds X (w\<lparr>ssts := filter (\<lambda>p. P (fst p)) (ssts w)\<rparr>) (filter (\<lambda>p. P (fst p)) T)"
proof -
  have "filter (\<lambda>p. P (fst p)) (map (\<lambda>p. (fst p, table_image X (snd p))) T) =
      map (\<lambda>p. (fst p, table_image X (snd p))) (filter (\<lambda>p. P (fst p)) T)"
    by (simp add: filter_map comp_def)
  with assms show ?thesis by (simp add: holds_def distinct_map_filter)
qed

text \<open>
  The world when all tables of the merge are written and no old one is deleted yet, and the map
  when the first \<open>j\<close> of the old ones are: a key without a value gets what the newest of the
  others has for it.
\<close>

definition before_deletions :: "crates \<Rightarrow> world \<Rightarrow> world" where
  "before_deletions X w = flush_chunks X (compacted X (tables_of X w)) w"

definition revived :: "crates \<Rightarrow> nat \<Rightarrow> world \<Rightarrow> string \<Rightarrow> string option" where
  "revived X j w k = (case disk_map X w k of Some x \<Rightarrow> Some x | None \<Rightarrow>
     if k \<in> entry_key ` set (wal_entries X w) then None
     else case newest (drop j (newest_first (tables_of X w))) k of None \<Rightarrow> None | Some e \<Rightarrow> entry_value e)"

lemma revived_all: "length (ssts w) \<le> j \<Longrightarrow> revived X j w = disk_map X w"
  by (rule ext) (simp add: revived_def newest_first_def tables_of_def split: option.split)

text \<open>The facts about the merge of the tables on disk.\<close>

lemma before_deletions_facts:
  assumes "disk_ok X U w" and "faults w = []" and "clock_ok (length (compacted X (tables_of X w))) w"
  obtains ns where "compact X w = remove_files (sort_desc (map fst (ssts w))) (before_deletions X w)"
    and "length ns = length (compacted X (tables_of X w))"
    and "holds X (before_deletions X w) (tables_of X w @ zip ns (compacted X (tables_of X w)))"
    and "sorted_wrt (<) ns" and "\<forall>n \<in> set ns. \<forall>m \<in> fst ` set (tables_of X w). m < n"
    and "\<forall>c \<in> set (compacted X (tables_of X w)). set c \<subseteq> U \<and> table_ok X c"
proof -
  note d = disk_okD [OF assms(1)]
  let ?T = "tables_of X w"
  have T: "\<forall>p \<in> set ?T. set (snd p) \<subseteq> U" using d(7) by blast
  note sub = compacted_universe(1) [OF d(1,2) T] and q = compacted_universe(2) [OF d(1,2) T]
  have ck: "clock_ok (length (compacted X ?T) + 0) w" using assms(3) by simp
  have "\<forall>c \<in> set (compacted X ?T). set c \<subseteq> U \<and> table_ok X c"
    using sub compacted_tables_ok [OF d(2) q] by (simp add: list_all_iff)
  with that compact_merged [OF assms(2) d(2) ck q] holds_names(1) [OF d(2)] show ?thesis
    by (auto simp: before_deletions_def)
qed

text \<open>What the files stand for when the first \<open>j\<close> old tables are deleted.\<close>

lemma after_deletions:
  assumes "disk_ok X U w" and "faults w = []" and "clock_ok (length (compacted X (tables_of X w))) w"
    and "ssts v = filter (\<lambda>p. fst p \<notin> set (take j (sort_desc (map fst (ssts w))))) (ssts (before_deletions X w))"
    and "wal v = wal w"
  shows "disk_ok X U v" and "disk_map X v = revived X j w"
proof -
  note d = disk_okD [OF assms(1)]
  let ?T = "tables_of X w" and ?ns = "sort_desc (map fst (ssts w))"
  let ?C = "compacted X ?T" and ?w = "before_deletions X w" and ?gone = "set (take j (sort_desc (map fst (ssts w))))"
  have names: "map fst (ssts w) = map fst ?T" by (rule holds_names(1) [OF d(2)])
  obtain ns where ns: "length ns = length ?C" "holds X ?w (?T @ zip ns ?C)" "sorted_wrt (<) ns"
      "\<forall>n \<in> set ns. \<forall>m \<in> fst ` set ?T. m < n" "\<forall>c \<in> set ?C. set c \<subseteq> U \<and> table_ok X c"
    by (rule before_deletions_facts [OF assms(1-3)])
  let ?V = "filter (\<lambda>p. fst p \<notin> ?gone) ?T @ zip ns ?C"
  have "fst p \<notin> ?gone" if "p \<in> set (zip ns ?C)" for p
    using ns(4) that set_zip_leftD [of "fst p" "snd p" ns ?C] set_take_subset [of j ?ns]
    by (fastforce simp: names)
  then have V: "filter (\<lambda>p. fst p \<notin> ?gone) (?T @ zip ns ?C) = ?V" by simp
  have h: "holds X v ?V"
    using holds_filter [OF ns(2), of "\<lambda>n. n \<notin> ?gone", unfolded V]
      holds_cong [of v "?w\<lparr>ssts := filter (\<lambda>p. fst p \<notin> ?gone) (ssts ?w)\<rparr>"] assms(4) by simp
  have "set (snd p) \<subseteq> U" if "p \<in> set ?V" for p
    using that d(7) [of p] ns(5) set_zip_rightD [of "fst p" "snd p" ns ?C] by auto
  then show "disk_ok X U v"
    using h wal_ok_cong [OF assms(5)] disk_ok_wal [OF assms(1)] by (simp add: disk_ok_def tables_of_holds [OF h])
  have store: "store_get ?V k = (case live_entry (store_get ?T k) of Some e \<Rightarrow> Some e
      | None \<Rightarrow> newest (drop j (newest_first ?T)) k)" for k
    using compact_cut [OF d(2) ns(1,3,4)] by (simp add: names)
  show "disk_map X v = revived X j w"
  proof
    fix k
    have "lookup_entry (rev (wal_entries X w)) k = None \<longleftrightarrow> k \<notin> entry_key ` set (wal_entries X w)"
      using lookup_entry_None_iff [of "rev (wal_entries X w)" k] by simp
    then show "disk_map X v k = revived X j w k"
      using store wal_entries_cong [OF assms(5), of X]
      by (cases "lookup_entry (rev (wal_entries X w)) k")
        (auto simp: revived_def disk_map_def latest_def tables_of_holds [OF h] live_entry_def
          split: option.split entry.split)
  qed
qed

text \<open>The same with the deletion that fails given.\<close>

lemma remove_file_step:
  "faults v = None # fs \<Longrightarrow> n \<in> set (map fst (ssts v)) \<Longrightarrow>
   remove_file n v = (Inr (), v\<lparr>faults := fs, ssts := AList.delete n (ssts v)\<rparr>)"
  by (simp add: remove_file_def bindS_def os_call_def pop_fault_def)

lemma remove_file_fails:
  "faults v = Some b # fs \<Longrightarrow> remove_file n v = (Inl IoError, v\<lparr>faults := fs\<rparr>)"
  by (simp add: remove_file_def bindS_def os_call_def pop_fault_def)

lemma remove_files_cut:
  assumes "faults v = replicate j None @ [Some b]" and "j < length ns" and "distinct ns"
    and "set ns \<subseteq> fst ` set (ssts v)"
  shows "remove_files ns v =
    (Inl IoError, v\<lparr>faults := [], ssts := filter (\<lambda>p. fst p \<notin> set (take j ns)) (ssts v)\<rparr>)"
  using assms
proof (induction ns arbitrary: j v)
  case Nil
  then show ?case by simp
next
  case (Cons n ns)
  show ?case
  proof (cases j)
    case 0
    with Cons.prems(1) show ?thesis by (simp add: bindS_def remove_file_fails)
  next
    case (Suc i)
    let ?v = "v\<lparr>faults := replicate i None @ [Some b], ssts := AList.delete n (ssts v)\<rparr>"
    have step: "remove_file n v = (Inr (), ?v)"
      using Cons.prems(1,4) Suc by (intro remove_file_step) auto
    have sub: "set ns \<subseteq> fst ` set (ssts ?v)"
      using Cons.prems(3,4) by (fastforce simp: delete_filter)
    have i: "i < length ns" and d: "distinct ns" using Cons.prems(2,3) Suc by simp_all
    have fv: "faults ?v = replicate i None @ [Some b]" by simp
    have "filter (\<lambda>p. fst p \<notin> set (take i ns)) (AList.delete n (ssts v)) =
        filter (\<lambda>p. fst p \<notin> set (take j (n # ns))) (ssts v)"
      unfolding delete_filter filter_filter Suc by (rule filter_cong) auto
    with Cons.IH [OF fv i d sub] step show ?thesis by (simp add: bindS_def)
  qed
qed

lemma compaction_cut:
  assumes "disk_ok X U w" and "faults w = []" and "clock_ok (length (compacted X (tables_of X w))) w"
    and "j < length (ssts w)"
    and "remove_files (sort_desc (map fst (ssts w)))
      ((before_deletions X w)\<lparr>faults := replicate j None @ [Some b]\<rparr>) = (r, v)"
  shows "compact X w = remove_files (sort_desc (map fst (ssts w))) (before_deletions X w)"
    and "r = Inl IoError" and "disk_ok X U v" and "disk_map X v = revived X j w"
proof -
  let ?ns = "sort_desc (map fst (ssts w))" and ?w = "before_deletions X w"
  have names: "map fst (ssts w) = map fst (tables_of X w)" by (rule holds_names(1) [OF disk_okD(2) [OF assms(1)]])
  obtain ns where c: "compact X w = remove_files ?ns ?w"
      "holds X ?w (tables_of X w @ zip ns (compacted X (tables_of X w)))"
    by (rule before_deletions_facts [OF assms(1-3)])
  show "compact X w = remove_files ?ns ?w" by (rule c(1))
  have "set ?ns \<subseteq> fst ` set (ssts ?w)" unfolding holds_names(2) [OF c(2)] by (auto simp: names)
  moreover have "distinct ?ns" using disk_okD(2) [OF assms(1)] unfolding distinct_sort_desc names holds_def by blast
  ultimately have rv: "r = Inl IoError \<and> v = ?w\<lparr>faults := [], ssts := filter (\<lambda>p. fst p \<notin> set (take j ?ns)) (ssts ?w)\<rparr>"
    using remove_files_cut [of "?w\<lparr>faults := replicate j None @ [Some b]\<rparr>" j b ?ns] assms(4,5) by simp
  then show "r = Inl IoError" by blast
  have "ssts v = filter (\<lambda>p. fst p \<notin> set (take j ?ns)) (ssts ?w)" "wal v = wal w"
    using rv by (simp_all add: before_deletions_def)
  from after_deletions [OF assms(1-3) this] show "disk_ok X U v" and "disk_map X v = revived X j w" .
qed


section \<open>A record inside an entry\<close>

lemma torn_head_quiet:
  assumes "entry_ok X e" and "take n (record_bytes X e) = head @ rest" and "n < length (record_bytes X e)"
    and "0x43 \<notin> set (tl head)"
  shows "quiet X head rest"
  unfolding quiet_iff
proof (intro allI impI)
  fix i assume i: "i < length head"
  show "\<exists>c. header_deserialize X (drop i (head @ rest)) = Inl c"
  proof (cases i)
    case 0
    then show ?thesis using torn_no_record [OF assms(1,3)] by (simp add: assms(2))
  next
    case (Suc j)
    then have "drop i (head @ rest) = drop j (tl head @ rest)" and "j < length (tl head)" using i by (cases head; simp)+
    then show ?thesis using quiet_no_magic [OF assms(4), of X rest] unfolding quiet_iff by simp
  qed
qed

text \<open>
  If the part of a record that a write leaves contains a record, behind bytes that are none,
  that record is read.
\<close>

lemma torn_record_read:
  assumes "list_all (entry_ok X) es" and "entry_ok X d" and "payload X e = a @ record_bytes X d @ b"
    and "quiet X (take (HEADER_LEN + length a) (record_bytes X e)) (record_bytes X d)"
    and "n = HEADER_LEN + length a + length (record_bytes X d)"
  shows "read_records X (records_bytes X es @ take n (record_bytes X e)) = es @ [d]"
proof -
  let ?head = "take (HEADER_LEN + length a) (record_bytes X e)"
  have "take n (record_bytes X e) = ?head @ record_bytes X d"
    using assms(3,5) by (simp add: record_bytes_def [of X e] HEADER_LEN_def)
  moreover have "read_records X (?head @ record_bytes X d) = read_records X (record_bytes X d)"
    using assms(4) by (intro hdr.read_all_quiet) (simp add: quiet_iff)
  moreover have "read_records X (record_bytes X d) = [d]"
    using hdr.read_all_enc [OF assms(2), of "[]"] by (simp add: hdr.read_all_None)
  ultimately show ?thesis using hdr.read_all_append [OF assms(1)] by (simp add: records_bytes_def)
qed

end
