(* ===== verification/Interrupt.thy ===== *)
theory Interrupt
  imports Recovery
begin

text \<open>
  A compaction in which any call fails, or the process ends, at any point: while the tables are
  read, while the merged ones are written, or while the old ones are deleted.
\<close>

section \<open>Reading the tables\<close>

lemma keeps_on_file [keeps_rules]:
  assumes "keeps reads m"
  shows "keeps (\<lambda>s t. same_disk (snd s) (snd t)) (on_file m)"
proof -
  have "same_disk (snd s) (snd (snd (on_file m s)))" for s
    using keepsD [OF assms] by (auto simp: on_file_def reads_def split: prod.splits)
  then show ?thesis by (simp add: keeps_def)
qed

lemma keeps_read_next_entry: "keeps (\<lambda>s t. same_disk (snd s) (snd t)) (read_next_entry X)"
  unfolding read_next_entry_def
proof (rule keeps_bindS)
  show "transp (\<lambda>s t :: sstable \<times> world. same_disk (snd s) (snd t))"
    by (auto simp: transp_def intro: same_disk_trans)
  show "keeps (\<lambda>s t. same_disk (snd s) (snd t)) (on_file stream_position)" by (intro keeps_rules)
  show "keeps (\<lambda>s t. same_disk (snd s) (snd t))
      (\<lambda>s. if filter_pos (fst s) < pos then (Inr None, s) else on_file (header_read_next X) s)" for pos
    using keeps_on_file [OF reads_header_read_next, of X] by (simp add: keeps_def)
qed

lemma keeps_advance [keeps_rules]: "keeps same_disk (advance X t)"
proof -
  have "same_disk w (snd (advance X t w))" for w
    using keepsD [OF keeps_read_next_entry, of X "(t, w)"] by (auto simp: advance_def split: prod.splits sum.splits)
  then show ?thesis by (simp add: keeps_def)
qed

lemma keeps_Pair: "reflp R \<Longrightarrow> keeps R (Pair r)"
  by (simp add: keeps_def reflp_def)

lemma keeps_open_all [keeps_rules]: "keeps same_disk (open_all X ns)"
  by (induction ns) (auto simp: keeps_Pair intro!: keeps_ret keeps_bindS keeps_rules)

lemma keeps_prime [keeps_rules]: "keeps same_disk (prime X ts)"
  by (induction ts) (auto simp: keeps_Pair intro!: keeps_ret keeps_bindS keeps_rules)

text \<open>A round of the merge reads, and writes nothing.\<close>

lemma visit_all_disk:
  assumes "visit_all X k cs s = (r, t)"
  shows "same_disk (snd (snd s)) (snd (snd t))"
proof -
  let ?R = "\<lambda>s t :: merge_state. same_disk (snd (snd s)) (snd (snd t))"
  have R: "reflp ?R" "transp ?R" by (auto simp: reflp_def transp_def intro: same_disk_trans)
  have "keeps ?R (take_winner X k e)" for e
    by (auto simp: keeps_def take_winner_def split: entry.splits prod.splits sum.splits)
  moreover have "keeps ?R (on_snd (on_snd (advance X t)))" for t
    using keepsD [OF keeps_advance] by (auto simp: keeps_def on_snd_def split: prod.splits)
  ultimately have "keeps ?R (visit X k c)" for c
    using R unfolding visit_def by (cases c; cases "fst c") (auto intro!: keeps_ret keeps_bindS)
  with R have "keeps ?R (visit_all X k cs)" by (induction cs) (auto intro!: keeps_ret keeps_bindS)
  with assms show ?thesis by (rule keepsD [rotated])
qed

section \<open>Writing the merged tables\<close>

text \<open>The new tables up to some point, the last one possibly cut off.\<close>

definition partly_flushed :: "crates \<Rightarrow> entry list list \<Rightarrow> world \<Rightarrow> world \<Rightarrow> bool" where
  "partly_flushed X cs w v \<longleftrightarrow> wal v = wal w \<and> (\<exists>j \<le> length cs. let u = flush_chunks X (take j cs) w in
     ssts v = ssts u \<or> j < length cs \<and>
       (\<exists>n. ssts v = AList.update (next_name u) (take n (table_image X (cs ! j))) (ssts u)))"

lemma partly_flushed_none: "wal v = wal w \<Longrightarrow> ssts v = ssts w \<Longrightarrow> partly_flushed X cs w v"
  unfolding partly_flushed_def by (intro conjI exI [of _ 0]) simp_all

lemma partly_flushed_cut:
  assumes "wal v = wal w" and "ssts v = AList.update (next_name w) (take n (table_image X c)) (ssts w)"
  shows "partly_flushed X (c # cs) w v"
  unfolding partly_flushed_def by (intro conjI exI [of _ 0]) (use assms in auto)

lemma partly_flushed_Cons:
  assumes "partly_flushed X cs (flushed X c w) v"
  shows "partly_flushed X (c # cs) w v"
proof -
  obtain j where "j \<le> length cs" "wal v = wal w" "let u = flush_chunks X (take j cs) (flushed X c w) in
      ssts v = ssts u \<or> j < length cs \<and>
       (\<exists>n. ssts v = AList.update (next_name u) (take n (table_image X (cs ! j))) (ssts u))"
    using assms by (auto simp: partly_flushed_def)
  then show ?thesis unfolding partly_flushed_def by (intro conjI exI [of _ "Suc j"]) simp_all
qed

lemma flush_to_outcome:
  assumes "memtable_wf X m" and "memtable_values m \<noteq> []" and "memtable_len m * 10 < 2 ^ 32"
    and "0 \<le> clock w (ticks w)" and "faults w = []" and "flush_to X (m, w\<lparr>faults := fs\<rparr>) = (r, (m', v))"
  shows "wal v = wal w" and "ssts v = ssts w \<or>
      (\<exists>n. ssts v = AList.update (next_name w) (take n (table_image X (memtable_values m))) (ssts w))"
    and "r = Inr () \<Longrightarrow> m' = memtable_new \<and> calm v = flushed X (memtable_values m) w"
proof -
  have "\<not> is_empty m" using is_empty_iff [OF assms(1)] assms(2) by simp
  then have "new_table X m (w\<lparr>faults := fs\<rparr>) = (r, v)"
    using assms(6) by (auto simp: flush_to_def bindS_def on_snd_def split: prod.splits sum.splits)
  from new_table_outcome [OF assms(1,3) _ this] assms(4)
  show "wal v = wal w" and "ssts v = ssts w \<or>
      (\<exists>n. ssts v = AList.update (next_name w) (take n (table_image X (memtable_values m))) (ssts w))"
    by (auto simp: torn_table_def next_name_def)
  assume "r = Inr ()"
  with calmingD [OF calming_flush_to, of X "(m, w\<lparr>faults := fs\<rparr>)" "()" "(m', v)"] assms(6)
  have "flush_to X (m, w) = (Inr (), (m', calm v))" by (simp add: calm_id [OF assms(5)])
  then show "m' = memtable_new \<and> calm v = flushed X (memtable_values m) w"
    using flush_to_ok [OF assms(5,1,2,3,4)] by simp
qed

lemma calm_faults: "w = (calm w)\<lparr>faults := faults w\<rparr>"
  by (simp add: calm_def)

text \<open>The merge, whatever fails in it.\<close>

lemma merge_all_outcome:
  assumes "total ess < fuel" and "faults w = []" and "merging X w cs ess seen m"
    and "clock_ok (length (chunks X m (merged ess))) w"
    and "merge_all X fuel cs (seen, m, w\<lparr>faults := fs\<rparr>) = (r, (seen', m', v))"
  shows "partly_flushed X (chunks X m (merged ess)) w v"
  using assms
proof (induction fuel arbitrary: ess cs seen m w fs)
  case 0
  then show ?case by simp
next
  case (Suc fuel)
  let ?w = "w\<lparr>faults := fs\<rparr>"
  show ?case
  proof (cases "filter (\<lambda>es. es \<noteq> []) ess = []")
    case True
    note l = last_flush [OF Suc.prems(3) True]
    show ?thesis
    proof (cases "memtable_values m = []")
      case ne: False
      then have now: "0 \<le> clock w (ticks w)" using Suc.prems(4) l(2) by (auto intro: clock_ok_now)
      have "flush_to X (m, ?w) = (r, (m', v))" using l(1) Suc.prems(5) ne by (auto split: prod.splits)
      from flush_to_outcome(1,2) [OF mergingD(4) [OF Suc.prems(3)] ne l(4) now Suc.prems(2) this] ne show ?thesis
        unfolding l(2) by (auto intro: partly_flushed_none partly_flushed_cut)
    qed (use l Suc.prems(5) in \<open>auto intro: partly_flushed_none\<close>)
  next
    case False
    let ?cs = "filter (\<lambda>c. fst c \<noteq> None) cs"
    obtain k ds rest n where rd: "min_key ?cs = Some k"
        "visit_all X k ?cs (seen, m, w) = (Inr ds, (insert k seen, n, w))"
        "total rest < total ess" "memtable_wf X n" "memtable_len n \<le> 2 ^ 22 + 1"
        "chunks X m (merged ess) = (if should_flush n
          then memtable_values n # chunks X memtable_new (merged rest) else chunks X n (merged rest))"
        "merging X w ds rest (insert k seen) (if should_flush n then memtable_new else n)"
      by (rule merging_round [OF Suc.prems(2,3) False])
    obtain r1 s1 m1 w1 where va: "visit_all X k ?cs (seen, m, ?w) = (r1, (s1, m1, w1))" by (metis surj_pair)
    have same: "same_disk w w1" using visit_all_disk [OF va] by (simp add: same_disk_def)
    show ?thesis
    proof (cases r1)
      case (Inl e)
      then have "v = w1" using Suc.prems(5) va unfolding merge_all_Suc [OF rd(1)] by (simp add: bindS_def)
      with same show ?thesis by (simp add: same_disk_def partly_flushed_none)
    next
      case (Inr ds')
      have "visit_all X k ?cs (seen, m, w) = (Inr ds', (s1, m1, calm w1))"
        using calmingD [OF calming_visit_all va [unfolded Inr]] by (simp add: calm_id [OF Suc.prems(2)])
      with rd(2) have e: "ds' = ds" "s1 = insert k seen" "m1 = n" "w = calm w1" by simp_all
      obtain fs1 where w1: "w1 = w\<lparr>faults := fs1\<rparr>" using calm_faults [of w1] e(4) by metis
      have step: "bindS (on_snd (flush_if_full X)) (\<lambda>_. merge_all X fuel ds) (insert k seen, n, w1) = (r, (seen', m', v))"
        using Suc.prems(5) va Inr e unfolding merge_all_Suc [OF rd(1)] by (simp add: bindS_Inr)
      show ?thesis
      proof (cases "should_flush n")
        case full: True
        have ne: "memtable_values n \<noteq> []" using rd(4) full by (auto simp: memtable_wf_def should_flush_iff)
        have len: "memtable_len n * 10 < 2 ^ 32" using rd(5) by simp
        have ck: "clock_ok (Suc (length (chunks X memtable_new (merged rest)))) w"
          using Suc.prems(4) rd(6) full by simp
        obtain r2 m2 w2 where fl: "flush_to X (n, w\<lparr>faults := fs1\<rparr>) = (r2, (m2, w2))" by (metis surj_pair)
        note o = flush_to_outcome [OF rd(4) ne len clock_ok_now [OF ck] Suc.prems(2) fl]
        show ?thesis
        proof (cases r2)
          case (Inl x)
          then have "v = w2" using step fl full w1 by (simp add: bindS_def on_snd_def flush_if_full_def)
          with o(1,2) rd(6) full show ?thesis by (auto intro: partly_flushed_none partly_flushed_cut)
        next
          case (Inr x)
          let ?u = "flushed X (memtable_values n) w"
          have "m2 = memtable_new" "calm w2 = ?u" using o(3) Inr by simp_all
          then have "merge_all X fuel ds (insert k seen, memtable_new, ?u\<lparr>faults := faults w2\<rparr>) = (r, (seen', m', v))"
            using step fl full w1 Inr calm_faults [of w2] by (simp add: bindS_def on_snd_def flush_if_full_def)
          moreover have "merging X ?u ds rest (insert k seen) memtable_new"
            using merging_flushed clock_ok_fresh [OF ck] rd(7) full by simp
          ultimately have "partly_flushed X (chunks X memtable_new (merged rest)) ?u v"
            using Suc.IH [of rest ?u ds "insert k seen" memtable_new] rd(3) Suc.prems(1,2) clock_ok_flushed [OF ck]
            by simp
          with rd(6) full show ?thesis by (simp add: partly_flushed_Cons)
        qed
      next
        case False
        with step w1 have "merge_all X fuel ds (insert k seen, n, w\<lparr>faults := fs1\<rparr>) = (r, (seen', m', v))"
          by (simp add: bindS_def on_snd_def flush_if_full_def)
        with Suc.IH [of rest w ds "insert k seen" n] rd False Suc.prems(1,2,4) show ?thesis by simp
      qed
    qed
  qed
qed

section \<open>The compaction\<close>

text \<open>The part that reads, and the part that writes.\<close>

definition compact_reads :: "crates \<Rightarrow> (world, string list \<times> cursor list) sio" where
  "compact_reads X = bindS read_dir (\<lambda>names. bindS (open_all X (sort_desc names)) (\<lambda>opts.
     bindS (prime X (List.map_filter (\<lambda>t. t) opts)) (\<lambda>cs. ret (names, cs))))"

definition compact_merge :: "crates \<Rightarrow> cursor list \<Rightarrow> (world, unit) sio" where
  "compact_merge X cs w = with_local memtable_new (with_local {} (merge_all X (compact_fuel w) cs)) w"

lemma compact_parts:
  "compact X = bindS (compact_reads X) (\<lambda>(names, cs). bindS (compact_merge X cs) (\<lambda>_. remove_files (sort_desc names)))"
  by (simp add: compact_def compact_reads_def bindS_assoc bindS_ret_left Let_def compact_merge_def [abs_def])

lemma compact_reads_ok:
  assumes "faults w = []" and "holds X w T"
  obtains cs where "compact_reads X w = (Inr (map fst (ssts w), cs), w)"
    and "merging X w cs (newest_first T) {} memtable_new"
proof (rule compact_start [OF assms])
  fix ts cs assume "open_all X (sort_desc (map fst T)) w = (Inr (map Some ts), w)" "prime X ts w = (Inr cs, w)"
    "merging X w cs (newest_first T) {} memtable_new"
  with that [of cs] assms(1) holds_names(1) [OF assms(2)] show thesis
    by (simp add: compact_reads_def bindS_def calls_ok)
qed

lemma keeps_compact_reads: "keeps same_disk (compact_reads X)"
  unfolding compact_reads_def by (intro keeps_structure keeps_rules) simp_all

lemma calming_compact_reads: "calming calm (compact_reads X)"
  unfolding compact_reads_def by (intro calming_rules)

text \<open>
  What is on disk after a compaction: some of the new tables beside all the old ones, or all of
  the new ones beside some of the old ones.
\<close>

lemma compact_outcome:
  assumes "disk_ok X U w" and "faults w = []" and "clock_ok (length (compacted X (tables_of X w))) w"
    and "compact X (w\<lparr>faults := fs\<rparr>) = (r, v)"
  obtains (merging) "r \<noteq> Inr ()" and "partly_flushed X (compacted X (tables_of X w)) w v"
    | (deleting) j where "j \<le> length (ssts w)" and "wal v = wal w" and "r = Inr () \<longleftrightarrow> j = length (ssts w)"
        and "ssts v = filter (\<lambda>p. fst p \<notin> set (take j (sort_desc (map fst (ssts w))))) (ssts (before_deletions X w))"
proof -
  note h = disk_okD(2) [OF assms(1)]
  let ?T = "tables_of X w" and ?ns = "sort_desc (map fst (ssts w))"
  obtain cs where cs: "compact_reads X w = (Inr (map fst (ssts w), cs), w)" "merging X w cs (newest_first ?T) {} memtable_new"
    by (rule compact_reads_ok [OF assms(2) h])
  obtain r1 w1 where rd: "compact_reads X (w\<lparr>faults := fs\<rparr>) = (r1, w1)" by fastforce
  show thesis
  proof (cases r1)
    case (Inl e)
    then have "r = Inl e" "v = w1" using assms(4) rd by (simp_all add: compact_parts bindS_def)
    with keepsD [OF keeps_compact_reads rd] show thesis
      by (intro merging) (simp_all add: same_disk_def partly_flushed_none)
  next
    case (Inr x)
    have "compact_reads X w = (Inr x, calm w1)"
      using calmingD [OF calming_compact_reads rd [unfolded Inr]] by (simp add: calm_id [OF assms(2)])
    with cs(1) have x: "x = (map fst (ssts w), cs)" and "w = calm w1" by simp_all
    then obtain fs1 where w1: "w1 = w\<lparr>faults := fs1\<rparr>" using calm_faults [of w1] by metis
    have fuel: "compact_fuel w1 = compact_fuel w" by (simp add: w1 compact_fuel_def)
    obtain r2 seen m w2 where mg: "merge_all X (compact_fuel w) cs ({}, memtable_new, w1) = (r2, (seen, m, w2))"
      by (metis surj_pair)
    then have cm: "compact_merge X cs w1 = (r2, w2)" by (simp add: compact_merge_def with_local_def fuel)
    have ck: "clock_ok (length (chunks X memtable_new (merged (newest_first ?T)))) w"
      using assms(3) by (simp add: compacted_def)
    have part: "partly_flushed X (compacted X ?T) w w2"
      using merge_all_outcome [OF compact_fuel_enough [OF h] assms(2) cs(2) ck] mg w1 by (simp add: compacted_def)
    show thesis
    proof (cases r2)
      case (Inl e)
      then have "r = Inl e" "v = w2" using assms(4) rd Inr x cm by (simp_all add: compact_parts bindS_def)
      with part show thesis by (intro merging) simp_all
    next
      case Inr2: (Inr u)
      have "merge_all X (compact_fuel w) cs ({}, memtable_new, w) = (Inr u, (seen, m, calm w2))"
        using calmingD [OF calming_merge_all mg [unfolded Inr2]] w1 by (simp add: calm_id [OF assms(2)])
      with merge_all_ok [OF compact_fuel_enough [OF h] assms(2) cs(2) ck] have w2: "calm w2 = before_deletions X w"
        by (auto simp: before_deletions_def compacted_def)
      have files: "ssts w2 = ssts (before_deletions X w)" "wal w2 = wal w"
        using arg_cong [OF w2, of ssts] arg_cong [OF w2, of wal] by (simp_all add: before_deletions_def)
      have rf: "remove_files ?ns w2 = (r, v)"
        using assms(4) rd Inr Inr2 x cm by (simp add: compact_parts bindS_def)
      have names: "map fst (ssts w) = map fst ?T" by (rule holds_names(1) [OF h])
      have dist: "distinct ?ns" using h unfolding distinct_sort_desc names holds_def by blast
      obtain ns' where "holds X (before_deletions X w) (?T @ zip ns' (compacted X ?T))"
        by (rule before_deletions_facts [OF assms(1-3)])
      from holds_names(2) [OF this] have "set ?ns \<subseteq> fst ` set (ssts w2)" by (auto simp: files names)
      then show thesis
      proof (rule remove_files_outcome [OF rf dist])
        fix i assume "i \<le> length ?ns" "wal v = wal w2" "r = Inr () \<longleftrightarrow> i = length ?ns"
          "ssts v = filter (\<lambda>p. fst p \<notin> set (take i ?ns)) (ssts w2)"
        then show thesis using files by (intro deleting [of i]) simp_all
      qed
    qed
  qed
qed

section \<open>Lookups after a compaction that failed\<close>

text \<open>Merged entries are live, so they answer a lookup as the tables they come from do.\<close>

lemma compacted_entry:
  assumes "holds X w T" and "e \<in> set (concat (compacted X T))"
  shows "live_entry (store_get T (entry_key e)) = Some e" and "visible e = Some e"
proof -
  have s: "\<forall>es \<in> set (newest_first T). key_sorted es" using newest_first_sorted [OF assms(1)] by blast
  have e: "e \<in> set (merged (newest_first T))" using assms(2) by (simp only: compacted_facts(1) [OF assms(1)])
  from lookup_entry_sorted [OF merged_sorted [OF s] this] show "live_entry (store_get T (entry_key e)) = Some e"
    unfolding merged_lookup [OF s] store_get_def .
  from merged_no_tombstone [OF s e] show "visible e = Some e" by (auto simp: visible_def)
qed

lemma newest_Some: "newest ess k = Some e \<Longrightarrow> entry_key e = k \<and> e \<in> \<Union> (set ` set ess)"
  by (induction ess) (auto split: option.splits dest!: lookup_entry_Some)

lemma store_get_partly:
  assumes "holds X w T" and "length ns = length cs" and "sorted_wrt (<) ns"
    and "\<forall>n \<in> set ns. \<forall>m \<in> fst ` set T. m < n" and "set cs \<subseteq> set (compacted X T)"
  shows "live_entry (store_get (T @ zip ns cs) k) = live_entry (store_get T k)"
proof -
  have "\<forall>m \<in> fst ` set T. \<forall>n \<in> fst ` set (zip ns cs). m < n"
    using assms(4) set_zip_leftD by fastforce
  then have get: "store_get (T @ zip ns cs) k = (case newest (rev cs) k of None \<Rightarrow> store_get T k | Some e \<Rightarrow> Some e)"
    using newest_first_append newest_first_zip [OF assms(2,3)]
    by (simp add: store_get_def newest_append split: option.split)
  show ?thesis
  proof (cases "newest (rev cs) k")
    case None
    with get show ?thesis by simp
  next
    case (Some e)
    with newest_Some [OF this] assms(5) have e: "entry_key e = k" "e \<in> set (concat (compacted X T))" by auto
    from compacted_entry [OF assms(1) e(2)] e(1) get Some show ?thesis by (simp add: visible_live)
  qed
qed

lemma get_scan_partly:
  assumes "disk_ok X U w" and "faults w = []" and "clock_ok (length (compacted X (tables_of X w))) w"
    and "\<forall>e \<in> U. unnested X e"
    and "partly_flushed X (compacted X (tables_of X w)) w v" and "faults v = []"
  shows "get_scan X k (sort_desc (map fst (ssts v))) v = (Inr (live_entry (store_get (tables_of X w) k)), v)"
proof -
  note h = disk_okD(2) [OF assms(1)]
  let ?T = "tables_of X w" and ?C = "compacted X (tables_of X w)"
  have ok: "\<forall>c \<in> set ?C. table_ok X c" using before_deletions_facts [OF assms(1-3)] by metis
  obtain j where j: "j \<le> length ?C" and cases: "ssts v = ssts (flush_chunks X (take j ?C) w) \<or> j < length ?C \<and>
      (\<exists>n. ssts v = AList.update (next_name (flush_chunks X (take j ?C) w)) (take n (table_image X (?C ! j)))
        (ssts (flush_chunks X (take j ?C) w)))"
    using assms(5) by (auto simp: partly_flushed_def Let_def)
  let ?u = "flush_chunks X (take j ?C) w"
  have ck: "clock_ok (length (take j ?C) + (length ?C - j)) w" using assms(3) j by simp
  have "list_all (table_ok X) (take j ?C)" using ok by (auto simp: list_all_iff dest: in_set_takeD)
  from flush_chunks_holds [OF h ck this] obtain ns where ns: "length ns = length (take j ?C)"
      "holds X ?u (?T @ zip ns (take j ?C))" "sorted_wrt (<) ns" "\<forall>n \<in> set ns. \<forall>m \<in> fst ` set ?T. m < n"
      "clock_ok (length ?C - j) ?u" by blast
  have live: "live_entry (store_get (?T @ zip ns (take j ?C)) k) = live_entry (store_get ?T k)"
    by (rule store_get_partly [OF h ns(1,3,4) set_take_subset])
  have scan: "get_scan X k (sort_desc (map fst (ssts ?u))) v = (Inr (live_entry (store_get ?T k)), v)"
    if same: "\<forall>f \<in> set (map fst (ssts ?u)). map_of (ssts v) f = map_of (ssts ?u) f"
  proof -
    have "\<forall>f \<in> set (sort_desc (map fst (ssts ?u))). map_of (ssts v) f =
        Some (table_image X (table_named (?T @ zip ns (take j ?C)) f)) \<and> table_ok X (table_named (?T @ zip ns (take j ?C)) f)"
      using holds_at [OF ns(2)] same by simp
    from get_scan_ok [OF assms(6) this] live holds_names(1) [OF ns(2)] show ?thesis
      by (simp add: store_get_def newest_first_def)
  qed
  from cases show ?thesis
  proof
    assume "ssts v = ssts ?u"
    with scan show ?thesis by simp
  next
    assume "j < length ?C \<and> (\<exists>n. ssts v = AList.update (next_name ?u) (take n (table_image X (?C ! j))) (ssts ?u))"
    then obtain n where jl: "j < length ?C"
      and up: "ssts v = AList.update (next_name ?u) (take n (table_image X (?C ! j))) (ssts ?u)" by blast
    let ?cut = "take n (table_image X (?C ! j))" and ?f = "next_name ?u"
    have ck1: "clock_ok (Suc (length ?C - Suc j)) ?u" using ns(5) jl by (simp add: Suc_diff_Suc)
    have fresh: "?f \<notin> fst ` set (ssts ?u)" by (rule clock_ok_fresh [OF ck1])
    have ss: "ssts v = ssts ?u @ [(?f, ?cut)]" unfolding up by (rule update_fresh [OF fresh])
    have "\<forall>g \<in> set (map fst (ssts ?u)). g < ?f" using clock_ok_names [OF ck1] by simp
    from sort_snoc_greatest [OF this] have names: "sort_desc (map fst (ssts v)) = ?f # sort_desc (map fst (ssts ?u))"
      by (simp add: ss sort_desc_def)
    have "map_of (ssts v) ?f = Some ?cut" unfolding up by (simp add: update_conv')
    moreover have "length ?cut < 2 ^ 64" using table_okD(5) [of X "?C ! j"] ok jl by simp
    moreover have "map_of (ssts v) f = map_of (ssts ?u) f" if "f \<in> set (map fst (ssts ?u))" for f
    proof -
      have "f \<in> fst ` set (ssts ?u)" using that by (simp only: list.set_map)
      with fresh have "f \<noteq> ?f" by blast
      then show ?thesis unfolding up by (simp add: update_conv')
    qed
    then have older: "get_scan X k (sort_desc (map fst (ssts ?u))) v = (Inr (live_entry (store_get ?T k)), v)"
      by (intro scan ballI)
    ultimately consider "get_scan X k (sort_desc (map fst (ssts v))) v = get_scan X k (sort_desc (map fst (ssts ?u))) v"
      | e where "e \<in> set (read_records X ?cut)" "entry_key e = k"
          "get_scan X k (sort_desc (map fst (ssts v))) v = (Inr (visible e), v)"
      unfolding names using get_scan_file [OF assms(6)] by blast
    then show ?thesis
    proof cases
      case 1
      with older show ?thesis by simp
    next
      case (2 e)
      have c: "?C ! j \<in> set ?C" using jl by simp
      have "key_sorted (?C ! j)" unfolding key_sorted_def using table_okD(3) bspec [OF ok c] by blast
      from read_cut_table [OF disk_okD(1) [OF assms(1)] assms(4) _ this, of n] compacted_universe(1) [OF disk_okD(1) [OF assms(1)] h] c
        disk_okD(7) [OF assms(1)] 2(1) have "e \<in> set (?C ! j)" by (metis in_set_takeD)
      then have "e \<in> set (concat ?C)" using jl by auto
      with compacted_entry [OF h this] 2(2,3) show ?thesis by simp
    qed
  qed
qed

lemma length_flush_chunks: "length (ssts (flush_chunks X cs w)) \<le> length (ssts w) + length cs"
proof (induction cs arbitrary: w)
  case (Cons c cs)
  from Cons [of "flushed X c w"] length_update_le [of "next_name w" "table_image X c" "ssts w"] show ?case by simp
qed simp

lemma partly_flushed_length:
  assumes "partly_flushed X cs w v"
  shows "length (ssts v) \<le> length (ssts w) + length cs"
proof -
  obtain j where j: "j \<le> length cs" and v: "ssts v = ssts (flush_chunks X (take j cs) w) \<or> j < length cs \<and>
      (\<exists>f b. ssts v = AList.update f b (ssts (flush_chunks X (take j cs) w)))"
    using assms unfolding partly_flushed_def Let_def by blast
  have le: "length (ssts (flush_chunks X (take j cs) w)) \<le> length (ssts w) + j"
    using length_flush_chunks [of X "take j cs" w] j by simp
  from v show ?thesis
  proof
    assume "j < length cs \<and> (\<exists>f b. ssts v = AList.update f b (ssts (flush_chunks X (take j cs) w)))"
    then obtain f b where "j < length cs" and "ssts v = AList.update f b (ssts (flush_chunks X (take j cs) w))" by blast
    with le length_update_le [of f b "ssts (flush_chunks X (take j cs) w)"] show ?thesis by simp
  qed (use le j in simp)
qed

text \<open>Before the first deletion no key comes back.\<close>

lemma revived_none: "revived X 0 w = disk_map X w"
proof
  fix k
  have "lookup_entry (rev (wal_entries X w)) k = None \<longleftrightarrow> k \<notin> entry_key ` set (wal_entries X w)"
    using lookup_entry_None_iff [of "rev (wal_entries X w)" k] by simp
  then show "revived X 0 w k = disk_map X w k"
    by (auto simp: revived_def disk_map_def latest_def store_get_def split: option.split)
qed

lemma answers_memtable: "log_memtable l = log_memtable l' \<Longrightarrow> answers X l v m = answers X l' v m"
  by (simp add: answers_def log_get_def on_snd_def split: option.split prod.split)

text \<open>What the running process and the next one answer.\<close>

definition both_answer :: "crates \<Rightarrow> log \<Rightarrow> world \<Rightarrow> (string \<Rightarrow> string option) \<Rightarrow> bool" where
  "both_answer X l v M \<longleftrightarrow> answers X l (calm v) M \<and>
     (\<exists>l2. log_new X False (calm v) = (Inr l2, calm v) \<and> answers X l2 (calm v) M)"

lemma both_answer_inv:
  assumes "log_inv X U (l, calm v)" and "length (ssts v) < 2 ^ 64"
  shows "both_answer X l v (disk_map X v)"
proof -
  note i = log_invD [OF assms(1)]
  have "length (ssts (calm v)) < 2 ^ 64" using assms(2) by simp
  from log_new_ok [OF i(1,2) this] answers_inv [OF assms(1)] show ?thesis
    by (auto simp: both_answer_def dest: answers_inv)
qed

text \<open>
  A process whose memtable is the replay of the WAL, the one that ran the compaction or the
  next one, after a compaction in which anything failed.
\<close>

lemma compact_crash:
  assumes "log_inv X U (l, w)" and "clock_ok (length (compacted X (tables_of X w))) w"
    and "\<forall>e \<in> U. unnested X e"
    and "length (ssts w) + length (compacted X (tables_of X w)) < 2 ^ 64"
    and "compact X (w\<lparr>faults := fs\<rparr>) = (r, v)"
  obtains j where "j \<le> length (ssts w)" and "r = Inr () \<Longrightarrow> j = length (ssts w)"
    and "fst ` set (ssts w) \<subseteq> fst ` set (ssts v) \<Longrightarrow> revived X j w = disk_map X w"
    and "both_answer X l v (revived X j w)"
proof -
  note i = log_invD [OF assms(1)]
  have m: "log_memtable l = memtable_of X (wal_entries X w)" by (rule i(4))
  have reopen: "\<exists>l2. log_new X False (calm v) = (Inr l2, calm v) \<and> log_memtable l2 = log_memtable l"
    if wal: "wal v = wal w" and "length (ssts v) < 2 ^ 64"
  proof -
    have "wal_ok X U (calm v)" using wal_ok_cong [of "calm v" w] disk_ok_wal [OF i(1)] wal by simp
    from log_new_wal [OF this] that wal_entries_cong [of v w X] m show ?thesis by auto
  qed
  show thesis
  proof (cases rule: compact_outcome [OF i(1,2) assms(2,5)])
    case 1
    have scan: "answers X x (calm v) (disk_map X w)" if "log_memtable x = log_memtable l" for x
    proof (rule answers_scan [OF i(1)])
      fix k
      note look = wal_memtable(5) [OF i(1), of k]
      have part: "partly_flushed X (compacted X (tables_of X w)) w (calm v)"
        using 1(2) by (simp add: partly_flushed_def)
      show "memtable_get (log_memtable x) k = Some e \<Longrightarrow> latest X w k = Some e" for e
        using look that m by (simp add: latest_def)
      assume "memtable_get (log_memtable x) k = None"
      then have "latest X w k = store_get (tables_of X w) k" using look that m by (simp add: latest_def)
      with get_scan_partly [OF i(1,2) assms(2,3) part, of k]
      show "get_scan X k (sort_desc (map fst (ssts (calm v)))) (calm v) = (Inr (live_entry (latest X w k)), calm v)"
        by simp
    qed simp
    have wal: "wal v = wal w" using 1(2) by (simp add: partly_flushed_def)
    have "length (ssts v) < 2 ^ 64" using partly_flushed_length [OF 1(2)] assms(4) by simp
    from reopen [OF wal this] obtain l2 where l2: "log_new X False (calm v) = (Inr l2, calm v)"
        "log_memtable l2 = log_memtable l" by blast
    have "revived X (length (ssts w)) w = disk_map X w" by (rule revived_all) simp
    with that [of "length (ssts w)"] l2 scan [OF l2(2)] scan [of l] show thesis by (auto simp: both_answer_def)
  next
    case (2 j)
    note a = after_deletions [OF i(1,2) assms(2) 2(4,2)]
    have "length (ssts v) < 2 ^ 64"
    proof -
      have "length (ssts v) \<le> length (ssts (before_deletions X w))" unfolding 2(4) by (rule length_filter_le)
      also have "\<dots> \<le> length (ssts w) + length (compacted X (tables_of X w))"
        unfolding before_deletions_def by (rule length_flush_chunks)
      finally show ?thesis using assms(4) by simp
    qed
    moreover have "log_inv X U (l, calm v)"
      using i a(1) wal_entries_cong [OF 2(2), of X] by (simp add: log_inv_def memtable_of_def)
    ultimately have ans: "both_answer X l v (revived X j w)" using both_answer_inv a(2) by metis
    have "revived X j w = disk_map X w" if kept: "fst ` set (ssts w) \<subseteq> fst ` set (ssts v)"
    proof -
      let ?ns = "sort_desc (map fst (ssts w))"
      have none: "set (take j ?ns) \<inter> fst ` set (ssts v) = {}" unfolding 2(4) by auto
      have "set (take j ?ns) \<subseteq> fst ` set (ssts w)" using set_take_subset [of j ?ns] by simp
      from inf.absorb1 [OF subset_trans [OF this kept], symmetric] none have "set (take j ?ns) = {}" by (rule trans)
      then have "length (take j ?ns) = 0" by (simp only: set_empty list.size)
      then have "j = 0" using 2(1) by (simp only: length_take length_sort_desc length_map)
      then show ?thesis by (simp add: revived_none)
    qed
    with that [of j] 2(1,3) ans show thesis by blast
  qed
qed

end
