(* ===== verification/Failure.thy ===== *)
theory Failure
  imports Interrupt Runner
begin

text \<open>
  Commands and sessions when calls to the operating system fail, or the process ends, at any
  point.
\<close>

section \<open>The entries that can come back\<close>

definition stored_entries :: "crates \<Rightarrow> world \<Rightarrow> entry set" where
  "stored_entries X w = (\<Union>p \<in> set (tables_of X w). set (snd p)) \<union> set (wal_entries X w)"

text \<open>
  \<open>resurfaced E m M\<close>: every key has in \<open>M\<close> the value it has in \<open>m\<close>; one that has none can have a
  value only if an entry of \<open>E\<close> sets it.
\<close>

definition resurfaced :: "entry set \<Rightarrow> (string \<Rightarrow> string option) \<Rightarrow> (string \<Rightarrow> string option) \<Rightarrow> bool" where
  "resurfaced E m M \<longleftrightarrow> (\<forall>k. M k = m k \<or> m k = None \<and> (\<exists>x. M k = Some x \<and> Set k x \<in> E))"

lemma resurfaced_refl [simp, intro]: "resurfaced E m m"
  by (simp add: resurfaced_def)

lemma resurfaced_mono: "resurfaced E m M \<Longrightarrow> E \<subseteq> F \<Longrightarrow> resurfaced F m M"
  unfolding resurfaced_def by blast

lemma newest_first_entries:
  assumes "es \<in> set (newest_first T)"
  shows "set es \<subseteq> (\<Union>p \<in> set T. set (snd p))"
proof -
  obtain n where n: "es = table_named T n" using assms by (auto simp: newest_first_def)
  show ?thesis
  proof (cases "map_of T n")
    case (Some fs)
    from map_of_SomeD [OF this] n Some show ?thesis by (fastforce simp: table_named_def)
  qed (simp add: n table_named_def)
qed

lemma revived_resurfaced: "resurfaced (stored_entries X w) (disk_map X w) (revived X j w)"
  unfolding resurfaced_def
proof
  fix k
  show "revived X j w k = disk_map X w k \<or> disk_map X w k = None \<and>
      (\<exists>x. revived X j w k = Some x \<and> Set k x \<in> stored_entries X w)"
  proof (cases "disk_map X w k = revived X j w k")
    case False
    then have none: "disk_map X w k = None" by (auto simp: revived_def split: option.splits)
    with False obtain x where x: "revived X j w k = Some x" by (cases "revived X j w k") auto
    with none obtain e where e: "newest (drop j (newest_first (tables_of X w))) k = Some e" "entry_value e = Some x"
      by (auto simp: revived_def split: if_splits option.splits)
    from newest_Some [OF e(1)] obtain es where es: "entry_key e = k" "e \<in> set es"
        "es \<in> set (newest_first (tables_of X w))" by (auto dest: in_set_dropD)
    have "e \<in> stored_entries X w" using newest_first_entries [OF es(3)] es(2) by (auto simp: stored_entries_def)
    moreover have "e = Set k x" using e(2) es(1) by (cases e) simp_all
    ultimately show ?thesis using none x by simp
  qed simp
qed

section \<open>A flush\<close>

text \<open>A flush up to the compaction that may follow: the calls on files, and the count.\<close>

definition flush_files :: "crates \<Rightarrow> (log \<times> world, nat) sio" where
  "flush_files X = bindS (on_memtable (flush_to X)) (\<lambda>_. bindS (on_wal set_len_zero) (\<lambda>_. on_wal (seek_start 0)))"

definition flush_core :: "crates \<Rightarrow> (log \<times> world, unit) sio" where
  "flush_core X = bindS (flush_files X) (\<lambda>_ s.
     (Inr (), ((fst s)\<lparr>flush_count := saturating_add (flush_count (fst s)) 1\<rparr>, snd s)))"

lemma log_flush_core:
  "log_flush X = bindS (flush_core X) (\<lambda>_ s.
     if flush_count (fst s) mod COMPACT_EVERY_N_FLUSHES = 0 then on_snd (compact X) s else (Inr (), s))"
  unfolding log_flush_def flush_core_def flush_files_def bindS_assoc
  by (rule arg_cong [where f = "bindS _"] ext)+ (simp add: bindS_def Let_def split: prod.split sum.split)

text \<open>The calls before the count do not look at it.\<close>

definition uncounting :: "(log \<times> world, 'a) sio \<Rightarrow> bool" where
  "uncounting m \<longleftrightarrow> (\<forall>l w c. m (l\<lparr>flush_count := c\<rparr>, w) =
     apsnd (apfst (\<lambda>l. l\<lparr>flush_count := c\<rparr>)) (m (l, w)))"

lemma uncounting_on_memtable: "uncounting (on_memtable m)"
  by (simp add: uncounting_def on_memtable_def split: prod.split)

lemma uncounting_on_wal: "uncounting (on_wal m)"
  by (simp add: uncounting_def on_wal_def split: prod.split)

lemma uncounting_bindS:
  assumes "uncounting m" and "\<And>x. uncounting (k x)"
  shows "uncounting (bindS m k)"
  using assms by (simp add: uncounting_def bindS_def split: prod.split sum.split)

lemma uncounting_kept:
  assumes "uncounting m" and "m (l, w) = (r, (l', v))"
  shows "flush_count l' = flush_count l"
proof -
  have "m (l\<lparr>flush_count := flush_count l\<rparr>, w) = (r, (l'\<lparr>flush_count := flush_count l\<rparr>, v))"
    using assms(2) assms(1) [unfolded uncounting_def, rule_format, of "flush_count l" l w] by simp
  with assms(2) have "l' = l'\<lparr>flush_count := flush_count l\<rparr>" by simp
  then show ?thesis by (metis log.select_convs(3) log.surjective log.update_convs(3))
qed

lemma flush_core_uncounted:
  assumes "flush_core X (l, w) = (r, (l', v))"
  shows "\<exists>l0. log_flush X (l\<lparr>flush_count := 0\<rparr>, w) = (r, (l0, v)) \<and> log_memtable l0 = log_memtable l' \<and>
    wal_file l0 = wal_file l' \<and> flush_count l' = (if r = Inr () then saturating_add (flush_count l) 1 else flush_count l)"
proof -
  have u: "uncounting (flush_files X)"
    unfolding flush_files_def by (intro uncounting_bindS uncounting_on_memtable uncounting_on_wal)
  obtain r1 l1 w1 where m: "flush_files X (l, w) = (r1, (l1, w1))" by (metis surj_pair)
  then have "flush_files X (l\<lparr>flush_count := 0\<rparr>, w) = (r1, (l1\<lparr>flush_count := 0\<rparr>, w1))"
    using u by (simp add: uncounting_def)
  with m assms uncounting_kept [OF u m] show ?thesis
    by (cases r1) (auto simp: log_flush_core flush_core_def bindS_def saturating_add_def COMPACT_EVERY_N_FLUSHES_def)
qed

text \<open>A flush that stops before its compaction: nothing is lost, and nothing comes back.\<close>

lemma flush_core_outcome:
  assumes "log_inv X U (l, w)" and "\<forall>e \<in> U. unnested X e" and "clock_ok (Suc n) w"
    and "memtable_values (log_memtable l) \<noteq> []" and "Suc (length (ssts w)) < 2 ^ 64"
    and "flush_core X (l, w\<lparr>faults := fs\<rparr>) = (r, (l', v))"
  shows "both_answer X l' v (disk_map X w)"
    and "r = Inr () \<Longrightarrow> log_inv X U (l', calm v) \<and> disk_map X v = disk_map X w \<and> wal v = [] \<and>
      tables_of X v = with_memtable (log_memtable l) w (tables_of X w) \<and> clock_ok n (calm v) \<and>
      stored X v \<le> stored X w \<and> flush_count l' = saturating_add (flush_count l) 1"
    and "wal v = wal w \<or> wal v = []"
proof -
  note i = log_invD [OF assms(1)]
  let ?l = "l\<lparr>flush_count := 0\<rparr>"
  obtain l0 where l0: "log_flush X (?l, w\<lparr>faults := fs\<rparr>) = (r, (l0, v))" "log_memtable l0 = log_memtable l'"
      "wal_file l0 = wal_file l'"
      "flush_count l' = (if r = Inr () then saturating_add (flush_count l) 1 else flush_count l)"
    using flush_core_uncounted [OF assms(6)] by blast
  have inv: "log_inv X U (?l, w)" using assms(1) by (simp add: log_inv_def)
  have nd: "\<not> compaction_due ?l" by (simp add: compaction_due_def saturating_add_def COMPACT_EVERY_N_FLUSHES_def)
  let ?es = "memtable_values (log_memtable l)"
  have es: "set ?es \<subseteq> U" "key_sorted ?es"
    using wal_memtable(4) [OF i(1)] table_ok_memtable [OF i(1)] assms(4) i(4) by (auto simp: key_sorted_def dest: table_okD(3))
  have cut: "\<forall>i. entry_key ` set (read_records X (take i (table_image X (memtable_values (log_memtable ?l)))))
      \<subseteq> entry_key ` set (memtable_values (log_memtable ?l))"
  proof
    fix j
    obtain i where "read_records X (take j (table_image X ?es)) = take i ?es" using read_cut_table [OF disk_okD(1) [OF i(1)] assms(2) es] by blast
    with image_mono [OF set_take_subset [of i ?es], of entry_key]
    show "entry_key ` set (read_records X (take j (table_image X (memtable_values (log_memtable ?l)))))
      \<subseteq> entry_key ` set (memtable_values (log_memtable ?l))" by simp
  qed
  have ne: "memtable_values (log_memtable ?l) \<noteq> []" using assms(4) by simp
  note c = log_flush_crash [OF inv assms(3) nd ne assms(5) cut l0(1)]
  show "both_answer X l' v (disk_map X w)"
    using c answers_memtable [OF l0(2)] by (simp add: both_answer_def)
  have c0: "0 \<le> clock (w\<lparr>faults := fs\<rparr>) (ticks (w\<lparr>faults := fs\<rparr>))" using clock_ok_now [OF assms(3)] by simp
  have m: "memtable_wf X (log_memtable ?l)" "memtable_len (log_memtable ?l) * 10 < 2 ^ 32" "fid (wal_file ?l) = Wal"
    using wal_memtable(1,3) [OF i(1)] disk_okD(6) [OF i(1)] i(3,4) by simp_all
  show "wal v = wal w \<or> wal v = []"
    by (cases rule: log_flush_outcome [OF m(1) ne m(2) c0 m(3) nd l0(1)]) (simp_all add: torn_table_def)
  assume "r = Inr ()"
  with calmingD [OF calming_log_flush, of X "(?l, w\<lparr>faults := fs\<rparr>)"] l0(1) i(2)
  have "log_flush X (?l, w) = (Inr (), (l0, calm v))" by (simp add: calm_id)
  moreover have "clock_ok (flush_cost X (?l, w) + n) w"
    using clock_ok_mono [OF assms(3)] nd table_cost_le [OF i(1)] by (simp add: flush_cost_def i(4) Let_def)
  ultimately show "log_inv X U (l', calm v) \<and> disk_map X v = disk_map X w \<and> wal v = [] \<and>
      tables_of X v = with_memtable (log_memtable l) w (tables_of X w) \<and> clock_ok n (calm v) \<and>
      stored X v \<le> stored X w \<and> flush_count l' = saturating_add (flush_count l) 1"
    using log_flush_ok [OF inv, of n] l0(2-4) nd \<open>r = Inr ()\<close>
    by (auto simp: log_inv_def flushed_tables_def stored_def)
qed

lemma stored_flushed:
  assumes "tables_of X v = with_memtable (memtable_of X (wal_entries X w)) w (tables_of X w)" and "wal v = []"
  shows "stored_entries X v \<subseteq> stored_entries X w"
proof -
  have "set (memtable_values (memtable_of X (wal_entries X w))) \<subseteq> set (wal_entries X w)"
    using set_values_fold_inserted [of X "wal_entries X w" memtable_new] by (simp add: memtable_of_def)
  then show ?thesis
    using assms(1) wal_entries_empty [OF assms(2)] by (auto simp: stored_entries_def with_memtable_def split: if_splits)
qed

lemma log_busyD:
  assumes "log_busy X n (l, w)"
  shows "clock_ok (Suc (stored X w)) w" and "stored X w \<le> 2 ^ 28"
  using assms clock_ok_mono by (auto simp: log_busy_def MAX_WAL_ENTRIES_def)

lemma compact_wal:
  assumes "disk_ok X U w" and "faults w = []" and "clock_ok (length (compacted X (tables_of X w))) w"
    and "compact X (w\<lparr>faults := fs\<rparr>) = (r, v)"
  shows "wal v = wal w"
  by (cases rule: compact_outcome [OF assms]) (simp_all add: partly_flushed_def)

lemma compact_room:
  assumes "log_inv X U (l, w)" and "log_room X 1 (l, w)"
  shows "clock_ok (length (compacted X (tables_of X w))) w"
    and "length (ssts w) + length (compacted X (tables_of X w)) < 2 ^ 64"
proof -
  have "log_busy X 0 (l, w)" using log_room_busy [of X 0] assms(2) by simp
  note room = log_busyD [OF this] and h = disk_okD(2) [OF log_invD(1) [OF assms(1)]]
  have len: "length (compacted X (tables_of X w)) \<le> stored X w" "length (ssts w) \<le> stored X w"
    using compacted_length(2) [OF h] length_ssts_le [OF h] by (simp_all add: stored_def)
  then show "clock_ok (length (compacted X (tables_of X w))) w" using clock_ok_mono [OF room(1)] by simp
  show "length (ssts w) + length (compacted X (tables_of X w)) < 2 ^ 64" using len room(2) by simp
qed

lemma log_flush_faults:
  assumes "log_inv X U (l, w)" and "\<forall>e \<in> U. unnested X e" and "log_busy X n (l, w)"
    and "memtable_values (log_memtable l) \<noteq> []" and "log_flush X (l, w\<lparr>faults := fs\<rparr>) = (r, (l', v))"
  obtains M where "both_answer X l' v M" and "resurfaced (stored_entries X w) (disk_map X w) M"
    and "r = Inr () \<or> \<not> compaction_due l \<Longrightarrow> M = disk_map X w" and "wal v = wal w \<or> wal v = []"
proof -
  note i = log_invD [OF assms(1)]
  note room = log_busyD [OF assms(3)]
  have "length (ssts w) \<le> stored X w"
    using length_ssts_le [OF disk_okD(2) [OF i(1)]] by (simp add: stored_def)
  with room(2) have few: "Suc (length (ssts w)) < 2 ^ 64" by simp
  obtain r1 l1 w1 where core: "flush_core X (l, w\<lparr>faults := fs\<rparr>) = (r1, (l1, w1))" by (metis surj_pair)
  note c = flush_core_outcome [OF assms(1,2) room(1) assms(4) few core]
  have "(r, (l', v)) = (case r1 of Inl e \<Rightarrow> (Inl e, (l1, w1)) | Inr _ \<Rightarrow>
      if flush_count l1 mod COMPACT_EVERY_N_FLUSHES = 0 then on_snd (compact X) (l1, w1) else (Inr (), (l1, w1)))"
    using assms(5) core by (cases r1) (auto simp: log_flush_core bindS_def)
  then consider (short) "l' = l1" "v = w1" "r1 = Inr () \<longrightarrow> \<not> compaction_due l"
    | (long) "r1 = Inr ()" "compaction_due l" "l' = l1" "compact X w1 = (r, v)"
    using c(2) by (auto simp: compaction_due_def on_snd_def split: sum.splits if_splits prod.splits)
  then show thesis
  proof cases
    case short
    with c(1,3) that [of "disk_map X w"] show thesis by simp
  next
    case long
    have ok: "log_inv X U (l1, calm w1)" "disk_map X w1 = disk_map X w" "wal w1 = []"
        "tables_of X w1 = with_memtable (log_memtable l) w (tables_of X w)" "clock_ok (stored X w) (calm w1)"
        "stored X w1 \<le> stored X w"
      using c(2) [OF long(1)] by simp_all
    have h: "holds X (calm w1) (tables_of X w1)" using disk_okD(2) [OF log_invD(1) [OF ok(1)]] by simp
    have len: "length (compacted X (tables_of X (calm w1))) \<le> stored X w" "length (ssts (calm w1)) \<le> stored X w"
      using compacted_length(2) [OF h] length_ssts_le [OF h] ok(6) by (simp_all add: stored_def)
    have run: "compact X ((calm w1)\<lparr>faults := faults w1\<rparr>) = (r, v)" using long(4) by (simp only: calm_faults [symmetric])
    have small: "length (ssts (calm w1)) + length (compacted X (tables_of X (calm w1))) < 2 ^ 64"
      using len room(2) by simp
    obtain j where j: "r = Inr () \<Longrightarrow> j = length (ssts (calm w1))" "both_answer X l1 v (revived X j (calm w1))"
      using compact_crash [OF ok(1) clock_ok_mono [OF ok(5) len(1)] assms(2) small run] by metis
    have "both_answer X l' v (revived X j (calm w1))" using j(2) long(3) by simp
    moreover have "stored_entries X (calm w1) \<subseteq> stored_entries X w"
      using stored_flushed [OF _ ok(3)] ok(4) i(4) by (simp add: stored_entries_def)
    then have "resurfaced (stored_entries X w) (disk_map X w) (revived X j (calm w1))"
      using resurfaced_mono [OF revived_resurfaced [of X "calm w1" j]] ok(2) by simp
    moreover have "revived X j (calm w1) = disk_map X w" if "r = Inr () \<or> \<not> compaction_due l"
      using j(1) that long(2) revived_all [of "calm w1" j X] ok(2) by simp
    moreover have "wal v = wal w \<or> wal v = []"
      using compact_wal [OF log_invD(1,2) [OF ok(1)] clock_ok_mono [OF ok(5) len(1)] run] ok(3) by simp
    ultimately show thesis by (rule that)
  qed
qed

section \<open>Lookups and writes\<close>

lemma keeps_find_in_table: "keeps (\<lambda>s t. same_disk (snd s) (snd t)) (find_in_table X k)"
  unfolding keeps_def
proof (intro allI)
  fix s
  show "same_disk (snd s) (snd (snd (find_in_table X k s)))"
  proof (induction X k s rule: find_in_table.induct)
    case (1 X k s)
    obtain r u where r: "read_next_entry X s = (r, u)" by (metis surj_pair)
    have "same_disk (snd s) (snd u)" using keepsD [OF keeps_read_next_entry, of X s] r by simp
    then show ?case
      using 1 r by (auto simp: find_in_table.simps [of X k s] split: sum.split option.split intro: same_disk_trans)
  qed
qed

lemma keeps_get_scan [keeps_rules]: "keeps same_disk (get_scan X k ns)"
proof (induction ns)
  case (Cons n ns)
  have "same_disk w (snd (with_local t (find_in_table X k) w))" for t w
    using keepsD [OF keeps_find_in_table, of X k "(t, w)"] by (auto simp: with_local_def split: prod.splits)
  then have "keeps same_disk (with_local t (find_in_table X k))" for t by (simp add: keeps_def)
  with Cons show ?case
    by (auto intro!: keeps_structure keeps_rules split: option.split)
qed (simp add: keeps_def)

lemma log_get_faults:
  assumes "log_get X k (l, w) = (r, (l', v))"
  shows "l' = l" and "same_disk w v"
proof -
  have "keeps same_disk (bindS read_dir (\<lambda>names. get_scan X k (sort_desc names)))"
    by (intro keeps_structure keeps_rules) simp_all
  from keepsD [OF this, of w] assms show "l' = l" and "same_disk w v"
    by (auto simp: log_get_def on_snd_def split: option.splits prod.splits)
qed

text \<open>
  A write in which any call fails: the next process finds the entry in the store or does not,
  and nothing else has changed.
\<close>

lemma log_write_faults:
  assumes "log_inv X U (l, w)" and "\<forall>e \<in> U. unnested X e" and "intact X w" and "e \<in> U"
    and "length (wal_entries X w) < MAX_WAL_ENTRIES" and "length (ssts w) < 2 ^ 64"
    and "log_write X e (l, w\<lparr>faults := fs\<rparr>) = (r, (l', v))"
  shows "\<exists>l2. log_new X False (calm v) = (Inr l2, calm v) \<and>
      (answers X l2 (calm v) (disk_map X w) \<or> answers X l2 (calm v) (apply_entry e (disk_map X w)))"
    and "r \<noteq> Inr () \<Longrightarrow> answers X l' (calm v) (disk_map X w)" and "r = Inr () \<Longrightarrow> intact X v"
proof -
  note i = log_invD [OF assms(1)] and d = disk_okD [OF log_invD(1) [OF assms(1)]]
  note f = faulty_write [OF faulty_inv [OF assms(1)] assms(4,5,7)]
  have s: "ssts v = ssts w" using f(2) by simp
  obtain n where n: "wal v = records_bytes X (wal_entries X w) @ take n (record_bytes X e)"
      "r = Inr () \<longrightarrow> n = length (record_bytes X e)"
    using f(3) assms(3) by (auto simp: intact_def)
  have e: "entry_ok X e" using universeD(1) [OF d(1) assms(4)] .
  then have ok: "list_all (entry_ok X) (wal_entries X w @ [e])" using d(5) by simp
  let ?es = "if n < length (record_bytes X e) then [] else [e]"
  have we: "wal_entries X v = wal_entries X w @ ?es"
    using read_records_cut [OF ok, of n] assms(2,4) n(1) by (simp add: wal_entries_def)
  have len: "length (wal v) < 2 ^ 64"
    using length_records_bytes_le [OF d(5)] d(6) entry_ok_bounds(1) [OF e] by (simp add: n(1) HEADER_LEN_def)
  have "set ?es \<subseteq> U" "length (wal_entries X w) + length ?es \<le> MAX_WAL_ENTRIES" using assms(4,5) by simp_all
  from reopened_answers [OF i(1) assms(3) this s assms(6) we len]
  show "\<exists>l2. log_new X False (calm v) = (Inr l2, calm v) \<and>
      (answers X l2 (calm v) (disk_map X w) \<or> answers X l2 (calm v) (apply_entry e (disk_map X w)))"
    by (cases "n < length (record_bytes X e)") auto
  show "answers X l' (calm v) (disk_map X w)" if "r \<noteq> Inr ()"
    using faulty_answers_more [of X U w "[]" l' v] f(1) s that by simp
  show "intact X v" if "r = Inr ()"
    using n we that by (simp add: intact_def)
qed

section \<open>Commands\<close>

text \<open>
  \<open>found X E ms l v\<close>: the store answers from one of the maps \<open>ms\<close>, but for keys that come back
  from entries in \<open>E\<close>. \<open>survives\<close>: so do the running process and the next one.
\<close>

definition found :: "crates \<Rightarrow> entry set \<Rightarrow> kv_map set \<Rightarrow> log \<Rightarrow> world \<Rightarrow> bool" where
  "found X E ms l v \<longleftrightarrow> (\<exists>m \<in> ms. \<exists>M. resurfaced E m M \<and> answers X l (calm v) M)"

definition survives :: "crates \<Rightarrow> entry set \<Rightarrow> kv_map set \<Rightarrow> log \<Rightarrow> world \<Rightarrow> bool" where
  "survives X E ms l v \<longleftrightarrow> found X E ms l v \<and>
     (\<exists>l2. log_new X False (calm v) = (Inr l2, calm v) \<and> found X E ms l2 v)"

lemma survives_both:
  assumes "both_answer X l v M" and "resurfaced E m M" and "m \<in> ms"
  shows "survives X E ms l v"
  using assms unfolding survives_def found_def both_answer_def by blast

lemma survives_unchanged:
  assumes "log_inv X U (l, w)" and "length (ssts w) < 2 ^ 64" and "same_disk w v" and "disk_map X w \<in> ms"
  shows "survives X (stored_entries X w) ms l v"
proof -
  note i = log_invD [OF assms(1)]
  have c: "wal (calm v) = wal w" "ssts (calm v) = ssts w" using assms(3) by (simp_all add: same_disk_def)
  have "log_inv X U (l, calm v)"
    using disk_ok_cong [OF c] wal_entries_cong [OF c(1)] i by (simp add: log_inv_def memtable_of_def)
  moreover have "length (ssts v) < 2 ^ 64" using assms(2) c(2) by simp
  ultimately have "both_answer X l v (disk_map X v)" by (rule both_answer_inv)
  moreover have "disk_map X v = disk_map X w" using disk_map_cong [OF c] by simp
  ultimately show ?thesis using survives_both [OF _ resurfaced_refl assms(4)] by simp
qed

lemma maybe_flush_faults:
  assumes "log_inv X U (l, w)" and "\<forall>e \<in> U. unnested X e" and "log_busy X n (l, w)"
    and "maybe_flush X (l, w\<lparr>faults := fs\<rparr>) = (r, (l', v))"
  obtains M where "both_answer X l' v M" and "resurfaced (stored_entries X w) (disk_map X w) M"
    and "wal v = wal w \<or> wal v = []"
proof (cases "should_flush (log_memtable l)")
  case True
  note i = log_invD [OF assms(1)]
  have ne: "memtable_values (log_memtable l) \<noteq> []"
    using True is_empty_iff [of X "log_memtable l"] is_empty_new wal_memtable(1) [OF i(1)] i(4) not_should_flush_new by metis
  have "log_flush X (l, w\<lparr>faults := fs\<rparr>) = (r, (l', v))" using assms(4) True by (simp add: maybe_flush_def)
  then obtain M where "both_answer X l' v M" "resurfaced (stored_entries X w) (disk_map X w) M"
      "wal v = wal w \<or> wal v = []"
    by (rule log_flush_faults [OF assms(1-3) ne])
  then show thesis by (rule that)
next
  case False
  then have v: "l' = l" "v = w\<lparr>faults := fs\<rparr>" using assms(4) by (simp_all add: maybe_flush_def)
  note i = log_invD [OF assms(1)]
  have "calm v = w" using v(2) i(2) by (simp add: calm_def)
  moreover have "length (ssts v) < 2 ^ 64"
    using length_ssts_le [OF disk_okD(2) [OF i(1)]] log_busyD(2) [OF assms(3)] v(2) by (simp add: stored_def)
  ultimately have "both_answer X l' v (disk_map X v)" using both_answer_inv [of X U l v] assms(1) v(1) by simp
  then show thesis using that [of "disk_map X w"] v(2) disk_map_cong [of v w X] by simp
qed

lemma resurfaced_insert:
  "resurfaced (insert (Set k x) E) m M \<Longrightarrow> m k \<noteq> None \<Longrightarrow> resurfaced E m M"
  "resurfaced (insert (Delete k) E) m M \<Longrightarrow> resurfaced E m M"
  unfolding resurfaced_def by auto

text \<open>An entry is written and a flush may follow: the map is as before or as after.\<close>

lemma put_faults:
  assumes "log_inv X U (l, w)" and "\<forall>e \<in> U. unnested X e" and "intact X w" and "log_room X (Suc n) (l, w)" and "e \<in> U"
    and "bindS (log_write X e) (\<lambda>_. maybe_flush X) (l, w\<lparr>faults := fs\<rparr>) = (r, (l', v))"
  shows "survives X (stored_entries X w) {disk_map X w, apply_entry e (disk_map X w)} l' v \<and> (r = Inr () \<or> fs = [] \<longrightarrow> intact X v)"
proof -
  note i = log_invD [OF assms(1)]
  have few: "length (ssts w) < 2 ^ 64" using room_tables [OF i(1)] assms(4) by (simp add: log_room_def)
  obtain r1 l1 w1 where wr: "log_write X e (l, w\<lparr>faults := fs\<rparr>) = (r1, (l1, w1))" by (metis surj_pair)
  have less: "length (wal_entries X w) < MAX_WAL_ENTRIES"
    using assms(4) by (simp add: log_room_def disk_room_def stored_def)
  note f = log_write_faults [OF assms(1-3,5) less few wr]
  show ?thesis
  proof (cases "r1 = Inr ()")
    case False
    then have v: "l' = l1" "v = w1" using assms(6) wr by (cases r1; auto simp: bindS_def)+
    have "found X (stored_entries X w) {disk_map X w, apply_entry e (disk_map X w)} l1 w1" using f(2) [OF False] by (auto simp: found_def)
    moreover have "\<exists>l2. log_new X False (calm w1) = (Inr l2, calm w1) \<and>
        found X (stored_entries X w) {disk_map X w, apply_entry e (disk_map X w)} l2 w1" using f(1) by (auto simp: found_def)
    moreover have "r \<noteq> Inr ()" using assms(6) wr False by (cases r1) (auto simp: bindS_def)
    moreover have "fs \<noteq> []" using log_write_ok [OF assms(1,5) less] wr False calm_faulted [OF i(2)] by (auto simp: calm_def)
    ultimately show ?thesis using v by (simp add: survives_def)
  next
    case True
    obtain h where ok: "log_write X e (l, w) = (Inr (), (l\<lparr>wal_file := h, log_memtable := inserted X e (log_memtable l)\<rparr>, appended X e w))"
        "log_inv X U (l\<lparr>wal_file := h, log_memtable := inserted X e (log_memtable l)\<rparr>, appended X e w)"
      using log_write_ok [OF assms(1,5) less] by blast
    have "log_write X e (l, w) = (Inr (), (l1, calm w1))"
      using calmingD [OF calming_log_write, of X e "(l, w\<lparr>faults := fs\<rparr>)"] wr True calm_faulted [OF i(2)] by simp
    with ok have w1: "calm w1 = appended X e w" and inv: "log_inv X U (l1, appended X e w)" by auto
    have busy: "log_busy X n (l1, appended X e w)" by (rule log_room_append [OF i(1) assms(5,4)])
    have mf: "maybe_flush X (l1, (appended X e w)\<lparr>faults := faults w1\<rparr>) = (r, (l', v))"
      using assms(6) wr True unfolding w1 [symmetric] by (simp add: bindS_def calm_faults [symmetric])
    obtain M where M: "both_answer X l' v M"
        "resurfaced (stored_entries X (appended X e w)) (disk_map X (appended X e w)) M"
        "wal v = wal (appended X e w) \<or> wal v = []"
      by (rule maybe_flush_faults [OF inv assms(2) busy mf])
    have "resurfaced (insert e (stored_entries X w)) (apply_entry e (disk_map X w)) M"
      using M(2) disk_map_append [OF i(1) assms(5)] wal_entries_append [OF i(1) assms(5)]
      by (simp add: stored_entries_def apply_entry_def)
    then have "resurfaced (stored_entries X w) (apply_entry e (disk_map X w)) M"
      by (cases e) (auto dest: resurfaced_insert)
    with M(1) have "survives X (stored_entries X w) {disk_map X w, apply_entry e (disk_map X w)} l' v" by (rule survives_both) simp
    moreover have "intact X (appended X e w)"
      using f(3) [OF True] unfolding w1 [symmetric] by (simp add: intact_cong [of "calm w1" w1])
    ultimately show ?thesis using intact_kept [OF M(3)] by blast
  qed
qed

text \<open>Success under faults is success without.\<close>

lemma calming_apfst [calming_rules]: "calming c m \<Longrightarrow> calming (apfst c) (on_fst m)"
  by (auto simp: calming_def on_fst_def split: prod.splits)

lemma calming_apfst_snd [calming_rules]: "calming (apfst c) (on_snd m)"
  by (auto simp: calming_def on_snd_def split: prod.splits)

lemma calming_entry [calming_rules]:
  "(\<And>k v. calming c (f k v)) \<Longrightarrow> (\<And>k. calming c (g k)) \<Longrightarrow> calming c (case e of Set k v \<Rightarrow> f k v | Delete k \<Rightarrow> g k)"
  by (cases e) simp_all

lemma calming_execute: "calming (apfst (apsnd calm)) (execute X c)"
  unfolding execute_def by (cases c; simp only: command.case; intro calming_rules)

lemma execute_success:
  assumes "log_inv X U (l, w)" and "log_room X (Suc n) (l, w)" and "good_command U c"
    and "execute X c ((l, w\<lparr>faults := fs\<rparr>), wr) = (Inr (), ((l', v), wr'))"
  shows "log_inv X U (l', calm v)" and "log_room X n (l', calm v)" and "disk_map X v = spec_map c (disk_map X w)"
    and "execute X c ((l, w), wr) = (Inr (), ((l', calm v), wr'))"
proof -
  have calm: "execute X c ((l, w), wr) = (Inr (), ((l', calm v), wr'))"
    using calmingD [OF calming_execute, of X c "((l, w\<lparr>faults := fs\<rparr>), wr)"] assms(4)
      calm_faulted [OF log_invD(2) [OF assms(1)]] by simp
  then show "execute X c ((l, w), wr) = (Inr (), ((l', calm v), wr'))" .
  from execute_refines [OF assms(1-3), of wr] show "log_inv X U (l', calm v)" "log_room X n (l', calm v)"
      "disk_map X v = spec_map c (disk_map X w)"
    unfolding calm by (auto simp: refines_def spec_execute_def split: if_splits prod.splits sum.splits)
qed

lemma delete_faults:
  assumes "log_inv X U (l, w)" and "\<forall>e \<in> U. unnested X e" and "intact X w" and "log_room X (Suc n) (l, w)"
    and "Delete k \<in> U" and "execute X (CDelete k) ((l, w\<lparr>faults := fs\<rparr>), wr) = (r, ((l', v), wr'))"
  shows "survives X (stored_entries X w) {disk_map X w, (disk_map X w)(k := None)} l' v \<and> (r = Inr () \<or> fs = [] \<longrightarrow> intact X v)"
proof -
  note i = log_invD [OF assms(1)]
  have few: "length (ssts w) < 2 ^ 64" using room_tables [OF i(1)] assms(4) by (simp add: log_room_def)
  have same: "survives X (stored_entries X w) {disk_map X w, (disk_map X w)(k := None)} l u \<and> intact X u"
    if "same_disk w u" for u
    using survives_unchanged [OF assms(1) few that] intact_cong [of u w X] assms(3) that
    by (simp add: same_disk_def)
  obtain r1 l1 w1 where g: "log_contains X k (l, w\<lparr>faults := fs\<rparr>) = (r1, (l1, w1))" by (metis surj_pair)
  then obtain r0 where "log_get X k (l, w\<lparr>faults := fs\<rparr>) = (r0, (l1, w1))"
    by (auto simp: log_contains_def bindS_def split: sum.splits prod.splits)
  from log_get_faults [OF this] have g1: "l1 = l" "same_disk w w1" by (simp_all add: same_disk_def)
  then have w1: "w1 = w\<lparr>faults := faults w1\<rparr>" by (simp add: same_disk_def)
  show ?thesis
  proof (cases r1)
    case (Inl a)
    with assms(6) g g1 same show ?thesis by (auto simp: execute_def bindS_def on_fst_def)
  next
    case (Inr found)
    let ?text = "if found then k @ '' deleted'' else k @ '' not found''"
    obtain r2 wr2 where o: "writeln ?text wr = (r2, wr2)" by fastforce
    show ?thesis
    proof (cases r2)
      case (Inl a)
      with assms(6) g Inr g1 o same show ?thesis
        by (auto simp: execute_def bindS_def on_fst_def on_snd_def split: if_splits)
    next
      case Inr2: (Inr a)
      show ?thesis
      proof (cases found)
        case True
        have "bindS (log_write X (Delete k)) (\<lambda>_. maybe_flush X) (l, w\<lparr>faults := faults w1\<rparr>) = (r, (l', v))"
          using assms(6) g g1(1) Inr Inr2 True o unfolding w1 [symmetric]
          by (auto simp: execute_def bindS_def on_snd_def on_fst_def split: sum.splits prod.splits)
        note p = put_faults [OF assms(1-5) this]
        have eq: "w\<lparr>faults := []\<rparr> = w" using i(2) by (cases w) simp
        have "faults w1 = []" if "fs = []"
          using g [unfolded that eq] log_contains_map [OF assms(1), of k] i(2) by simp
        with p show ?thesis by (auto simp: apply_entry_def)
      next
        case False
        have mf: "maybe_flush X (l, w\<lparr>faults := faults w1\<rparr>) = (r, (l', v))"
          using assms(6) g g1(1) Inr Inr2 False o unfolding w1 [symmetric]
          by (auto simp: execute_def bindS_def on_snd_def on_fst_def split: sum.splits prod.splits)
        obtain M where M: "both_answer X l' v M" "resurfaced (stored_entries X w) (disk_map X w) M"
            "wal v = wal w \<or> wal v = []"
          by (rule maybe_flush_faults [OF assms(1,2) log_room_busy [OF assms(4)] mf])
        from M(1,2) have "survives X (stored_entries X w) {disk_map X w, (disk_map X w)(k := None)} l' v" by (rule survives_both) simp
        with intact_kept [OF M(3) assms(3)] show ?thesis by blast
      qed
    qed
  qed
qed

text \<open>A command in which any call fails.\<close>

lemma execute_faults:
  assumes "log_inv X U (l, w)" and "\<forall>e \<in> U. unnested X e" and "intact X w" and "log_room X (Suc n) (l, w)"
    and "good_command U c" and "execute X c ((l, w\<lparr>faults := fs\<rparr>), wr) = (r, ((l', v), wr'))"
  shows "survives X (stored_entries X w) {disk_map X w, spec_map c (disk_map X w)} l' v \<and> (r = Inr () \<or> fs = [] \<longrightarrow> intact X v)"
proof -
  note i = log_invD [OF assms(1)]
  have few: "length (ssts w) < 2 ^ 64" using room_tables [OF i(1)] assms(4) by (simp add: log_room_def)
  have same: "survives X (stored_entries X w) {disk_map X w, spec_map c (disk_map X w)} l u \<and> intact X u" if "same_disk w u" for u
    using survives_unchanged [OF assms(1) few that] intact_cong [of u w X] assms(3) that
    by (simp add: same_disk_def)
  have ww: "same_disk w (w\<lparr>faults := fs'\<rparr>)" for fs' by (simp add: same_disk_def)
  note put = put_faults [OF assms(1-4)]
  show ?thesis
  proof (cases c)
    case (CSet k x)
    obtain r1 wr1 where o: "writeln (k @ '' => '' @ x) wr = (r1, wr1)" by fastforce
    have e: "Set k x \<in> U" using assms(5) CSet by (simp add: good_command_def)
    show ?thesis
    proof (cases r1)
      case (Inl a)
      with assms(6) o CSet same [OF ww] show ?thesis by (auto simp: execute_def bindS_def on_snd_def)
    next
      case (Inr a)
      then have "bindS (log_write X (Set k x)) (\<lambda>_. maybe_flush X) (l, w\<lparr>faults := fs\<rparr>) = (r, (l', v))"
        using assms(6) o CSet
        by (auto simp: execute_def bindS_def on_snd_def on_fst_def split: sum.splits prod.splits)
      from put [OF e this] CSet show ?thesis by simp
    qed
  next
    case (CGet k)
    obtain r1 l1 w1 where g: "log_get X k (l, w\<lparr>faults := fs\<rparr>) = (r1, (l1, w1))" by (metis surj_pair)
    from log_get_faults [OF this] have "l1 = l" "same_disk w w1" by (simp_all add: same_disk_def)
    moreover have "l' = l1" "v = w1"
      using assms(6) g CGet
      by (auto simp: execute_def bindS_def on_snd_def on_fst_def split: sum.splits prod.splits option.splits entry.splits)
    ultimately show ?thesis using same by simp
  next
    case (CDelete k)
    with delete_faults [OF assms(1-4) _ assms(6) [unfolded CDelete]] assms(5) show ?thesis
      by (simp add: good_command_def)
  next
    case CQuit
    with assms(6) same [OF ww] show ?thesis by (auto simp: execute_def)
  next
    case CHelp
    then have "l' = l" "v = w\<lparr>faults := fs\<rparr>"
      using assms(6) by (auto simp: execute_def on_snd_def split: prod.splits)
    with same [OF ww] show ?thesis by simp
  qed
qed

end
