(* ===== verification/Outage.thy ===== *)
theory Outage
  imports Failure "HOL-Library.Sublist"
begin

text \<open>
  A session whose process is stopped, or in which calls fail, at any point: what its client has
  read, and what the next process finds in the store.
\<close>

section \<open>What a store holds is what was written to it\<close>

text \<open>The invariant holds for any set of entries that includes those in the store.\<close>

lemma universe_subset: "universe X U \<Longrightarrow> V \<subseteq> U \<Longrightarrow> universe X V"
  unfolding universe_def by blast

lemma log_inv_stored: "log_inv X U (l, w) \<Longrightarrow> stored_entries X w \<subseteq> U"
  using disk_okD(4,7) log_invD(1) by (fastforce simp: stored_entries_def)

lemma log_inv_shrink:
  assumes "log_inv X U (l, w)" and "stored_entries X w \<subseteq> V" and "V \<subseteq> U"
  shows "log_inv X V (l, w)"
proof -
  have "wal_ok X V w"
    using disk_ok_wal [OF log_invD(1) [OF assms(1)]] universe_subset [OF _ assms(3)] assms(2,3)
    by (auto simp: wal_ok_def appendable_def stored_entries_def)
  then have "disk_ok X V w" using log_invD(1) [OF assms(1)] assms(2) by (auto simp: disk_ok_def stored_entries_def)
  with assms(1) show ?thesis by (simp add: log_inv_def)
qed

lemma execute_stored:
  assumes "log_inv X U (l, w)" and "log_room X (Suc n) (l, w)" and "good_command U c"
    and "execute X c ((l, w\<lparr>faults := fs\<rparr>), wr) = (Inr (), ((l', v), wr'))"
  shows "stored_entries X v \<subseteq> stored_entries X w \<union> set_option (command_entry c)"
proof -
  let ?V = "stored_entries X w \<union> set_option (command_entry c)"
  have "?V \<subseteq> U" using log_inv_stored [OF assms(1)] assms(3) by (cases c) (auto simp: good_command_def)
  then have "log_inv X ?V (l, w)" by (intro log_inv_shrink [OF assms(1)]) auto
  moreover have "good_command ?V c" by (auto simp: good_command_def)
  ultimately have "log_inv X ?V (l', calm v)" using execute_success(1) assms(2,4) by blast
  from log_inv_stored [OF this] show ?thesis by (simp add: stored_entries_def)
qed

section \<open>What a client reads\<close>

text \<open>\<open>wrote t r wr wr'\<close>: a part of the text \<open>t\<close> was written, and all of it in case of success.\<close>

definition wrote :: "string \<Rightarrow> err + 'a \<Rightarrow> writer \<Rightarrow> writer \<Rightarrow> bool" where
  "wrote t r wr wr' \<longleftrightarrow> (\<exists>part. out wr' = out wr @ part \<and> prefix part t \<and> ((\<exists>x. r = Inr x) \<longrightarrow> part = t))"

lemma wrote_nothing: "wrote t (Inl e) wr wr"
  by (simp add: wrote_def)

lemma wrote_writeln: "writeln t wr = (r, wr') \<Longrightarrow> wrote (t @ newline) r wr wr'"
  by (auto simp: wrote_def writeln_def Let_def take_is_prefix simp del: take_append split: list.splits option.splits)

lemma wrote_later: "wrote t (Inr x) wr wr' \<Longrightarrow> wrote t r wr wr'"
  by (simp add: wrote_def)

lemma log_get_success:
  assumes "log_inv X U (l, w)" and "log_get X k (l, w\<lparr>faults := fs\<rparr>) = (Inr x, t)"
  shows "x = map_option (Set k) (disk_map X w k)"
  using calmingD [OF calming_log_get, of X k "(l, w\<lparr>faults := fs\<rparr>)"] assms(2)
    calm_faulted [OF log_invD(2) [OF assms(1)]] log_get_map [OF assms(1), of k] by simp

lemma log_contains_success:
  assumes "log_inv X U (l, w)" and "log_contains X k (l, w\<lparr>faults := fs\<rparr>) = (Inr b, t)"
  shows "b \<longleftrightarrow> disk_map X w k \<noteq> None"
  using calmingD [OF calming_log_contains, of X k "(l, w\<lparr>faults := fs\<rparr>)"] assms(2)
    calm_faulted [OF log_invD(2) [OF assms(1)]] log_contains_map [OF assms(1), of k] by (auto simp: dom_def)

lemma execute_wrote:
  assumes "log_inv X U (l, w)" and "c \<noteq> CQuit"
    and "execute X c ((l, w\<lparr>faults := fs\<rparr>), wr) = (r, (t, wr'))"
  shows "wrote (reply_line c (disk_map X w) @ newline) r wr wr'"
proof (cases c)
  case (CSet k v)
  obtain r1 wr1 where o: "writeln (k @ '' => '' @ v) wr = (r1, wr1)" by fastforce
  have "wr' = wr1" and "r1 = Inl e \<Longrightarrow> r = Inl e" for e
    using assms(3) o CSet
    by (auto simp: execute_def bindS_def on_snd_def on_fst_def split: sum.splits prod.splits)
  with wrote_writeln [OF o] CSet show ?thesis by (cases r1) (auto intro: wrote_later)
next
  case (CGet k)
  obtain r1 t1 where g: "log_get X k (l, w\<lparr>faults := fs\<rparr>) = (r1, t1)" by (metis surj_pair)
  show ?thesis
  proof (cases r1)
    case (Inl e)
    with g assms(3) CGet show ?thesis by (auto simp: execute_def bindS_def on_fst_def wrote_nothing)
  next
    case (Inr x)
    with g assms(3) CGet log_get_success [OF assms(1) g [unfolded Inr]] show ?thesis
      by (auto simp: execute_def bindS_def on_fst_def on_snd_def split: prod.splits option.splits dest: wrote_writeln)
  qed
next
  case (CDelete k)
  obtain r1 t1 where g: "log_contains X k (l, w\<lparr>faults := fs\<rparr>) = (r1, t1)" by (metis surj_pair)
  show ?thesis
  proof (cases r1)
    case (Inl e)
    with g assms(3) CDelete show ?thesis by (auto simp: execute_def bindS_def on_fst_def wrote_nothing)
  next
    case (Inr b)
    have reply: "reply_line c (disk_map X w) = (if b then k @ '' deleted'' else k @ '' not found'')"
      using log_contains_success [OF assms(1) g [unfolded Inr]] CDelete by (auto split: option.split)
    obtain r2 wr2 where o: "writeln (reply_line c (disk_map X w)) wr = (r2, wr2)" by fastforce
    have "wr' = wr2" and "r2 = Inl e \<Longrightarrow> r = Inl e" for e
      using assms(3) g o CDelete Inr unfolding reply
      by (auto simp: execute_def bindS_def on_snd_def on_fst_def split: sum.splits prod.splits if_splits)
    with wrote_writeln [OF o] show ?thesis by (cases r2) (auto intro: wrote_later)
  qed
next
  case CHelp
  with assms(3) show ?thesis by (auto simp: execute_def on_snd_def split: prod.splits dest: wrote_writeln)
qed (use assms(2) in simp)

section \<open>A turn of the loop\<close>

definition line_map :: "string \<Rightarrow> kv_map \<Rightarrow> kv_map" where
  "line_map line m = (case try_from (str_trim line) of Inr c \<Rightarrow> spec_map c m | Inl e \<Rightarrow> m)"

definition line_reply :: "string \<Rightarrow> kv_map \<Rightarrow> string" where
  "line_reply line m = (case try_from (str_trim line) of
     Inr c \<Rightarrow> reply_line c m @ newline | Inl e \<Rightarrow> ''Error: '' @ error_text e @ newline)"

definition line_entry :: "string \<Rightarrow> entry option" where
  "line_entry line = (if utf8_valid line then
     case try_from (str_trim line) of Inr c \<Rightarrow> command_entry c | Inl e \<Rightarrow> None
   else None)"

lemma writer_flush_out: "writer_flush wr = (r, wr') \<Longrightarrow> out wr' = out wr"
  by (auto simp: writer_flush_def split: list.splits option.splits)

text \<open>
  \<open>sound X U n s\<close>: the store is as the loop needs it for \<open>n\<close> more lines, whatever calls will
  fail in it.
\<close>

definition sound :: "crates \<Rightarrow> entry set \<Rightarrow> nat \<Rightarrow> log \<times> world \<Rightarrow> bool" where
  "sound X U n s \<longleftrightarrow> log_inv X U (fst s, calm (snd s)) \<and> (\<forall>e \<in> U. unnested X e) \<and> intact X (snd s) \<and>
     log_room X n (fst s, calm (snd s))"

lemma soundD:
  assumes "sound X U n (l, w)"
  shows "log_inv X U (l, calm w)" and "\<forall>e \<in> U. unnested X e" and "intact X (calm w)" and "log_room X n (l, calm w)"
  using assms intact_cong [of "calm w" w X] by (simp_all add: sound_def)

lemma stored_entries_calm [simp]: "stored_entries X (calm w) = stored_entries X w"
  by (simp add: stored_entries_def)

lemma stored_entries_faults [simp]: "stored_entries X (w\<lparr>faults := fs\<rparr>) = stored_entries X w"
  using tables_of_cong [of "w\<lparr>faults := fs\<rparr>" w X] wal_entries_cong [of "w\<lparr>faults := fs\<rparr>" w X]
  by (simp add: stored_entries_def)

lemma execute_sound:
  assumes "sound X U (Suc n) (l, w)" and "good_command U c" and "execute X c ((l, w), wr) = (r, ((l', v), wr'))"
  shows "survives X (stored_entries X w) {disk_map X w, spec_map c (disk_map X w)} l' v"
    and "c \<noteq> CQuit \<Longrightarrow> wrote (reply_line c (disk_map X w) @ newline) r wr wr'"
    and "r = Inr () \<Longrightarrow> sound X U n (l', v) \<and> disk_map X v = spec_map c (disk_map X w) \<and>
      stored_entries X v \<subseteq> stored_entries X w \<union> set_option (command_entry c)"
proof -
  note s = soundD [OF assms(1)]
  have x: "execute X c ((l, (calm w)\<lparr>faults := faults w\<rparr>), wr) = (r, ((l', v), wr'))"
    using assms(3) by (simp only: calm_faults [symmetric])
  have f: "survives X (stored_entries X w) {disk_map X w, spec_map c (disk_map X w)} l' v \<and> (r = Inr () \<longrightarrow> intact X v)"
    using execute_faults [OF s assms(2) x] by simp
  then show "survives X (stored_entries X w) {disk_map X w, spec_map c (disk_map X w)} l' v" by blast
  show "wrote (reply_line c (disk_map X w) @ newline) r wr wr'" if "c \<noteq> CQuit"
    using execute_wrote [OF s(1) that x] by simp
  show "sound X U n (l', v) \<and> disk_map X v = spec_map c (disk_map X w) \<and>
      stored_entries X v \<subseteq> stored_entries X w \<union> set_option (command_entry c)" if "r = Inr ()"
    using execute_success [OF s(1,4) assms(2)] execute_stored [OF s(1,4) assms(2)] x s(2) f that by (simp add: sound_def)
qed

lemma sound_less: "sound X U (Suc n) s \<Longrightarrow> sound X U n s"
  by (auto simp: sound_def dest: store.room_less)

lemma sound_survives:
  assumes "sound X U n (l, w)" and "disk_map X w \<in> ms"
  shows "survives X E ms l w"
proof -
  note s = soundD [OF assms(1)]
  have "length (ssts w) < 2 ^ 64" using room_tables [OF log_invD(1) [OF s(1)]] s(4) by (simp add: log_room_def)
  from both_answer_inv [OF s(1) this] show ?thesis using resurfaced_refl assms(2) by (rule survives_both)
qed

text \<open>A line that runs a command, in a turn that goes on and in one that ends the loop.\<close>

definition turned :: "crates \<Rightarrow> entry set \<Rightarrow> nat \<Rightarrow> string \<Rightarrow> log \<times> world \<Rightarrow> writer \<Rightarrow> err + bool \<Rightarrow> shared \<Rightarrow> writer \<Rightarrow> bool" where
  "turned X U n line s wr r sh wr' \<longleftrightarrow> (let m = disk_map X (snd s); t = store sh in
     wrote (line_reply line m) (if r = Inr True then Inr () else Inl IoError) wr wr' \<and>
     survives X (stored_entries X (snd s)) {m, line_map line m} (fst t) (snd t) \<and>
     (r = Inr True \<longrightarrow> \<not> poisoned sh \<and> sound X U n t \<and> disk_map X (snd t) = line_map line m \<and>
        stored_entries X (snd t) \<subseteq> stored_entries X (snd s) \<union> set_option (line_entry line)))"

lemma turned_stop:
  assumes "sound X U n s" and "r \<noteq> Inr True"
  shows "turned X U n' line s wr r \<lparr>store = s, poisoned = False\<rparr> wr"
  using assms sound_survives [of X U n "fst s" "snd s"] by (simp add: turned_def Let_def wrote_nothing)

lemma turned_command:
  assumes "sound X U (Suc n) s" and "good_command U c" and "try_from (str_trim line) = Inr c" and "c \<noteq> CQuit"
    and "utf8_valid line"
    and "locked_execute X c (\<lparr>store = s, poisoned = False\<rparr>, wr) = (r1, (sh, wr1))"
    and "(case r1 of Inl e \<Rightarrow> r = Inl e \<and> wr' = wr1 | Inr _ \<Rightarrow> out wr' = out wr1 \<and> r \<noteq> Inr False)"
  shows "turned X U n line s wr r sh wr'"
proof -
  obtain l w where s: "s = (l, w)" by (cases s)
  obtain l' v where x: "execute X c ((l, w), wr) = (r1, ((l', v), wr1))" and sh: "sh = \<lparr>store = (l', v), poisoned = False\<rparr>"
    using assms(6) by (auto simp: locked_execute_def s split: prod.splits)
  note e = execute_sound [OF assms(1) [unfolded s] assms(2) x]
  show ?thesis
    using e(1) e(2) [OF assms(4)] e(3) assms(3,5,7) unfolding turned_def s sh
    by (cases r1) (auto simp: Let_def line_map_def line_reply_def line_entry_def wrote_def)
qed

lemma turned_error:
  assumes "sound X U (Suc n) s" and "try_from (str_trim line) = Inl e"
    and "writeln (''Error: '' @ error_text e) wr = (r1, wr1)"
    and "(case r1 of Inl e \<Rightarrow> r = Inl e \<and> wr' = wr1 | Inr _ \<Rightarrow> out wr' = out wr1 \<and> r \<noteq> Inr False)"
  shows "turned X U n line s wr r \<lparr>store = s, poisoned = False\<rparr> wr'"
  using sound_survives [of X U "Suc n" "fst s" "snd s"] wrote_writeln [OF assms(3)] assms(1,2,4) sound_less [OF assms(1)]
  unfolding turned_def
  by (cases r1) (auto simp: Let_def line_map_def line_reply_def line_entry_def wrote_def)

lemma turn_faults:
  assumes "sound X U (Suc n) s" and "entries_in U [line]" and "line \<noteq> []" and "bad \<or> utf8_valid line"
    and "read_line rd = (if bad then Inl e else Inr line, rd')"
    and "turn X (rd, \<lparr>store = s, poisoned = False\<rparr>, wr) = (r, (rd1, sh, wr'))"
  shows "rd1 = rd'" and "turned X U n line s wr r sh wr'"
proof -
  let ?sh = "\<lparr>store = s, poisoned = False\<rparr>"
  have "rd1 = rd' \<and> turned X U n line s wr r sh wr'"
  proof (cases bad)
    case True
    with assms(5,6) turned_stop [OF assms(1)] show ?thesis by (auto simp: turn_def bindS_def on_fst_def)
  next
    case False
    then have rl: "read_line rd = (Inr line, rd')" using assms(5) by simp
    show ?thesis
    proof (cases "try_from (str_trim line)")
      case (Inl x)
      obtain r1 wr1 where o: "writeln (''Error: '' @ error_text x) wr = (r1, wr1)" by fastforce
      with assms(3,6) rl Inl have "rd1 = rd'" "sh = ?sh"
          "case r1 of Inl e \<Rightarrow> r = Inl e \<and> wr' = wr1 | Inr _ \<Rightarrow> out wr' = out wr1 \<and> r \<noteq> Inr False"
        by (auto simp: turn_def bindS_def on_fst_def on_snd_def dest: writer_flush_out split: sum.splits prod.splits)
      with turned_error [OF assms(1) Inl o] show ?thesis by simp
    next
      case (Inr c)
      show ?thesis
      proof (cases "c = CQuit")
        case True
        with assms(3,6) rl Inr turned_stop [OF assms(1)] show ?thesis
          by (auto simp: turn_def bindS_def on_fst_def)
      next
        case nq: False
        obtain r1 sh1 wr1 where le: "locked_execute X c (?sh, wr) = (r1, (sh1, wr1))" by (metis surj_pair)
        have "rd1 = rd' \<and> sh = sh1 \<and>
            (case r1 of Inl e \<Rightarrow> r = Inl e \<and> wr' = wr1 | Inr _ \<Rightarrow> out wr' = out wr1 \<and> r \<noteq> Inr False)"
          using assms(3,6) rl Inr nq le
          by (cases c) (auto simp: turn_def bindS_def on_fst_def on_snd_def dest: writer_flush_out split: sum.splits prod.splits)
        moreover have "good_command U c" using assms(2,4) False Inr by (simp add: entries_in_def)
        moreover have "utf8_valid line" using assms(4) False by simp
        ultimately show ?thesis using turned_command [OF assms(1) _ Inr nq _ le] by blast
      qed
    qed
  qed
  then show "rd1 = rd'" and "turned X U n line s wr r sh wr'" by blast+
qed

section \<open>A session\<close>

fun session_replies :: "string list \<Rightarrow> kv_map \<Rightarrow> string" where
  "session_replies [] m = []"
| "session_replies (line # ls) m = line_reply line m @ session_replies ls (line_map line m)"

text \<open>
  \<open>outage X E ls m wr l v wr'\<close>: of the lines \<open>ls\<close>, sent to a store with the map \<open>m\<close>, the client
  has all replies to the first \<open>i\<close> and part of the next one, and the store answers from the
  map after \<open>i\<close> lines or after \<open>i + 1\<close>.
\<close>

definition outage :: "crates \<Rightarrow> entry set \<Rightarrow> string list \<Rightarrow> kv_map \<Rightarrow> writer \<Rightarrow> log \<Rightarrow> world \<Rightarrow> writer \<Rightarrow> bool" where
  "outage X E ls m wr l v wr' \<longleftrightarrow> (\<exists>i \<le> length ls. \<exists>part.
     out wr' = out wr @ session_replies (take i ls) m @ part \<and>
     (case drop i ls of [] \<Rightarrow> part = [] | line # _ \<Rightarrow> prefix part (line_reply line (fold line_map (take i ls) m))) \<and>
     survives X E {fold line_map (take i ls) m, fold line_map (take (Suc i) ls) m} l v)"

lemma survives_mono: "survives X E ms l v \<Longrightarrow> E \<subseteq> F \<Longrightarrow> survives X F ms l v"
  unfolding survives_def found_def using resurfaced_mono by meson

lemma outage_mono: "outage X E ls m wr l v wr' \<Longrightarrow> E \<subseteq> F \<Longrightarrow> outage X F ls m wr l v wr'"
  unfolding outage_def using survives_mono by meson

lemma outage_here:
  assumes "wrote (line_reply line m) r wr wr'" and "survives X E {m, line_map line m} l v"
  shows "outage X E (line # ls) m wr l v wr'"
  using assms unfolding outage_def wrote_def by (intro exI [of _ "0 :: nat"]) auto

lemma outage_Nil: "survives X E {m} l v \<Longrightarrow> outage X E [] m wr l v wr"
  by (simp add: outage_def)

lemma outage_Cons:
  assumes "outage X E ls (line_map line m) wr1 l v wr'" and "out wr1 = out wr @ line_reply line m"
  shows "outage X E (line # ls) m wr l v wr'"
proof -
  obtain i part where "i \<le> length ls" "out wr' = out wr1 @ session_replies (take i ls) (line_map line m) @ part"
      "case drop i ls of [] \<Rightarrow> part = [] | l' # _ \<Rightarrow> prefix part (line_reply l' (fold line_map (take i ls) (line_map line m)))"
      "survives X E {fold line_map (take i ls) (line_map line m), fold line_map (take (Suc i) ls) (line_map line m)} l v"
    using assms(1) unfolding outage_def by blast
  with assms(2) show ?thesis unfolding outage_def by (intro exI [of _ "Suc i"] conjI exI [of _ part]) (auto split: list.splits)
qed

definition line_entries :: "string list \<Rightarrow> entry set" where
  "line_entries ls = (\<Union>line \<in> set ls. set_option (line_entry line))"

lemma run_faults:
  assumes "sound X U (length (lines_of (pending rd))) s" and "entries_in U (lines_of (pending rd))"
    and "run X (rd, \<lparr>store = s, poisoned = False\<rparr>, wr) = (res, (rd', sh, wr'))"
  shows "outage X (stored_entries X (snd s) \<union> line_entries (lines_of (pending rd))) (lines_of (pending rd))
    (disk_map X (snd s)) wr (fst (store sh)) (snd (store sh)) wr'"
  using assms
proof (induction "length (pending rd)" arbitrary: rd s wr rule: less_induct)
  case less
  let ?m = "disk_map X (snd s)"
  show ?case
  proof (cases "pending rd = []")
    case True
    then have "sh = \<lparr>store = s, poisoned = False\<rparr>" "wr' = wr"
      using less.prems(3) read_line_Nil [OF True] by (auto simp: run.simps turn_def bindS_def on_fst_def split: if_splits)
    moreover have "lines_of (pending rd) = []" using True by (simp add: lines_of.simps)
    ultimately show ?thesis using outage_Nil sound_survives [of X U 0 "fst s" "snd s"] less.prems(1) by simp
  next
    case False
    obtain line p where l: "lines_of (pending rd) = line # lines_of p" "line \<noteq> []"
      and rl: "read_line rd = (if broken rd \<and> last line \<noteq> CHR 0x0A then Inl IoError
        else if \<not> utf8_valid line then Inl InvalidUtf8 else Inr line, rd\<lparr>pending := p\<rparr>)"
      using read_line_Cons [OF False] by blast
    let ?rd = "rd\<lparr>pending := p\<rparr>" and ?E = "stored_entries X (snd s) \<union> line_entries (lines_of (pending rd))"
    define e where "e = (if broken rd \<and> last line \<noteq> CHR 0x0A then IoError else InvalidUtf8)"
    define bad where "bad \<longleftrightarrow> broken rd \<and> last line \<noteq> CHR 0x0A \<or> \<not> utf8_valid line"
    have rl': "read_line rd = (if bad then Inl e else Inr line, ?rd)" using rl by (auto simp: e_def bad_def)
    have s: "sound X U (Suc (length (lines_of p))) s" using less.prems(1) l(1) by simp
    have U: "entries_in U [line]" "entries_in U (lines_of p)" using less.prems(2) l(1) by (auto simp: entries_in_def)
    obtain r rd1 sh1 wr1 where tn: "turn X (rd, \<lparr>store = s, poisoned = False\<rparr>, wr) = (r, (rd1, sh1, wr1))"
      by (metis surj_pair)
    have "bad \<or> utf8_valid line" by (auto simp: bad_def)
    note t = turn_faults [OF s U(1) l(2) this rl' tn]
    show ?thesis
    proof (cases "r = Inr True")
      case False
      then have "sh = sh1" "wr' = wr1"
        using less.prems(3) tn by (auto simp: run.simps [of X "(rd, _)"] split: sum.splits bool.splits)
      moreover have "survives X ?E {?m, line_map line ?m} (fst (store sh1)) (snd (store sh1))"
        using t(2) survives_mono [of X "stored_entries X (snd s)" _ _ _ ?E] by (simp add: turned_def Let_def)
      moreover have "wrote (line_reply line ?m) (Inl IoError :: err + unit) wr wr1"
        using t(2) False by (simp add: turned_def Let_def)
      ultimately show ?thesis unfolding l(1) using outage_here by blast
    next
      case True
      have n: "\<not> poisoned sh1" "sound X U (length (lines_of p)) (store sh1)"
          "disk_map X (snd (store sh1)) = line_map line ?m" "out wr1 = out wr @ line_reply line ?m"
          "stored_entries X (snd (store sh1)) \<subseteq> stored_entries X (snd s) \<union> set_option (line_entry line)"
        using t(2) True by (simp_all add: turned_def Let_def wrote_def)
      have sh1: "sh1 = \<lparr>store = store sh1, poisoned = False\<rparr>" using n(1) by (cases sh1) simp
      have "run X (?rd, \<lparr>store = store sh1, poisoned = False\<rparr>, wr1) = (res, (rd', sh, wr'))"
        using less.prems(3) run_again [OF tn [unfolded True]] t(1) sh1 by simp
      moreover have "length (pending ?rd) < length (pending rd)"
        using read_line_pending [of rd line ?rd] rl' l(2) t(1) turn_reader [OF tn [unfolded True]] by (auto split: if_splits)
      ultimately have "outage X (stored_entries X (snd (store sh1)) \<union> line_entries (lines_of p)) (lines_of p)
          (line_map line ?m) wr1 (fst (store sh)) (snd (store sh)) wr'"
        using less.hyps [of ?rd "store sh1" wr1] n(2,3) U(2) by simp
      then have "outage X ?E (lines_of p) (line_map line ?m) wr1 (fst (store sh)) (snd (store sh)) wr'"
        using n(5) l(1) by (rule_tac outage_mono) (auto simp: line_entries_def)
      then show ?thesis unfolding l(1) using n(4) by (rule outage_Cons)
    qed
  qed
qed

text \<open>The lines of a client that sends commands.\<close>

lemma line_of_command:
  assumes "command_ok c"
  shows "line_map (command_line c) = spec_map c" and "line_entry (command_line c) = command_entry c"
    and "line_reply (command_line c) m = reply_line c m @ newline"
  using try_from_command_line [OF assms] command_line_valid [OF assms]
  by (auto simp: line_map_def line_entry_def line_reply_def)

lemma lines_of_client:
  assumes "\<forall>c \<in> set cs. command_ok c"
  shows "fold line_map (take i (map command_line cs)) m = fold spec_map (take i cs) m"
    and "line_entries (map command_line cs) = (\<Union>c \<in> set cs. set_option (command_entry c))"
proof -
  have "\<forall>c \<in> set (take i cs). command_ok c" using assms by (auto dest: in_set_takeD)
  then have "fold (line_map \<circ> command_line) (take i cs) m = fold spec_map (take i cs) m"
    by (intro fold_cong) (simp_all add: line_of_command)
  then show "fold line_map (take i (map command_line cs)) m = fold spec_map (take i cs) m" by (simp add: take_map fold_map)
  show "line_entries (map command_line cs) = (\<Union>c \<in> set cs. set_option (command_entry c))"
    using assms by (simp add: line_entries_def line_of_command(2))
qed

end
