(* ===== verification/Restart.thy ===== *)
theory Restart
  imports Threads Outage
begin

text \<open>
  The server and its files: where the entries in the store come from, and what the server finds
  that is started after the process of another one was killed.
\<close>

section \<open>Where the entries come from\<close>

definition event_entries :: "event \<Rightarrow> entry set" where
  "event_entries e = (case e of Accept r wr \<Rightarrow> line_entries (lines_of (pending r)) | Serve i \<Rightarrow> {})"

definition word_entry :: "entry \<Rightarrow> bool" where
  "word_entry e \<longleftrightarrow> word_ok (entry_key e) \<and> (\<forall>v. entry_value e = Some v \<longrightarrow> word_ok v)"

lemma line_entry_word:
  assumes "line_entry line = Some e"
  shows "word_entry e"
proof -
  have v: "utf8_valid line" using assms by (auto simp: line_entry_def split: if_splits)
  then obtain c where c: "try_from line = Inr c" "command_entry c = Some e"
    using assms try_from_trim [OF v] by (auto simp: line_entry_def split: sum.splits)
  have "command_ok c" using try_from_command_ok [OF v c(1)] .
  with c(2) show ?thesis by (cases c) (auto simp: command_ok_def word_entry_def)
qed

lemma entries_in_lines: "entries_in (line_entries ls) ls"
  by (force simp: entries_in_def line_entries_def line_entry_def good_command_def)

lemma entries_in_mono: "entries_in U ls \<Longrightarrow> U \<subseteq> V \<Longrightarrow> entries_in V ls"
  unfolding entries_in_def good_command_def by blast

lemma line_entries_subset: "entries_in U ls \<Longrightarrow> line_entries ls \<subseteq> U"
  by (auto simp: entries_in_def line_entries_def line_entry_def good_command_def split: sum.splits if_splits)

lemma event_entries_ok: "event_entries e \<subseteq> V \<Longrightarrow> event_ok V e"
  using entries_in_mono [OF entries_in_lines] by (simp add: event_ok_def event_entries_def input_ok_def split: event.splits)

lemma event_entries_subset: "event_ok U e \<Longrightarrow> event_entries e \<subseteq> U"
  using line_entries_subset by (simp add: event_ok_def event_entries_def input_ok_def split: event.splits)

lemma server_start_machine:
  assumes "disk_ok X U w" and "faults w = []" and "disk_room X n w"
  obtains l where "log_inv X U (l, w)"
    and "server_start X w = (Inr \<lparr>mutex = \<lparr>store = (l, w), poisoned = False\<rparr>, holder = None, threads = []\<rparr>, w)"
    and "server_inv X U n (abs_machine \<lparr>mutex = \<lparr>store = (l, w), poisoned = False\<rparr>, holder = None, threads = []\<rparr>)"
proof -
  obtain l where "log_new X False w = (Inr l, w)" "log_inv X U (l, w)"
    using log_new_ok [OF assms(1,2) room_tables [OF assms(1,3)]] by blast
  with that assms(3) show thesis
    by (simp add: server_start_def bindS_def server_inv_def abs_machine_def log_room_def)
qed

lemma event_entries_word: "e \<in> event_entries ev \<Longrightarrow> word_entry e"
  by (auto simp: event_entries_def line_entries_def intro: line_entry_word split: event.splits)

text \<open>The map of a running server is that of a run of the specification.\<close>

lemma server_run_map:
  assumes "disk_ok X U w" and "faults w = []" and "disk_room X (length es) w" and "\<forall>e \<in> set es. event_ok U e"
    and "server_start X w = (Inr m, w)" and "machine_run X m es n"
  shows "\<exists>ts. subseq ts es \<and> spec_run \<lparr>the_map = disk_map X w, spec_conns = []\<rparr> ts
      \<lparr>the_map = disk_map X (snd (store (mutex n))), spec_conns = map conn_of (threads n)\<rparr>"
    and "\<not> poisoned (mutex n) \<and> log_inv X U (store (mutex n))"
proof -
  obtain l where s: "server_start X w = (Inr \<lparr>mutex = \<lparr>store = (l, w), poisoned = False\<rparr>, holder = None, threads = []\<rparr>, w)"
      "server_inv X U (length es) (abs_machine \<lparr>mutex = \<lparr>store = (l, w), poisoned = False\<rparr>, holder = None, threads = []\<rparr>)"
    by (rule server_start_machine [OF assms(1-3)])
  then have m: "m = \<lparr>mutex = \<lparr>store = (l, w), poisoned = False\<rparr>, holder = None, threads = []\<rparr>" using assms(5) by simp
  then have "lines_ok m" "server_inv X U (length es) (abs_machine m)" using s(2) by (simp_all add: lines_ok_def)
  from machine_run_refines [OF assms(6) this assms(4)]
  show "\<exists>ts. subseq ts es \<and> spec_run \<lparr>the_map = disk_map X w, spec_conns = []\<rparr> ts
      \<lparr>the_map = disk_map X (snd (store (mutex n))), spec_conns = map conn_of (threads n)\<rparr>"
    and "\<not> poisoned (mutex n) \<and> log_inv X U (store (mutex n))"
    by (simp_all add: m abs_server_def server_inv_def abs_machine_def)
qed

lemma server_stores:
  assumes "disk_ok X U w" and "faults w = []" and "disk_room X (length es) w" and "\<forall>e \<in> set es. event_ok U e"
    and "server_start X w = (Inr m, w)" and "machine_run X m es n"
  shows "stored_entries X (snd (store (mutex n))) \<subseteq> stored_entries X w \<union> (\<Union>e \<in> set es. event_entries e)"
proof -
  let ?V = "stored_entries X w \<union> (\<Union>e \<in> set es. event_entries e)"
  obtain l where l: "log_inv X U (l, w)"
    by (rule server_start_machine [OF assms(1-3)])
  have "?V \<subseteq> U" using log_inv_stored [OF l] assms(4) event_entries_subset by blast
  then have "disk_ok X ?V w" using log_invD(1) [OF log_inv_shrink [OF l, of ?V]] by blast
  moreover have "\<forall>e \<in> set es. event_ok ?V e" using event_entries_ok by blast
  ultimately have "log_inv X ?V (fst (store (mutex n)), snd (store (mutex n)))"
    using server_run_map(2) [OF _ assms(2,3) _ assms(5,6)] by simp
  then show ?thesis by (rule log_inv_stored)
qed

section \<open>A server whose process is killed\<close>

lemma server_inv_Suc: "server_inv X U (Suc n) s \<Longrightarrow> server_inv X U n s"
  using store.room_less by (auto simp: server_inv_def)

text \<open>The command a thread executes is one its input can write.\<close>

lemma executing_good:
  assumes "lines_ok m" and "server_inv X U k (abs_machine m)" and "i < length (threads m)"
    and "thread_pc (threads m ! i) = Executing c line"
  shows "good_command U c"
proof -
  let ?t = "threads m ! i"
  have t: "?t \<in> set (threads m)" using assms(3) by simp
  then have "line_ok ?t" using assms(1) by (simp add: lines_ok_def)
  then have l: "read_line (unread line (thread_reader ?t)) = (Inr line, thread_reader ?t)" "line \<noteq> []"
      "try_from (str_trim line) = Inr c" using assms(4) by (auto simp: line_ok_def)
  have "input_ok U (conn_reader (conn_of ?t))" using assms(2) t by (simp add: server_inv_def abs_machine_def)
  then have "input_ok U (unread line (thread_reader ?t))" using assms(4) by (simp add: conn_of_def)
  from input_ok_read_line(2) [OF this l] show ?thesis .
qed

lemma machine_step_intact:
  assumes "machine_step X m e n" and "lines_ok m" and "server_inv X U (Suc k) (abs_machine m)" and "\<forall>e \<in> U. unnested X e"
    and "intact X (snd (store (mutex m)))"
  shows "intact X (snd (store (mutex n)))"
  using assms(1)
proof (cases rule: machine_step.cases)
  case (execute i c line res s wr)
  have inv: "log_inv X U (fst (store (mutex m)), snd (store (mutex m)))"
      "log_room X (Suc k) (fst (store (mutex m)), snd (store (mutex m)))"
    using assms(3) by (simp_all add: server_inv_def abs_machine_def)
  have "(snd (store (mutex m)))\<lparr>faults := []\<rparr> = snd (store (mutex m))" using log_invD(2) [OF inv(1)] by simp
  then have "execute X c ((fst (store (mutex m)), (snd (store (mutex m)))\<lparr>faults := []\<rparr>), thread_writer (threads m ! i)) =
      (res, ((fst s, snd s), wr))" using execute(5) by simp
  from execute_faults [OF inv(1) assms(4,5) inv(2) executing_good [OF assms(2,3) execute(3,4)] this]
  show ?thesis using execute(2) by simp
qed (use assms(5) in simp_all)

lemma machine_run_intact:
  assumes "machine_run X m es n" and "lines_ok m" and "server_inv X U (length es + k) (abs_machine m)" and "\<forall>e \<in> U. unnested X e"
    and "intact X (snd (store (mutex m)))" and "\<forall>e \<in> set es. event_ok U e"
  shows "lines_ok n \<and> server_inv X U k (abs_machine n) \<and> intact X (snd (store (mutex n)))"
  using assms
proof (induction arbitrary: k rule: machine_run.induct)
  case (machine_start m)
  then show ?case by simp
next
  case (machine_more m es n e q)
  have n: "lines_ok n" "server_inv X U (Suc k) (abs_machine n)" "intact X (snd (store (mutex n)))"
    using machine_more.IH [of "Suc k"] machine_more.prems by simp_all
  from machine_step_abs [OF machine_more.hyps(2) n(1)] have "server_inv X U k (abs_machine q)"
    using server_inv_Suc [OF n(2)] server_step_refines [OF _ n(2), of e "abs_machine q"] machine_more.prems(5) by auto
  with lines_ok_step [OF machine_more.hyps(2) n(1)] machine_step_intact [OF machine_more.hyps(2) n(1,2) machine_more.prems(3) n(3)]
  show ?case by blast
qed

text \<open>
  The process dies, or calls fail, anywhere in the command that a thread executes under the
  lock: the next server has the map from before the command or from after it.
\<close>

lemma killed_in_command:
  assumes "disk_ok X U w" and "faults w = []" and "\<forall>e \<in> U. unnested X e" and "intact X w"
    and "disk_room X (Suc (length es)) w" and "\<forall>e \<in> set es. event_ok U e"
    and "server_start X w = (Inr m, w)" and "machine_run X m es n"
    and "i < length (threads n)" and "thread_pc (threads n ! i) = Executing c line" and "store (mutex n) = (l, v)"
    and "execute X c ((l, v\<lparr>faults := fs\<rparr>), thread_writer (threads n ! i)) = (r, ((l', u), wr))"
  shows "\<exists>p k M. server_start X (calm u) = (Inr p, calm u) \<and> answers X (fst (store (mutex p))) (calm u) M \<and>
    k \<in> {disk_map X v, spec_map c (disk_map X v)} \<and> resurfaced (stored_entries X v) k M"
proof -
  obtain l0 where s: "server_start X w = (Inr \<lparr>mutex = \<lparr>store = (l0, w), poisoned = False\<rparr>, holder = None, threads = []\<rparr>, w)"
      "server_inv X U (Suc (length es)) (abs_machine \<lparr>mutex = \<lparr>store = (l0, w), poisoned = False\<rparr>, holder = None, threads = []\<rparr>)"
    by (rule server_start_machine [OF assms(1,2,5)])
  then have "lines_ok m" "server_inv X U (length es + 1) (abs_machine m)" "intact X (snd (store (mutex m)))"
    using assms(4,7) by (auto simp: lines_ok_def)
  then have n: "lines_ok n" "server_inv X U 1 (abs_machine n)" "intact X (snd (store (mutex n)))"
    using machine_run_intact [OF assms(8) _ _ assms(3) _ assms(6)] by blast+
  have inv: "log_inv X U (l, v)" "log_room X (Suc 0) (l, v)" "intact X v"
    using n(2,3) assms(11) by (simp_all add: server_inv_def abs_machine_def)
  have "survives X (stored_entries X v) {disk_map X v, spec_map c (disk_map X v)} l' u"
    using execute_faults [OF inv(1) assms(3) inv(3,2) executing_good [OF n(1,2) assms(9,10)] assms(12)] by blast
  then obtain l2 k M where "log_new X False (calm u) = (Inr l2, calm u)" "answers X l2 (calm u) M"
      "k \<in> {disk_map X v, spec_map c (disk_map X v)}" "resurfaced (stored_entries X v) k M"
    unfolding survives_def found_def by blast
  then show ?thesis
    by (intro exI [of _ "\<lparr>mutex = \<lparr>store = (l2, calm u), poisoned = False\<rparr>, holder = None, threads = []\<rparr>"]
        exI [of _ k] exI [of _ M]) (simp add: server_start_def bindS_def)
qed

end
