(* ===== verification/Process.thy ===== *)
theory Process
  imports Restart
begin

text \<open>
  The process of \<open>src/bin/server.rs\<close>: its start from the environment, the loop that accepts
  connections, and how it ends. The threads it spawns are those of \<open>Threads\<close>.
\<close>

section \<open>The model\<close>

text \<open>
  What the process gets from its surroundings: the environment variables (those of \<open>.env\<close>
  included), the listener for an address, the address of a listener, and the text of an error.
\<close>

record host =
  env :: "string \<Rightarrow> string option"
  bind_to :: "string \<Rightarrow> nat option"
  local_addr :: "nat \<Rightarrow> string option"
  err_text :: "err \<Rightarrow> string"

text \<open>The threads and their store, the terminal, and the result of \<open>server\<close> once it has ended.\<close>

record serving =
  running :: machine
  terminal :: writer
  stderr :: writer
  ended :: "(err + unit) option"

text \<open>\<open>println!\<close> panics when the terminal fails, which ends the process: here the error of the write.\<close>

definition server_main :: "crates \<Rightarrow> host \<Rightarrow> writer \<Rightarrow> writer \<Rightarrow> (world, serving) sio" where
  "server_main X h so se =
     bindS (of_option VarError (env h ''ADDRESS'')) (\<lambda>address.
     bindS (of_option VarError (env h ''PORT'')) (\<lambda>port.
     bindS (server_start X) (\<lambda>m.
     bindS (of_option IoError (bind_to h (address @ '':'' @ port))) (\<lambda>listener.
     bindS (of_option IoError (local_addr h listener)) (\<lambda>addr w.
       case writeln (''Listening on '' @ addr) so of
         (Inl e, so') \<Rightarrow> (Inl e, w)
       | (Inr _, so') \<Rightarrow> (Inr \<lparr>running = m, terminal = so', stderr = se, ended = None\<rparr>, w))))))"

text \<open>
  What happens next: the listener has a connection, one whose stream cannot be cloned for the
  reader, or an error; or a thread makes its next call.
\<close>

datatype arrival =
    Connected reader writer
  | Unclonable
  | AcceptError
  | Turn nat

text \<open>
  \<open>eprintln!\<close> in a thread that has come to its end. If it panics, the thread is gone all the
  same, without the lock.
\<close>

definition report :: "host \<Rightarrow> thread \<Rightarrow> writer \<Rightarrow> writer" where
  "report h t se = (case thread_pc t of
       Stopped (Inl e) \<Rightarrow> snd (writeln (''Connection error: '' @ err_text h e) se)
     | _ \<Rightarrow> se)"

inductive process_step :: "crates \<Rightarrow> host \<Rightarrow> serving \<Rightarrow> arrival \<Rightarrow> serving \<Rightarrow> bool" for X h where
  connected: "ended p = None \<Longrightarrow> machine_step X (running p) (Accept r wr) m \<Longrightarrow>
     process_step X h p (Connected r wr) (p\<lparr>running := m\<rparr>)"
| unclonable: "ended p = None \<Longrightarrow>
     process_step X h p Unclonable (p\<lparr>stderr := snd (writeln ''Failed to clone stream'' (stderr p))\<rparr>)"
| accept_error: "ended p = None \<Longrightarrow>
     process_step X h p AcceptError (p\<lparr>ended := Some (Inl IoError)\<rparr>)"
| thread_turn: "ended p = None \<Longrightarrow> machine_step X (running p) (Serve i) m \<Longrightarrow>
     process_step X h p (Turn i) (p\<lparr>running := m, stderr := report h (threads m ! i) (stderr p)\<rparr>)"

inductive process_run :: "crates \<Rightarrow> host \<Rightarrow> serving \<Rightarrow> arrival list \<Rightarrow> serving \<Rightarrow> bool" for X h where
  process_start: "process_run X h p [] p"
| process_more: "process_run X h p as q \<Longrightarrow> process_step X h q a u \<Longrightarrow> process_run X h p (as @ [a]) u"

inductive_cases ended_cases: "process_step X h p a q"
inductive_cases accept_error_cases: "process_step X h p AcceptError q"

section \<open>The threads of the process\<close>

fun machine_events :: "arrival \<Rightarrow> event list" where
  "machine_events (Connected r wr) = [Accept r wr]"
| "machine_events Unclonable = []"
| "machine_events AcceptError = []"
| "machine_events (Turn i) = [Serve i]"

lemma length_machine_events: "length (concat (map machine_events as)) \<le> length as"
proof (induction as)
  case (Cons a as)
  then show ?case by (cases a) simp_all
qed simp

lemma process_run_machine:
  "process_run X h p as q \<Longrightarrow> machine_run X (running p) (concat (map machine_events as)) (running q)"
proof (induction rule: process_run.induct)
  case (process_more p as q a u)
  from process_more.hyps(2) show ?case
    by (cases rule: process_step.cases) (use process_more.IH in \<open>auto intro: machine_run.machine_more machine_run.machine_start\<close>)
qed (simp add: machine_run.machine_start)

text \<open>The start, and the ways it fails.\<close>

lemma server_main_ok:
  assumes "env h ''ADDRESS'' = Some address" and "env h ''PORT'' = Some port"
    and "bind_to h (address @ '':'' @ port) = Some listener" and "local_addr h listener = Some addr"
    and "out_faults so = []" and "server_start X w = (Inr m, v)"
  shows "server_main X h so se w = (Inr \<lparr>running = m,
    terminal = so\<lparr>out := out so @ ''Listening on '' @ addr @ newline\<rparr>, stderr = se, ended = None\<rparr>, v)"
  using assms writeln_ok [OF assms(5), of "''Listening on '' @ addr"] by (simp add: server_main_def bindS_def)

lemma server_main_no_env:
  "env h ''ADDRESS'' = None \<or> env h ''PORT'' = None \<Longrightarrow> server_main X h so se w = (Inl VarError, w)"
  by (cases "env h ''ADDRESS''") (auto simp: server_main_def)

lemma server_main_no_listener:
  assumes "env h ''ADDRESS'' = Some address" and "env h ''PORT'' = Some port"
    and "bind_to h (address @ '':'' @ port) = None"
  shows "server_main X h so se w =
    (case server_start X w of (Inl e, v) \<Rightarrow> (Inl e, v) | (Inr m, v) \<Rightarrow> (Inl IoError, v))"
  using assms by (simp add: server_main_def bindS_def split: prod.split sum.split)

text \<open>An error of the listener ends the process, and every connection with it.\<close>

lemma process_ended: "process_run X h p as q \<Longrightarrow> ended p \<noteq> None \<Longrightarrow> as = [] \<and> q = p"
proof (induction rule: process_run.induct)
  case (process_more p as q a u)
  then have "q = p" and "ended p \<noteq> None" by auto
  with process_more.hyps(2) show ?case by (auto elim: ended_cases)
qed simp


lemma listener_fails:
  assumes "ended p = None" and "process_step X h p AcceptError q"
  shows "ended q = Some (Inl IoError)" and "running q = running p"
    and "process_run X h q as u \<Longrightarrow> as = [] \<and> u = q"
proof -
  from assms(2) have q: "q = p\<lparr>ended := Some (Inl IoError)\<rparr>" by (rule accept_error_cases)
  then show "ended q = Some (Inl IoError)" and "running q = running p" by simp_all
  then show "process_run X h q as u \<Longrightarrow> as = [] \<and> u = q" using process_ended by simp
qed

section \<open>What the clients of the process see\<close>

text \<open>The surroundings let the process listen; the connections send entries of the universe.\<close>

definition can_listen :: "host \<Rightarrow> bool" where
  "can_listen h \<longleftrightarrow> (\<exists>address port listener addr. env h ''ADDRESS'' = Some address \<and> env h ''PORT'' = Some port \<and>
     bind_to h (address @ '':'' @ port) = Some listener \<and> local_addr h listener = Some addr)"

definition arrival_ok :: "entry set \<Rightarrow> arrival \<Rightarrow> bool" where
  "arrival_ok U a \<longleftrightarrow> (\<forall>e \<in> set (machine_events a). event_ok U e)"

lemma arrivals_ok: "\<forall>a \<in> set as. arrival_ok U a \<Longrightarrow> \<forall>e \<in> set (concat (map machine_events as)). event_ok U e"
  by (auto simp: arrival_ok_def)

lemma server_main_running:
  assumes "can_listen h" and "out_faults so = []" and "server_start X w = (Inr m, w)"
  obtains p where "server_main X h so se w = (Inr p, w)" and "running p = m" and "ended p = None"
proof -
  from assms(1) obtain address port listener addr where
    "env h ''ADDRESS'' = Some address" "env h ''PORT'' = Some port"
    "bind_to h (address @ '':'' @ port) = Some listener" "local_addr h listener = Some addr"
    by (auto simp: can_listen_def)
  from server_main_ok [OF this assms(2,3)] that show thesis by simp
qed

lemma process_run_map:
  assumes "disk_ok X U w" and "faults w = []" and "disk_room X (length as) w" and "\<forall>a \<in> set as. arrival_ok U a"
    and "server_start X w = (Inr (running p), w)" and "process_run X h p as q"
  shows "\<exists>ts. subseq ts (concat (map machine_events as)) \<and>
      spec_run \<lparr>the_map = disk_map X w, spec_conns = []\<rparr> ts
        \<lparr>the_map = disk_map X (snd (store (mutex (running q)))), spec_conns = map conn_of (threads (running q))\<rparr>"
    and "\<not> poisoned (mutex (running q)) \<and> log_inv X U (store (mutex (running q)))"
proof -
  have "disk_room X (length (concat (map machine_events as))) w"
    using assms(3) length_machine_events by (rule disk_room_mono)
  note m = server_run_map [OF assms(1,2) this arrivals_ok [OF assms(4)] assms(5) process_run_machine [OF assms(6)]]
  from m(1) show "\<exists>ts. subseq ts (concat (map machine_events as)) \<and>
      spec_run \<lparr>the_map = disk_map X w, spec_conns = []\<rparr> ts
        \<lparr>the_map = disk_map X (snd (store (mutex (running q)))), spec_conns = map conn_of (threads (running q))\<rparr>" .
  from m(2) show "\<not> poisoned (mutex (running q)) \<and> log_inv X U (store (mutex (running q)))" .
qed

text \<open>Every run of the threads is one of the process.\<close>

fun arrival_of :: "event \<Rightarrow> arrival" where
  "arrival_of (Accept r wr) = Connected r wr"
| "arrival_of (Serve i) = Turn i"

lemma machine_events_of [simp]: "concat (map (machine_events \<circ> arrival_of) es) = es"
proof (induction es)
  case (Cons e es)
  then show ?case by (cases e) simp_all
qed simp

lemma machine_run_process:
  "machine_run X m es n \<Longrightarrow> running p = m \<Longrightarrow> ended p = None \<Longrightarrow>
    \<exists>q. process_run X h p (map arrival_of es) q \<and> running q = n \<and> ended q = None"
proof (induction rule: machine_run.induct)
  case (machine_start m)
  then show ?case by (auto intro: process_start)
next
  case (machine_more m es n e u)
  then obtain q where q: "process_run X h p (map arrival_of es) q" "running q = n" "ended q = None" by blast
  have "\<exists>v. process_step X h q (arrival_of e) v \<and> running v = u \<and> ended v = None"
  proof (cases e)
    case (Accept r wr)
    then show ?thesis using process_step.connected [of q X r wr u h] q machine_more.hyps(2) by fastforce
  next
    case (Serve i)
    then show ?thesis using process_step.thread_turn [of q X i u h] q machine_more.hyps(2) by fastforce
  qed
  with q(1) show ?case by (auto intro: process_more)
qed

end
