(* ===== verification/Cli.thy ===== *)
theory Cli
  imports Runner
begin

text \<open>
  \<open>src/bin/cli.rs\<close>: the banner, then one runner over the standard input and output and the
  store on disk. What a session leaves behind is its files and its output.
\<close>

section \<open>The model\<close>

text \<open>
  \<open>println!\<close> panics when the standard output fails, which ends the process before the store
  is opened: here the error of the write.
\<close>

fun print_lines :: "string list \<Rightarrow> (writer, unit) sio" where
  "print_lines [] = ret ()"
| "print_lines (t # ts) = bindS (writeln t) (\<lambda>_. print_lines ts)"

definition with_store :: "crates \<Rightarrow> reader \<Rightarrow> (world \<times> writer, unit) sio" where
  "with_store X r s = (case log_new X False (fst s) of
       (Inl e, w) \<Rightarrow> (Inl e, (w, snd s))
     | (Inr l, w) \<Rightarrow> (case run X (r, \<lparr>store = (l, w), poisoned = False\<rparr>, snd s) of
         (res, (_, sh, wr)) \<Rightarrow> (res, (snd (store sh), wr))))"

definition repl :: "crates \<Rightarrow> reader \<Rightarrow> (world \<times> writer, unit) sio" where
  "repl X r = bindS (on_snd (print_lines welcome_lines)) (\<lambda>_. with_store X r)"

text \<open>The CLI started over and over on one data directory, with one input each.\<close>

fun repls :: "crates \<Rightarrow> reader list \<Rightarrow> (world \<times> writer, unit) sio" where
  "repls X [] = ret ()"
| "repls X (r # rs) = bindS (repl X r) (\<lambda>_. repls X rs)"

section \<open>A session\<close>

lemma print_lines_ok:
  "out_faults wr = [] \<Longrightarrow>
   print_lines ts wr = (Inr (), wr\<lparr>out := out wr @ concat (map (\<lambda>t. t @ newline) ts)\<rparr>)"
  by (induction ts arbitrary: wr) (simp_all add: bindS_def writeln_ok)

definition banner :: string where
  "banner = concat (map (\<lambda>t. t @ newline) welcome_lines)"

lemma repl_ok:
  assumes "disk_ok X U w" and "faults w = []" and "disk_room X (length (lines_of (pending r)) + n) w"
    and "out_faults wr = []" and "entries_in U (lines_of (pending r))"
    and "spec_session (broken r) (lines_of (pending r)) (disk_map X w) = (res, m, text)"
  obtains v where "repl X r (w, wr) = (res, (v, wr\<lparr>out := out wr @ banner @ text\<rparr>))"
    and "disk_ok X U v" and "faults v = []" and "disk_room X n v" and "disk_map X v = m"
proof -
  let ?wr = "wr\<lparr>out := out wr @ banner\<rparr>"
  obtain l0 where new: "log_new X False w = (Inr l0, w)" and inv: "log_inv X U (l0, w)"
    using log_new_ok [OF assms(1,2) room_tables [OF assms(1,3)]] by blast
  have of: "out_faults ?wr = []" using assms(4) by simp
  have room: "log_room X (length (lines_of (pending r)) + n) (l0, w)"
    using assms(3) by (simp add: log_room_def)
  have sp: "spec_session (broken r) (lines_of (pending r)) (disk_map X (snd (l0, w))) = (res, m, text)"
    using assms(6) by simp
  obtain r' t where t: "run X (r, \<lparr>store = (l0, w), poisoned = False\<rparr>, ?wr) =
      (res, (r', \<lparr>store = t, poisoned = False\<rparr>, ?wr\<lparr>out := out ?wr @ text\<rparr>))"
      "log_inv X U t" "log_room X n t" "disk_map X (snd t) = m"
    using run_result [OF inv room of assms(5) sp] by blast
  obtain l' v where lv: "t = (l', v)" by (cases t)
  have "repl X r (w, wr) = (res, (v, wr\<lparr>out := out wr @ banner @ text\<rparr>))"
    using t(1) lv by (simp add: repl_def bindS_def on_snd_def print_lines_ok [OF assms(4)] with_store_def
        new banner_def)
  from that [OF this] log_invD(1,2) [OF t(2) [unfolded lv]] t(3,4) lv show ?thesis
    by (simp add: log_room_def)
qed

text \<open>Sessions one after the other, each of well-formed commands.\<close>

definition client :: "command list \<Rightarrow> reader" where
  "client cs = \<lparr>pending = concat (map command_line cs), broken = False\<rparr>"

fun transcript :: "command list list \<Rightarrow> kv_map \<Rightarrow> string" where
  "transcript [] m = []"
| "transcript (cs # css) m = banner @ replies cs m @ transcript css (fold spec_map cs m)"

lemma repls_ok:
  assumes "disk_ok X U w" and "faults w = []" and "disk_room X (length (concat css) + n) w"
    and "out_faults wr = []" and "\<forall>c \<in> set (concat css). command_ok c \<and> good_command U c \<and> c \<noteq> CQuit"
  shows "\<exists>v. repls X (map client css) (w, wr) =
      (Inr (), (v, wr\<lparr>out := out wr @ transcript css (disk_map X w)\<rparr>)) \<and>
    disk_ok X U v \<and> disk_map X v = fold spec_map (concat css) (disk_map X w)"
  using assms
proof (induction css arbitrary: w wr)
  case Nil
  then show ?case by simp
next
  case (Cons cs css)
  let ?m = "disk_map X w"
  have ok: "\<forall>c \<in> set cs. command_ok c \<and> good_command U c" "\<forall>c \<in> set cs. command_ok c \<and> c \<noteq> CQuit"
    using Cons.prems(5) by auto
  have l: "lines_of (pending (client cs)) = map command_line cs"
    using ok(1) by (simp add: client_def lines_of_commands)
  have room: "disk_room X (length (lines_of (pending (client cs))) + (length (concat css) + n)) w"
    using Cons.prems(3) by (simp add: l add.assoc)
  have eU: "entries_in U (lines_of (pending (client cs)))"
    using entries_in_commands [OF ok(1)] by (simp add: l)
  have sp: "spec_session (broken (client cs)) (lines_of (pending (client cs))) ?m =
      (Inr (), fold spec_map cs ?m, replies cs ?m)"
    using spec_session_commands [OF ok(2)] l by (simp add: client_def)
  obtain v where v: "repl X (client cs) (w, wr) = (Inr (), (v, wr\<lparr>out := out wr @ banner @ replies cs ?m\<rparr>))"
      "disk_ok X U v" "faults v = []" "disk_room X (length (concat css) + n) v"
      "disk_map X v = fold spec_map cs ?m"
    using repl_ok [OF Cons.prems(1,2) room Cons.prems(4) eU sp] by blast
  have "\<forall>c \<in> set (concat css). command_ok c \<and> good_command U c \<and> c \<noteq> CQuit"
    using Cons.prems(5) by auto
  from Cons.IH [OF v(2-4) _ this, of "wr\<lparr>out := out wr @ banner @ replies cs ?m\<rparr>"] Cons.prems(4) v(1,5)
  show ?case by (auto simp: bindS_def)
qed

end
