(* ===== verification/TestLang.thy ===== *)
theory TestLang
  imports Runner
begin

text \<open>
  Test cases as data. A case is a list of steps on one store: calls with the answer they must
  give, commands with what they must write, and assertions about the state. \<open>passes\<close> runs a
  case on the model of the store. A case can be decided without the store: \<open>predicted\<close> runs it
  on a summary of the state, which every store with the same history agrees with, whatever
  codec and hash it uses.
\<close>

section \<open>Cases\<close>

datatype expectation =
    Anything
  | Something
  | Trimmed string

text \<open>Assertions; the last two compare with the directory at the last \<open>Mark\<close>.\<close>

datatype check =
    MemtableEmpty bool
  | MemtableLen nat
  | MemtableHas string
  | WalEmpty bool
  | AnyTable bool
  | TableCount nat
  | FewerTables
  | OldTablesGone

datatype test_step =
    Call action answer
  | Exec command expectation
  | Mark
  | Check check

fun meets :: "expectation \<Rightarrow> string \<Rightarrow> bool" where
  "meets Anything s = True"
| "meets Something s = (s \<noteq> [])"
| "meets (Trimmed t) s = (str_trim s = t)"

definition table_names :: "world \<Rightarrow> string list" where
  "table_names w = map fst (ssts w)"

fun check_ok :: "check \<Rightarrow> string list \<Rightarrow> log \<times> world \<Rightarrow> bool" where
  "check_ok (MemtableEmpty b) ns s = (is_empty (log_memtable (fst s)) = b)"
| "check_ok (MemtableLen n) ns s = (memtable_len (log_memtable (fst s)) = n)"
| "check_ok (MemtableHas k) ns s = memtable_contains_key (log_memtable (fst s)) k"
| "check_ok (WalEmpty b) ns s = ((length (wal (snd s)) = 0) = b)"
| "check_ok (AnyTable b) ns s = ((ssts (snd s) \<noteq> []) = b)"
| "check_ok (TableCount n) ns s = (length (ssts (snd s)) = n)"
| "check_ok FewerTables ns s = (length (ssts (snd s)) < length ns)"
| "check_ok OldTablesGone ns s = (\<forall>n \<in> set (table_names (snd s)). n \<notin> set ns)"

fun passes :: "crates \<Rightarrow> test_step list \<Rightarrow> string list \<Rightarrow> log \<times> world \<Rightarrow> bool" where
  "passes X [] ns s = True"
| "passes X (Call a r # ts) ns s = (case act X a s of
     (Inl _, _) \<Rightarrow> False
   | (Inr r', t) \<Rightarrow> r' = r \<and> passes X ts ns t)"
| "passes X (Exec c x # ts) ns s = (case execute X c (s, \<lparr>out = [], out_faults = []\<rparr>) of
     (Inl _, _) \<Rightarrow> False
   | (Inr _, (t, wr)) \<Rightarrow> meets x (out wr) \<and> passes X ts ns t)"
| "passes X (Mark # ts) ns s = passes X ts (table_names (snd s)) s"
| "passes X (Check c # ts) ns s = (check_ok c ns s \<and> passes X ts ns s)"

text \<open>A case starts on a store opened with \<open>truncate\<close> in an empty directory.\<close>

definition passes_fresh :: "crates \<Rightarrow> world \<Rightarrow> test_step list \<Rightarrow> bool" where
  "passes_fresh X w ts = (case log_new X True w of
     (Inl _, _) \<Rightarrow> False
   | (Inr l, v) \<Rightarrow> passes X ts [] (l, v))"

section \<open>Summaries of a state\<close>

text \<open>
  The map, the entries of the WAL, bounds on the number of tables, the keys in the tables, a
  bound on the flush count; and of the marked directory, a lower bound on its size, whether it
  is still the current one, and whether all its tables are gone.
\<close>

record summary =
  s_map :: "string \<Rightarrow> string option"
  s_wal :: "entry list"
  s_low :: nat
  s_high :: nat
  s_keys :: "string list"
  s_flushes :: nat
  s_marked :: nat
  s_same :: bool
  s_gone :: bool

definition fresh_summary :: summary where
  "fresh_summary = \<lparr>s_map = Map.empty, s_wal = [], s_low = 0, s_high = 0, s_keys = [], s_flushes = 0,
     s_marked = 0, s_same = True, s_gone = False\<rparr>"

definition s_flush :: "summary \<Rightarrow> summary" where
  "s_flush g = (if s_wal g = [] then g\<lparr>s_flushes := Suc (s_flushes g)\<rparr>
     else g\<lparr>s_wal := [], s_low := Suc (s_low g), s_high := Suc (s_high g),
       s_keys := s_keys g @ map entry_key (s_wal g), s_flushes := Suc (s_flushes g),
       s_same := False, s_gone := False\<rparr>)"

definition s_compact :: "summary \<Rightarrow> summary" where
  "s_compact g = g\<lparr>s_low := (if s_wal g = [] \<and> (\<exists>k \<in> set (s_keys g). s_map g k \<noteq> None) then 1 else 0),
     s_high := length (remdups (s_keys g)), s_same := False, s_gone := s_same g\<rparr>"

fun s_act :: "action \<Rightarrow> summary \<Rightarrow> summary" where
  "s_act (Write e) g = g\<lparr>s_map := apply_entry e (s_map g), s_wal := s_wal g @ [e]\<rparr>"
| "s_act Flush g = s_flush g"
| "s_act Compact g = s_compact g"
| "s_act Reopen g = g\<lparr>s_flushes := s_high g\<rparr>"
| "s_act a g = g"

text \<open>A case must not reach the automatic flush, nor the automatic compaction.\<close>

fun s_act_ok :: "action \<Rightarrow> summary \<Rightarrow> bool" where
  "s_act_ok (Write e) g = (length (s_wal g) < 8)"
| "s_act_ok Flush g = (s_flushes g < 9)"
| "s_act_ok a g = True"

fun s_exec :: "command \<Rightarrow> summary \<Rightarrow> summary" where
  "s_exec (CSet k v) g = s_act (Write (Set k v)) g"
| "s_exec (CDelete k) g = (if s_map g k = None then g else s_act (Write (Delete k)) g)"
| "s_exec c g = g"

definition s_exec_ok :: "command \<Rightarrow> summary \<Rightarrow> bool" where
  "s_exec_ok c g \<longleftrightarrow> c \<noteq> CQuit \<and> length (s_wal g) < 8"

definition s_entries :: "entry list \<Rightarrow> (string, entry) btree" where
  "s_entries es = fold (\<lambda>e. btree_insert (entry_key e) e) es []"

fun s_check :: "check \<Rightarrow> summary \<Rightarrow> bool" where
  "s_check (MemtableEmpty b) g = ((s_wal g = []) = b)"
| "s_check (MemtableLen n) g = (length (s_entries (s_wal g)) = n)"
| "s_check (MemtableHas k) g = (k \<in> set (map entry_key (s_wal g)))"
| "s_check (WalEmpty b) g = ((s_wal g = []) = b)"
| "s_check (AnyTable b) g = (if b then 0 < s_low g else s_high g = 0)"
| "s_check (TableCount n) g = (s_low g = n \<and> s_high g = n)"
| "s_check FewerTables g = (s_high g < s_marked g)"
| "s_check OldTablesGone g = s_gone g"

fun predicted :: "test_step list \<Rightarrow> summary \<Rightarrow> bool" where
  "predicted [] g = True"
| "predicted (Call a r # ts) g = (s_act_ok a g \<and> spec_answer a (s_map g) = r \<and> predicted ts (s_act a g))"
| "predicted (Exec c x # ts) g = (s_exec_ok c g \<and> meets x (reply_line c (s_map g) @ newline) \<and> predicted ts (s_exec c g))"
| "predicted (Mark # ts) g = predicted ts (g\<lparr>s_marked := s_low g, s_same := True, s_gone := False\<rparr>)"
| "predicted (Check c # ts) g = (s_check c g \<and> predicted ts g)"

fun written :: "test_step \<Rightarrow> entry list" where
  "written (Call (Write e) r) = [e]"
| "written (Exec c x) = (case command_entry c of Some e \<Rightarrow> [e] | None \<Rightarrow> [])"
| "written t = []"

section \<open>The summary is true of the store\<close>

definition table_keys :: "crates \<Rightarrow> world \<Rightarrow> string set" where
  "table_keys X w = entry_key ` \<Union> (set ` set (map snd (tables_of X w)))"

definition summarizes :: "crates \<Rightarrow> entry set \<Rightarrow> string list \<Rightarrow> log \<times> world \<Rightarrow> summary \<Rightarrow> bool" where
  "summarizes X U ns s g \<longleftrightarrow> log_inv X U s \<and> disk_map X (snd s) = s_map g \<and>
     wal_entries X (snd s) = s_wal g \<and> length (s_wal g) \<le> 8 \<and> (s_wal g = [] \<longrightarrow> wal (snd s) = []) \<and>
     s_low g \<le> length (ssts (snd s)) \<and> length (ssts (snd s)) \<le> s_high g \<and>
     table_keys X (snd s) \<subseteq> set (s_keys g) \<and>
     flush_count (fst s) \<le> s_flushes g \<and> s_marked g \<le> length ns \<and>
     (s_same g \<longrightarrow> ns = table_names (snd s)) \<and>
     (s_gone g \<longrightarrow> (\<forall>n \<in> set (table_names (snd s)). n \<notin> set ns))"

text \<open>Entries so small that eight of them do not fill the memtable.\<close>

definition small :: "crates \<Rightarrow> entry set \<Rightarrow> bool" where
  "small X U \<longleftrightarrow> (\<forall>e \<in> U. esize X e \<le> 2 ^ 19)"

lemma summarizesD:
  assumes "summarizes X U ns (l, w) g"
  shows "log_inv X U (l, w)" and "disk_ok X U w" and "log_memtable l = memtable_of X (s_wal g)"
    and "wal_entries X w = s_wal g" and "memtable_wf X (log_memtable l)"
    and "set (s_wal g) \<subseteq> U" and "list_all (entry_ok X) (s_wal g)"
proof -
  show i: "log_inv X U (l, w)" and w: "wal_entries X w = s_wal g" using assms by (simp_all add: summarizes_def)
  show "disk_ok X U w" by (rule log_invD(1) [OF i])
  note d = disk_okD [OF this]
  show m: "log_memtable l = memtable_of X (s_wal g)" using log_invD(4) [OF i] w by simp
  show "memtable_wf X (log_memtable l)" using wal_memtable(1) [OF log_invD(1) [OF i]] m w by simp
  show "set (s_wal g) \<subseteq> U" "list_all (entry_ok X) (s_wal g)"
    using wal_okD [OF disk_ok_wal [OF log_invD(1) [OF i]]] w by auto
qed

lemma summary_not_full:
  assumes "summarizes X U ns (l, w) g" and "small X U"
  shows "\<not> should_flush (log_memtable l)"
proof -
  note d = summarizesD [OF assms(1)]
  have le: "esizes X es \<le> length es * 2 ^ 19" if "set es \<subseteq> U" for es
    using that assms(2) by (induction es) (fastforce simp: small_def)+
  have "length (s_wal g) \<le> 8" using assms(1) by (simp add: summarizes_def)
  with le [OF d(6)] have e: "esizes X (s_wal g) \<le> 2 ^ 22" by simp
  have "tracked (log_memtable l) \<le> esizes X (s_wal g)"
    using fold_inserted_wf(2) [OF memtable_new_wf d(7)] e by (simp add: d(3) memtable_of_def)
  with e show ?thesis by (simp add: should_flush_def FLUSH_THRESHOLD_MB_def)
qed

lemma check_predicted:
  assumes "summarizes X U ns (l, w) g" and "s_check c g"
  shows "check_ok c ns (l, w)"
proof -
  note d = summarizesD [OF assms(1)]
  have n: "length (s_wal g) \<le> 2 ^ 29" using assms(1) by (simp add: summarizes_def)
  have len: "memtable_len (log_memtable l) = length (s_entries (s_wal g))"
    by (simp add: memtable_len_def d(3) memtable_of_def entries_fold_inserted s_entries_def)
  have "memtable_get (log_memtable l) k = lookup_entry (rev (s_wal g)) k" for k
    using memtable_of_facts(5) [OF d(7) n] d(3) by simp
  then have has: "memtable_get (log_memtable l) k \<noteq> None \<longleftrightarrow> k \<in> entry_key ` set (s_wal g)" for k
    using lookup_entry_None_iff [of "rev (s_wal g)" k] by simp
  have empty: "is_empty (log_memtable l) \<longleftrightarrow> s_wal g = []"
  proof
    assume "is_empty (log_memtable l)"
    with is_empty_new have "log_memtable l = memtable_new" by blast
    with has show "s_wal g = []" by (cases "s_wal g") auto
  next
    assume "s_wal g = []"
    then show "is_empty (log_memtable l)" by (simp add: d(3) memtable_of_def)
  qed
  have wal: "wal w = [] \<longleftrightarrow> s_wal g = []"
    using assms(1) wal_entries_empty [of w X] by (auto simp: summarizes_def)
  show ?thesis
    using assms by (cases c) (auto simp: len memtable_contains_key_get has empty wal summarizes_def simp del: not_None_eq split: if_splits)
qed

text \<open>The calls, one by one.\<close>

lemma predicted_write:
  assumes "summarizes X U ns s g" and "log_room X (Suc n) s" and "s_act_ok (Write e) g" and "e \<in> U"
  shows "\<exists>t. log_write X e s = (Inr (), t) \<and> summarizes X U ns t (s_act (Write e) g) \<and> log_busy X n t"
proof -
  obtain l w where s: "s = (l, w)" by fastforce
  note a = assms(1) [unfolded s] and d = summarizesD [OF assms(1) [unfolded s]]
  have n: "length (wal_entries X w) < MAX_WAL_ENTRIES"
    using assms(3) by (simp add: d(4) MAX_WAL_ENTRIES_def)
  obtain h where h: "log_write X e (l, w) =
      (Inr (), (l\<lparr>wal_file := h, log_memtable := inserted X e (log_memtable l)\<rparr>, appended X e w))"
      "log_inv X U (l\<lparr>wal_file := h, log_memtable := inserted X e (log_memtable l)\<rparr>, appended X e w)"
    using log_write_ok [OF d(1) assms(4) n] by blast
  have "disk_map X (appended X e w) = apply_entry e (s_map g)"
    using disk_map_append [OF d(2) assms(4)] a by (simp add: apply_entry_def summarizes_def)
  moreover have "wal_entries X (appended X e w) = s_wal g @ [e]"
    using wal_entries_append [OF d(2) assms(4)] d(4) by simp
  moreover have "log_busy X n (l\<lparr>wal_file := h, log_memtable := inserted X e (log_memtable l)\<rparr>, appended X e w)"
    using log_room_append [OF d(2) assms(4)] assms(2) s by blast
  moreover have "table_keys X (appended X e w) = table_keys X w" "table_names (appended X e w) = table_names w"
    by (simp_all add: table_keys_def table_names_def)
  ultimately show ?thesis
    using h a assms(3) s by (auto simp: summarizes_def)
qed

lemma predicted_tidy:
  assumes "summarizes X U ns s g" and "log_busy X n s" and "small X U"
  shows "maybe_flush X s = (Inr (), s)" and "log_room X n s"
  using summary_not_full [of X U ns "fst s" "snd s" g] assms log_busy_room
  by (simp_all add: maybe_flush_def)

lemma keys_with_memtable:
  assumes "set (memtable_values m) \<subseteq> set es" and "tables_of X v = with_memtable m w (tables_of X w)"
  shows "table_keys X v \<subseteq> table_keys X w \<union> entry_key ` set es"
  using assms by (auto simp: table_keys_def with_memtable_def)

lemma length_tables_of: "length (tables_of X w) = length (ssts w)" "map fst (tables_of X w) = table_names w"
  by (simp_all add: tables_of_def table_names_def)

lemma predicted_flush:
  assumes "summarizes X U ns s g" and "log_busy X n s" and "s_act_ok Flush g"
  shows "\<exists>t. log_flush X s = (Inr (), t) \<and> summarizes X U ns t (s_act Flush g) \<and> log_room X n t"
proof -
  obtain l w where s: "s = (l, w)" by fastforce
  note a = assms(1) [unfolded s] and d = summarizesD [OF assms(1) [unfolded s]]
  obtain l' w' where f: "log_flush X (l, w) = (Inr (), (l', w'))" "log_room X n (l', w')"
    using log_flush_room [OF d(1)] assms(2) s by blast
  have cnt: "flush_count l < 9" using a assms(3) by (simp add: summarizes_def)
  then have nd: "\<not> compaction_due l"
    by (simp add: compaction_due_def saturating_add_def COMPACT_EVERY_N_FLUSHES_def)
  let ?m = "log_memtable l"
  have ck: "clock_ok (flush_cost X (l, w) + 0) w"
    using assms(2) nd clock_ok_mono [of _ w]
    by (auto simp: s log_busy_def flush_cost_def Let_def table_cost_def)
  from log_flush_ok [OF d(1) ck] f(1) nd have r: "log_inv X U (l', w')" "disk_map X w' = disk_map X w"
      "wal w' = []" "flush_count l' = saturating_add (flush_count l) 1"
      "tables_of X w' = with_memtable ?m w (tables_of X w)"
    by (auto simp: flushed_tables_def Let_def)
  have nl: "length (s_wal g) \<le> 2 ^ 29" using a by (simp add: summarizes_def)
  note mf = memtable_of_facts [OF d(7) nl]
  have empty: "memtable_values ?m = [] \<longleftrightarrow> s_wal g = []"
  proof
    assume "memtable_values ?m = []"
    then have "lookup_entry (rev (s_wal g)) k = None" for k
      using mf(5) [of k] memtable_get_lookup [OF d(5)] d(3) by simp
    then show "s_wal g = []" by (cases "s_wal g") (auto simp: lookup_entry_None_iff)
  qed (use mf(3) d(3) in \<open>simp add: memtable_len_def memtable_values_def btree_values_def memtable_of_def\<close>)
  have "set (memtable_values ?m) \<subseteq> set (s_wal g)" using mf(4) d(3) by simp
  from keys_with_memtable [OF this r(5)]
  have keys: "table_keys X w' \<subseteq> set (s_keys g) \<union> entry_key ` set (s_wal g)"
    using a by (auto simp: summarizes_def)
  have len: "length (ssts w') = length (ssts w) + (if s_wal g = [] then 0 else 1)"
    using arg_cong [OF r(5), of length] empty by (simp add: with_memtable_def length_tables_of)
  have same: "table_names w' = table_names w" if "s_wal g = []"
    using arg_cong [OF r(5), of "map fst"] empty that by (simp add: with_memtable_def length_tables_of)
  have fc: "flush_count l' \<le> Suc (s_flushes g)"
    using r(4) cnt a by (simp add: saturating_add_def summarizes_def)
  have we: "wal_entries X w' = []" using r(3) by (rule wal_entries_empty)
  have "summarizes X U ns (l', w') (s_flush g)"
  proof (cases "s_wal g = []")
    case True
    with r(1,2,3) keys len same fc a we show ?thesis by (simp add: summarizes_def s_flush_def)
  next
    case False
    with r(1,2,3) keys len fc a we show ?thesis by (simp add: summarizes_def s_flush_def)
  qed
  with f s show ?thesis by simp
qed

lemma predicted_compact:
  assumes "summarizes X U ns s g" and "log_busy X n s"
  shows "\<exists>t. log_compact X s = (Inr (), t) \<and> summarizes X U ns t (s_act Compact g) \<and> log_room X n t"
proof -
  obtain l w where s: "s = (l, w)" by fastforce
  note a = assms(1) [unfolded s] and d = summarizesD [OF assms(1) [unfolded s]]
  note i = log_invD [OF d(1)]
  let ?T = "tables_of X w"
  note h = disk_okD(2) [OF i(1)]
  obtain w' where c: "log_compact X (l, w) = (Inr (), (l, w'))" "log_inv X U (l, w')" "log_room X n (l, w')"
      "disk_map X w' = disk_map X w"
    using log_compact_room [OF d(1)] assms(2) s by blast
  have "length (compacted X ?T) \<le> stored X w" using compacted_length(2) [OF h] by (simp add: stored_def)
  then have "clock_ok (length (compacted X ?T) + 0) w"
    using assms(2) clock_ok_mono [of _ w] by (auto simp: s log_busy_def)
  from compact_disk [OF i(1,2) this] c(1) have r: "wal w' = wal w" "map snd (tables_of X w') = compacted X ?T"
      "\<forall>n \<in> fst ` set (ssts w'). \<forall>m \<in> fst ` set (ssts w). m < n"
    by (auto simp: log_compact_def on_snd_def)
  have len: "length (ssts w') = length (compacted X ?T)"
    using arg_cong [OF r(2), of length] by (simp add: length_tables_of)
  have ent: "set (concat (compacted X ?T)) \<subseteq> \<Union> (set ` set (map snd ?T))" by (rule compacted_entries(1) [OF h])
  have ne: "[] \<notin> set (compacted X ?T)"
    using compacted_facts(2) [OF h] by (auto simp: chunk_ok_def list_all_iff)
  have k: "entry_key ` set (concat (compacted X ?T)) \<subseteq> set (s_keys g)"
    using a image_mono [OF ent, of entry_key] by (auto simp: summarizes_def table_keys_def)
  then have keys: "table_keys X w' \<subseteq> set (s_keys g)" unfolding table_keys_def r(2) by simp
  have "length (compacted X ?T) \<le> length (concat (compacted X ?T))" by (rule length_le_concat [OF ne])
  also have "\<dots> = card (entry_key ` set (concat (compacted X ?T)))"
    using compacted_facts(3) [OF h] distinct_card [of "map entry_key (concat (compacted X ?T))"]
    by (simp add: key_sorted_def strict_sorted_iff)
  also have "\<dots> \<le> card (set (s_keys g))" using k by (intro card_mono) simp_all
  finally have high: "length (ssts w') \<le> length (remdups (s_keys g))" using len by (simp add: length_remdups_card_conv)
  have we: "wal_entries X w' = wal_entries X w" using r(1) by (rule wal_entries_cong)
  have low: "s_low (s_compact g) \<le> length (ssts w')"
  proof (cases "ssts w' = [] \<and> s_wal g = []")
    case True
    then have "disk_map X w' k = None" for k
      using we d(4) by (simp add: disk_map_def latest_def store_get_def newest_first_def sort_desc_def tables_of_def)
    then have "s_map g k = None" for k using c(4) a by (simp add: summarizes_def)
    with True show ?thesis by (simp add: s_compact_def)
  next
    case False
    then show ?thesis by (auto simp: s_compact_def Suc_le_eq)
  qed
  have gone: "\<forall>m \<in> set (table_names w'). m \<notin> set (table_names w)"
    using r(3) by (fastforce simp: table_names_def)
  have "summarizes X U ns (l, w') (s_compact g)"
    using c keys high low gone we r(1) a by (simp add: summarizes_def) (simp add: s_compact_def)
  with c s show ?thesis by auto
qed

lemma predicted_reopen:
  assumes "summarizes X U ns s g" and "log_room X n s"
  shows "\<exists>t. reopen X s = (Inr (), t) \<and> summarizes X U ns t (s_act Reopen g) \<and> log_room X n t"
proof -
  obtain l w where s: "s = (l, w)" by fastforce
  note a = assms(1) [unfolded s] and d = summarizesD [OF assms(1) [unfolded s]]
  have "length (ssts w) < 2 ^ 64" using room_tables [OF d(2)] assms(2) s by (simp add: log_room_def)
  from log_new_ok [OF d(2) log_invD(2) [OF d(1)] this] obtain l' where
    "log_new X False w = (Inr l', w)" "log_inv X U (l', w)" "flush_count l' = length (ssts w)" by blast
  with a assms(2) s show ?thesis
    by (intro exI [of _ "(l', w)"]) (auto simp: reopen_def summarizes_def log_room_def)
qed

lemma predicted_act:
  assumes "summarizes X U ns s g" and "log_room X (Suc n) s" and "s_act_ok a g" and "small X U"
    and "\<forall>e. a = Write e \<longrightarrow> e \<in> U"
  shows "\<exists>t. act X a s = (Inr (spec_answer a (s_map g)), t) \<and> summarizes X U ns t (s_act a g) \<and> log_room X n t"
proof -
  note r = store.room_less [OF assms(2)] and b = store.room_busy [OF assms(2)]
  have inv: "log_inv X U s" and m: "disk_map X (snd s) = s_map g" using assms(1) by (simp_all add: summarizes_def)
  show ?thesis
  proof (cases a)
    case (Write e)
    with predicted_write [OF assms(1,2), of e] assms(3,5) store.busy_room show ?thesis
      by (fastforce simp: bindS_def)
  next
    case (Get k)
    with assms(1) r store.get_law [OF inv, of k] m show ?thesis by (simp add: bindS_def)
  next
    case (Contains k)
    with assms(1) r store.contains_law [OF inv, of k] m show ?thesis by (simp add: bindS_def)
  next
    case Flush
    with predicted_flush [OF assms(1) b] assms(3) show ?thesis by (fastforce simp: bindS_def)
  next
    case MaybeFlush
    with predicted_tidy [OF assms(1) b assms(4)] assms(1) show ?thesis by (simp add: bindS_def)
  next
    case Compact
    with predicted_compact [OF assms(1) b] show ?thesis by (fastforce simp: bindS_def)
  next
    case Reopen
    with predicted_reopen [OF assms(1) r] show ?thesis by (fastforce simp: bindS_def)
  qed
qed

text \<open>A command is its reply, and for some commands a write and a flush check.\<close>

lemma predicted_write_tidy:
  assumes "summarizes X U ns s g" and "log_room X (Suc n) s" and "length (s_wal g) < 8" and "small X U"
    and "e \<in> U"
  shows "\<exists>t. log_write X e s = (Inr (), t) \<and> maybe_flush X t = (Inr (), t) \<and>
    summarizes X U ns t (s_act (Write e) g) \<and> log_room X n t"
proof -
  have "s_act_ok (Write e) g" using assms(3) by simp
  from predicted_write [OF assms(1,2) this assms(5)] predicted_tidy [OF _ _ assms(4)] show ?thesis by metis
qed

lemma predicted_exec:
  assumes "summarizes X U ns s g" and "log_room X (Suc n) s" and "s_exec_ok c g" and "small X U"
    and "good_command U c" and "out_faults wr = []"
  shows "\<exists>t. execute X c (s, wr) = (Inr (), (t, wr\<lparr>out := out wr @ reply_line c (s_map g) @ newline\<rparr>)) \<and>
    summarizes X U ns t (s_exec c g) \<and> log_room X n t"
proof -
  note r = store.room_less [OF assms(2)] and b = store.room_busy [OF assms(2)]
  have inv: "log_inv X U s" and m: "disk_map X (snd s) = s_map g" using assms(1) by (simp_all add: summarizes_def)
  have q: "c \<noteq> CQuit" and len: "length (s_wal g) < 8" using assms(3) by (simp_all add: s_exec_ok_def)
  note w = writeln_ok [OF assms(6)]
  show ?thesis
  proof (cases c)
    case (CSet k v)
    then have "Set k v \<in> U" using assms(5) by (simp add: good_command_def)
    from predicted_write_tidy [OF assms(1,2) len assms(4) this] CSet w show ?thesis
      by (auto simp: execute_def bindS_def on_fst_def on_snd_def)
  next
    case (CGet k)
    with assms(1) r w store.get_law [OF inv, of k] m show ?thesis
      by (cases s; cases "s_map g k") (simp_all add: execute_def bindS_def on_fst_def on_snd_def)
  next
    case (CDelete k)
    show ?thesis
    proof (cases "s_map g k = None")
      case True
      have "execute X (CDelete k) (s, wr) = (Inr (), (s, wr\<lparr>out := out wr @ k @ '' not found'' @ newline\<rparr>))"
        using execute_delete_missing_small [OF inv] summary_not_full [of X U ns "fst s" "snd s" g] assms(1,4,6) m True
        by simp
      with CDelete True assms(1) r show ?thesis by simp
    next
      case False
      then have con: "log_contains X k s = (Inr True, s)" using store.contains_law [OF inv, of k] m by simp
      have "Delete k \<in> U" using assms(5) CDelete by (simp add: good_command_def)
      from predicted_write_tidy [OF assms(1,2) len assms(4) this] CDelete w con False show ?thesis
        by (auto simp: execute_def bindS_def on_fst_def on_snd_def)
    qed
  next
    case CHelp
    with assms(1) r w show ?thesis by (simp add: execute_def bindS_def on_snd_def)
  qed (use q in simp)
qed

text \<open>What is predicted happens.\<close>

lemma predicted_passes:
  assumes "predicted ts g" and "summarizes X U ns s g" and "log_room X (length ts) s" and "small X U"
    and "set (concat (map written ts)) \<subseteq> U"
  shows "passes X ts ns s"
  using assms
proof (induction ts arbitrary: g ns s)
  case Nil
  then show ?case by simp
next
  case (Cons x ts)
  have room: "log_room X (Suc (length ts)) s" using Cons.prems(3) by simp
  note less = store.room_less [OF room]
  have U: "set (written x) \<subseteq> U" "set (concat (map written ts)) \<subseteq> U" using Cons.prems(5) by simp_all
  show ?case
  proof (cases x)
    case (Call a r)
    have e: "\<forall>e. a = Write e \<longrightarrow> e \<in> U" using U(1) Call by auto
    have p: "s_act_ok a g" "spec_answer a (s_map g) = r" "predicted ts (s_act a g)"
      using Cons.prems(1) Call by simp_all
    from predicted_act [OF Cons.prems(2) room p(1) Cons.prems(4) e] obtain t where
      "act X a s = (Inr (spec_answer a (s_map g)), t)" "summarizes X U ns t (s_act a g)" "log_room X (length ts) t"
      by blast
    with Cons.IH [OF p(3) _ _ Cons.prems(4) U(2)] Call p(2) show ?thesis by simp
  next
    case (Exec c y)
    have e: "good_command U c" using U(1) Exec by (auto simp: good_command_def split: option.splits)
    have p: "s_exec_ok c g" "meets y (reply_line c (s_map g) @ newline)" "predicted ts (s_exec c g)"
      using Cons.prems(1) Exec by simp_all
    from predicted_exec [OF Cons.prems(2) room p(1) Cons.prems(4) e, of "\<lparr>out = [], out_faults = []\<rparr>"] obtain t where
      "execute X c (s, \<lparr>out = [], out_faults = []\<rparr>) =
        (Inr (), (t, \<lparr>out = reply_line c (s_map g) @ newline, out_faults = []\<rparr>))"
      "summarizes X U ns t (s_exec c g)" "log_room X (length ts) t" by auto
    with Cons.IH [OF p(3) _ _ Cons.prems(4) U(2)] Exec p(2) show ?thesis by simp
  next
    case Mark
    have "summarizes X U (table_names (snd s)) s (g\<lparr>s_marked := s_low g, s_same := True, s_gone := False\<rparr>)"
      using Cons.prems(2) by (simp add: summarizes_def) (simp add: table_names_def)
    with Cons.IH [OF _ this less Cons.prems(4) U(2)] Cons.prems(1) Mark show ?thesis by simp
  next
    case (Check c)
    have "check_ok c ns (fst s, snd s)"
      using check_predicted [of X U ns "fst s" "snd s" g c] Cons.prems(1,2) Check by simp
    with Cons.IH [OF _ Cons.prems(2) less Cons.prems(4) U(2)] Cons.prems(1) Check show ?thesis by simp
  qed
qed

text \<open>Test cases on a new store: an empty directory, and a clock that runs.\<close>

text \<open>An empty directory.\<close>

lemma fresh_disk_map:
  assumes "wal w = []" and "ssts w = []"
  shows "disk_map X w = Map.empty"
  using assms wal_entries_empty [OF assms(1)]
  by (intro ext) (simp add: disk_map_def latest_def tables_of_def store_get_def newest_first_def sort_desc_def)

lemma fresh_log_room:
  assumes "wal w = []" and "ssts w = []" and "clock_ok (10 ^ 7) w" and "n \<le> 1000"
  shows "log_room X n (l, w)"
proof -
  have "n * (n + 2) \<le> 1000 * 1002" using assms(4) by (intro mult_mono) simp_all
  then have "clock_ok (n * (n + 2)) w" using clock_ok_mono [OF assms(3)] by simp
  then show ?thesis
    using assms wal_entries_empty [OF assms(1)]
    by (simp add: log_room_def disk_room_def stored_def tables_of_def MAX_WAL_ENTRIES_def)
qed

lemma predicted_passes_fresh:
  assumes "predicted ts fresh_summary" and "universe X U" and "small X U"
    and "set (concat (map written ts)) \<subseteq> U" and "faults w = []" and "wal w = []" and "ssts w = []"
    and "length ts \<le> 1000" and "clock_ok (10 ^ 7) w"
  shows "passes_fresh X w ts"
proof -
  have we: "wal_entries X w = []" using assms(6) by (rule wal_entries_empty)
  have t: "tables_of X w = []" using assms(7) by (simp add: tables_of_def)
  have "disk_ok X U w" using assms(2,6,7) by (rule fresh_disk_ok)
  moreover have "w\<lparr>wal := []\<rparr> = w" using assms(6) by (cases w) simp
  ultimately obtain l where l: "log_new X True w = (Inr l, w)" "log_inv X U (l, w)" "flush_count l = 0"
    using log_new_truncate [of X U w] assms(5,7) by auto
  have "disk_map X w = Map.empty" using assms(6,7) by (rule fresh_disk_map)
  then have "summarizes X U [] (l, w) fresh_summary"
    using l(2,3) assms(6,7) by (simp add: summarizes_def fresh_summary_def we t table_names_def table_keys_def)
  moreover have "log_room X (length ts) (l, w)" using assms(6,7,9,8) by (rule fresh_log_room)
  ultimately show ?thesis
    using predicted_passes [OF assms(1) _ _ assms(3,4)] l(1) by (simp add: passes_fresh_def)
qed

end
