(* ===== verification/UnitTests.thy ===== *)
theory UnitTests
  imports TestLang
begin

text \<open>
  The unit tests of the repository, as cases for the model. A store of the tests is opened
  with \<open>truncate\<close> in an empty directory (\<open>temp_log\<close>); the writer is a sink or a vector.
\<close>

section \<open>src/lib/log/command.rs\<close>

datatype parsed =
    IsSet
  | IsGet
  | IsDelete
  | IsQuit
  | IsHelp
  | IsErr command_error

fun parses :: "string \<times> parsed \<Rightarrow> bool" where
  "parses (s, p) = (case try_from s of
       Inr (CSet _ _) \<Rightarrow> p = IsSet
     | Inr (CGet _) \<Rightarrow> p = IsGet
     | Inr (CDelete _) \<Rightarrow> p = IsDelete
     | Inr CQuit \<Rightarrow> p = IsQuit
     | Inr CHelp \<Rightarrow> p = IsHelp
     | Inl e \<Rightarrow> p = IsErr e)"

definition parse_tests :: "(string \<times> parsed) list" where
  "parse_tests = [
     (''set a b'', IsSet), (''s a b'', IsSet),
     (''get a'', IsGet), (''g a'', IsGet),
     (''delete a'', IsDelete), (''del a'', IsDelete), (''d a'', IsDelete),
     (''quit'', IsQuit), (''q'', IsQuit), (''exit'', IsQuit),
     (''help'', IsHelp), (''h'', IsHelp),
     ('''', IsErr MissingRequiredArguments),
     (''set a'', IsErr MissingRequiredArguments),
     (''set'', IsErr MissingRequiredArguments),
     (''get'', IsErr MissingRequiredArguments),
     (''delete'', IsErr MissingRequiredArguments),
     (''set a b c'', IsErr TooManyArguments),
     (''get a b'', IsErr TooManyArguments),
     (''delete a b'', IsErr TooManyArguments),
     (''foo'', IsErr UnrecognizedCommand)]"

definition execute_tests :: "test_step list list" where
  "execute_tests = [
     [Exec (command_set ''a'' ''1'') Anything, Check (MemtableLen 1), Check (MemtableHas ''a'')],
     [Exec (command_set ''a'' ''1'') Anything, Exec (command_delete ''a'') Anything, Call (Get ''a'') (Found None)],
     [Exec (command_delete ''a'') Anything, Check (MemtableEmpty True)],
     [Exec (command_set ''a'' ''1'') Anything, Exec (command_delete ''a'') Anything, Call Reopen Done,
      Check (MemtableEmpty False), Call (Get ''a'') (Found None)],
     [Exec CHelp Anything, Check (MemtableEmpty True)],
     [Exec (command_set ''a'' ''1'') Anything, Call Flush Done, Call (Contains ''a'') (Known True),
      Exec (command_get ''a'') Anything],
     [Exec (command_set ''a'' ''1'') (Trimmed ''a => 1'')],
     [Exec (command_set ''a'' ''1'') Anything, Exec (command_set ''a'' ''2'') (Trimmed ''a => 2'')],
     [Exec (command_set ''a'' ''1'') Anything, Exec (command_get ''a'') (Trimmed ''a => 1'')],
     [Exec (command_get ''a'') (Trimmed ''a not found'')],
     [Exec (command_set ''a'' ''1'') Anything, Exec (command_delete ''a'') (Trimmed ''a deleted'')],
     [Exec (command_delete ''a'') (Trimmed ''a not found'')],
     [Exec CHelp Something]]"

section \<open>src/lib/log/mod.rs\<close>

definition log_tests :: "test_step list list" where
  "log_tests = [
     [Check (MemtableEmpty True)],
     [Call (Write (Set ''a'' ''1'')) Done, Call Reopen Done, Check (MemtableLen 1), Check (MemtableHas ''a'')],
     [Call (Write (Set ''a'' ''1'')) Done, Call (Get ''a'') (Found (Some (Set ''a'' ''1'')))],
     [Call (Get ''a'') (Found None)],
     [Call (Write (Set ''a'' ''1'')) Done, Call Flush Done, Call (Get ''a'') (Found (Some (Set ''a'' ''1'')))],
     [Call (Write (Set ''a'' ''1'')) Done, Call (Write (Set ''a'' ''2'')) Done, Call Flush Done,
      Call (Get ''a'') (Found (Some (Set ''a'' ''2'')))],
     [Call (Write (Set ''a'' ''1'')) Done, Call Flush Done, Check (AnyTable True)],
     [Call (Write (Set ''a'' ''1'')) Done, Call Flush Done, Check (MemtableEmpty True)],
     [Call (Write (Set ''a'' ''1'')) Done, Call Flush Done, Check (WalEmpty True)],
     [Call (Write (Set ''a'' ''1'')) Done, Call MaybeFlush Done, Check (MemtableEmpty False),
      Check (WalEmpty False), Check (AnyTable False)],
     [Call (Write (Set ''a'' ''1'')) Done, Call Flush Done, Call (Write (Set ''b'' ''2'')) Done, Call Flush Done,
      Call (Write (Set ''c'' ''3'')) Done, Call Flush Done, Call (Get ''d'') (Found None)],
     [Call (Write (Set ''a'' ''1'')) Done, Call (Write (Delete ''a'')) Done, Call (Get ''a'') (Found None)],
     [Call (Write (Set ''a'' ''1'')) Done, Call Flush Done, Call (Write (Delete ''a'')) Done,
      Call (Get ''a'') (Found None)],
     [Call (Write (Set ''a'' ''1'')) Done, Call Flush Done, Call (Get ''z'') (Found None)],
     [Call (Write (Set ''a'' ''1'')) Done, Call Flush Done, Call (Get ''a'') (Found (Some (Set ''a'' ''1'')))]]"

section \<open>src/lib/log/sstable/compact.rs\<close>

definition compact_tests :: "test_step list list" where
  "compact_tests = [
     [Call Compact Done, Check (TableCount 0)],
     [Call (Write (Set ''a'' ''1'')) Done, Call Flush Done, Call (Write (Set ''a'' ''2'')) Done, Call Flush Done,
      Call Compact Done, Call (Get ''a'') (Found (Some (Set ''a'' ''2'')))],
     [Call (Write (Set ''a'' ''1'')) Done, Call Flush Done, Call (Write (Set ''b'' ''2'')) Done, Call Flush Done,
      Call Compact Done, Call (Get ''a'') (Found (Some (Set ''a'' ''1''))), Call (Get ''b'') (Found (Some (Set ''b'' ''2'')))],
     [Call (Write (Set ''a'' ''1'')) Done, Call Flush Done, Call (Write (Set ''b'' ''2'')) Done, Call Flush Done,
      Mark, Call Compact Done, Check OldTablesGone],
     [Call (Write (Set ''a'' ''1'')) Done, Call Flush Done, Call (Write (Set ''b'' ''2'')) Done, Call Flush Done,
      Call (Write (Set ''c'' ''3'')) Done, Call Flush Done, Call Compact Done,
      Call (Get ''a'') (Found (Some (Set ''a'' ''1''))), Call (Get ''b'') (Found (Some (Set ''b'' ''2''))),
      Call (Get ''c'') (Found (Some (Set ''c'' ''3'')))],
     [Call (Write (Set ''a'' ''1'')) Done, Call Flush Done, Call (Write (Set ''a'' ''2'')) Done, Call Flush Done,
      Mark, Call Compact Done, Check FewerTables],
     [Call (Write (Set ''a'' ''1'')) Done, Call Flush Done, Mark, Check (TableCount 1), Call Compact Done,
      Check OldTablesGone, Check (TableCount 1)],
     [Call (Write (Set ''a'' ''1'')) Done, Call (Write (Set ''b'' ''only'')) Done, Call Flush Done,
      Call (Write (Set ''a'' ''2'')) Done, Call (Write (Set ''c'' ''only'')) Done, Call Flush Done,
      Call (Write (Set ''a'' ''3'')) Done, Call Flush Done, Call Compact Done,
      Call (Get ''a'') (Found (Some (Set ''a'' ''3''))), Call (Get ''b'') (Found (Some (Set ''b'' ''only''))),
      Call (Get ''c'') (Found (Some (Set ''c'' ''only'')))],
     [Call (Write (Set ''a'' ''1'')) Done, Call Flush Done, Call (Write (Delete ''a'')) Done, Call Flush Done,
      Call Compact Done, Call (Get ''a'') (Found None)]]"

section \<open>What they come to\<close>

text \<open>The entries the tests write.\<close>

definition test_entries :: "entry set" where
  "test_entries = {Set ''a'' ''1'', Set ''a'' ''2'', Set ''a'' ''3'', Set ''b'' ''2'', Set ''b'' ''only'',
     Set ''c'' ''3'', Set ''c'' ''only'', Delete ''a'', Delete ''missing''}"

lemma newline_ne: "newline \<noteq> []"
  by (simp add: newline_def)

lemma trimmed_replies:
  "str_trim (''a => 1'' @ newline) = ''a => 1''" "str_trim (''a => 2'' @ newline) = ''a => 2''"
  "str_trim (''a not found'' @ newline) = ''a not found''" "str_trim (''a deleted'' @ newline) = ''a deleted''"
  by (simp_all add: str_trim_def newline_def ascii_text)

lemma parse_tests_pass: "list_all parses parse_tests"
  by (simp add: parse_tests_def try_from_def split_whitespace_def ascii_text lowercase_def lower_char_def
      one_key_def Let_def)

lemma store_tests_predicted:
  "list_all (\<lambda>ts. predicted ts fresh_summary) log_tests"
  "list_all (\<lambda>ts. predicted ts fresh_summary) compact_tests"
  "list_all (\<lambda>ts. predicted ts fresh_summary) execute_tests"
  using trimmed_replies newline_ne
  by (simp_all add: log_tests_def compact_tests_def execute_tests_def fresh_summary_def s_flush_def s_compact_def
      s_exec_ok_def s_entries_def)

lemma store_tests_written:
  "list_all (\<lambda>ts. set (concat (map written ts)) \<subseteq> test_entries \<and> length ts \<le> 1000) (execute_tests @ log_tests @ compact_tests)"
  by (simp add: log_tests_def compact_tests_def execute_tests_def test_entries_def)

lemma store_tests_pass:
  assumes "universe X test_entries" and "small X test_entries"
    and "faults w = []" and "wal w = []" and "ssts w = []" and "clock_ok (10 ^ 7) w"
  shows "list_all (passes_fresh X w) (execute_tests @ log_tests @ compact_tests)"
  unfolding list_all_iff
proof
  fix ts assume ts: "ts \<in> set (execute_tests @ log_tests @ compact_tests)"
  then have "predicted ts fresh_summary" using store_tests_predicted by (auto simp: list_all_iff)
  moreover have "set (concat (map written ts)) \<subseteq> test_entries" "length ts \<le> 1000"
    using ts store_tests_written unfolding list_all_iff by blast+
  ultimately show "passes_fresh X w ts"
    using assms by (intro predicted_passes_fresh [where U = test_entries])
qed

end
