(* ===== verification/FileTests.thy ===== *)
theory FileTests
  imports UnitTests
begin

text \<open>
  The unit tests of entries, records and memtables. A temporary file is an empty file with its
  cursor at the start; the WAL of a world stands for it.
\<close>

section \<open>src/lib/log/entry.rs\<close>

definition entry_tests :: "bool list" where
  "entry_tests = [
     entry_key (entry_set ''a'' ''1'') = ''a'',
     entry_key (entry_delete ''a'') = ''a'',
     entry_value (entry_set ''a'' ''1'') = Some ''1'',
     entry_value (entry_delete ''a'') = None]"

section \<open>src/lib/log/header/mod.rs\<close>

definition temp_file :: fh where
  "temp_file = \<lparr>fid = Wal, cur = 0\<rparr>"

text \<open>Write some bytes and a record, go back to the start, and read the record.\<close>

definition reads_back :: "crates \<Rightarrow> world \<Rightarrow> u8 list \<Rightarrow> entry \<Rightarrow> bool" where
  "reads_back X w junk e \<longleftrightarrow> fst (bindS (write_all junk) (\<lambda>_. bindS (header_write X e) (\<lambda>_.
     bindS (seek_start 0) (\<lambda>_. header_read_next X))) (temp_file, w)) = Inr (Some e)"

definition has_one :: "crates \<Rightarrow> bool file_op" where
  "has_one X = bindS (seek_start 0) (\<lambda>_. bindS stream_position (\<lambda>before.
     bindS (header_has_at_least_one X) (\<lambda>found. bindS stream_position (\<lambda>after. ret (found \<and> after = before)))))"

definition damaged :: "crates \<Rightarrow> (u8 list \<Rightarrow> u8 list) \<Rightarrow> err + (corruption_type + (entry \<times> nat))" where
  "damaged X f = map_sum id (\<lambda>bytes. header_deserialize X (f bytes)) (header_serialize X (Set ''a'' ''1''))"

definition garbage :: "u8 list" where
  "garbage = replicate 20 0xFF"

definition header_tests :: "crates \<Rightarrow> world \<Rightarrow> bool list" where
  "header_tests X w = [
     reads_back X w [] (Set ''hello'' ''world''),
     reads_back X w [] (Delete ''mykey''),
     reads_back X w (replicate 5 0xFF) (Set ''key'' ''value''),
     fst (header_read_next X (temp_file, w)) = Inr None,
     fst (bindS (header_write X (Set ''a'' ''1'')) (\<lambda>_. header_read_next X) (temp_file, w)) = Inr None,
     fst (bindS (header_write X (Set ''a'' ''1'')) (\<lambda>_. has_one X) (temp_file, w)) = Inr True,
     fst (header_has_at_least_one X (temp_file, w)) = Inr False,
     header_deserialize X (replicate 5 0) = Inl NotEnoughBytes,
     damaged X (\<lambda>bytes. bytes[0 := 0, 1 := 0]) = Inr (Inl MagicBytesMismatch),
     damaged X (\<lambda>bytes. bytes[2 := 0, 3 := 0, 4 := 0, 5 := 0]) = Inr (Inl ChecksumMismatch),
     header_deserialize X (u16_to_le_bytes MAGIC @ u32_to_le_bytes (crc32 X garbage) @
       u32_to_le_bytes (of_nat (length garbage)) @ garbage) = Inl ParseError]"

section \<open>src/lib/log/memtable.rs\<close>

primrec write_each :: "crates \<Rightarrow> entry list \<Rightarrow> unit file_op" where
  "write_each X [] = ret ()"
| "write_each X (e # es) = bindS (header_write X e) (\<lambda>_. write_each X es)"

definition loaded :: "crates \<Rightarrow> world \<Rightarrow> entry list \<Rightarrow> err + memtable" where
  "loaded X w es = fst (bindS (write_each X es) (\<lambda>_. from_file X) (temp_file, w))"

primrec process_each :: "crates \<Rightarrow> entry list \<Rightarrow> (memtable, unit) sio" where
  "process_each X [] = ret ()"
| "process_each X (e # es) = bindS (process X e) (\<lambda>_. process_each X es)"

definition processed :: "crates \<Rightarrow> world \<Rightarrow> entry list \<Rightarrow> memtable option" where
  "processed X w es = (case loaded X w [] of
       Inl _ \<Rightarrow> None
     | Inr m \<Rightarrow> (case process_each X es m of (Inl _, _) \<Rightarrow> None | (Inr _, n) \<Rightarrow> Some n))"

fun loads :: "err + memtable \<Rightarrow> (memtable \<Rightarrow> bool) \<Rightarrow> bool" where
  "loads (Inr m) p = p m"
| "loads (Inl e) p = False"

fun gives :: "memtable option \<Rightarrow> (memtable \<Rightarrow> bool) \<Rightarrow> bool" where
  "gives (Some m) p = p m"
| "gives None p = False"

text \<open>The tests of \<open>from_file\<close>, and those of the operations.\<close>

definition load_tests :: "crates \<Rightarrow> world \<Rightarrow> bool list" where
  "load_tests X w = (let has = (\<lambda>k m. memtable_contains_key m k) in [
     loads (loaded X w []) is_empty,
     loads (loaded X w [Set ''a'' ''1'']) (\<lambda>m. memtable_len m = 1 \<and> has ''a'' m),
     loads (loaded X w [Set ''a'' ''1'', Delete ''a'']) (\<lambda>m. memtable_len m = 1 \<and> has ''a'' m \<and>
       memtable_get m ''a'' = Some (Delete ''a'')),
     loads (loaded X w [Set ''a'' ''1'', Set ''b'' ''2'', Set ''c'' ''3'']) (\<lambda>m. memtable_len m = 3 \<and>
       has ''a'' m \<and> has ''b'' m \<and> has ''c'' m),
     loads (loaded X w [Delete ''a'']) (\<lambda>m. memtable_len m = 1 \<and> has ''a'' m \<and>
       memtable_get m ''a'' = Some (Delete ''a''))])"

definition process_tests :: "crates \<Rightarrow> world \<Rightarrow> bool list" where
  "process_tests X w = (let has = (\<lambda>k m. memtable_contains_key m k) in [
     gives (processed X w [Set ''a'' ''1'']) (\<lambda>m. 0 < memtable_size m),
     gives (processed X w [Set ''a'' ''1'']) (\<lambda>m. gives (processed X w [Set ''a'' ''1'', Delete ''a''])
       (\<lambda>n. memtable_size n < memtable_size m \<and> 0 < memtable_size n)),
     gives (processed X w [Set ''a'' ''1'']) (\<lambda>m. gives (processed X w [Set ''a'' ''1'', Set ''a'' ''1''])
       (\<lambda>n. memtable_size n = memtable_size m)),
     gives (processed X w [Delete ''a'']) (\<lambda>m. memtable_len m = 1 \<and> 0 < memtable_size m),
     gives (processed X w [Set ''a'' ''1'']) (\<lambda>m. is_empty (memtable_clear m) \<and> memtable_size (memtable_clear m) = 0),
     gives (processed X w [Set ''a'' ''1'']) (\<lambda>m. memtable_get m ''a'' = Some (Set ''a'' ''1'')),
     gives (processed X w []) (\<lambda>m. memtable_get m ''a'' = None),
     gives (processed X w [Set ''a'' ''1'']) (has ''a''),
     gives (processed X w []) (\<lambda>m. \<not> has ''a'' m),
     gives (processed X w [Set ''a'' ''1'', Set ''b'' ''2'']) (\<lambda>m.
       gives (processed X w [Set ''a'' ''1'', Set ''b'' ''2'', Set ''a'' ''1'']) (\<lambda>n. memtable_len n = memtable_len m)),
     gives (processed X w [Set ''c'' ''3'', Set ''b'' ''2'', Set ''a'' ''1'']) (\<lambda>m.
       memtable_values m = [Set ''a'' ''1'', Set ''b'' ''2'', Set ''c'' ''3''])])"

section \<open>What they come to\<close>

lemma entry_tests_pass: "list_all id entry_tests"
  by (simp add: entry_tests_def entry_set_def entry_delete_def)

lemma reads_back_ok:
  assumes "faults w = []" and "wal w = []" and "entry_ok X e" and "0x43 \<notin> set junk" and "length junk < 10"
  shows "reads_back X w junk e"
proof -
  have "scan_windows X 0 (junk @ record_bytes X e @ []) = scan_windows X (0 + length junk) (record_bytes X e @ [])"
    using quiet_no_magic [OF assms(4)] by (intro hdr.scan_quiet) (simp add: quiet_iff)
  then have s: "scan_windows X 0 (junk @ record_bytes X e) = Some (length junk, e, length (record_bytes X e))"
    using hdr.scan_enc [OF assms(3), of "length junk" "[]"] by simp
  have "length (payload X e) < 2 ^ 32" using entry_ok_bounds [OF assms(3)] by simp
  then show ?thesis
    using assms(1,2,3,5) s
    by (simp add: reads_back_def bindS_def calls_ok temp_file_def write_all_ok overwrite_def HEADER_LEN_def)
qed

lemma overwrite_front:
  "2 \<le> length bs \<Longrightarrow> bs[0 := x, 1 := y] = [x, y] @ drop 2 bs"
  by (cases bs; cases "tl bs") auto

lemma overwrite_checksum:
  assumes "length m = 2" and "length c = 4"
  shows "(m @ c @ r)[2 := 0, 3 := 0, 4 := 0, 5 := 0] = m @ [0, 0, 0, 0] @ r"
proof -
  obtain m0 m1 where "m = [m0, m1]" using assms(1) by (auto simp: numeral_2_eq_2 length_Suc_conv)
  moreover obtain c0 c1 c2 c3 where "c = [c0, c1, c2, c3]"
    using assms(2) by (auto simp: numeral_eq_Suc length_Suc_conv)
  ultimately show ?thesis by simp
qed

lemma damaged_ok:
  assumes "entry_ok X (Set ''a'' ''1'')" and "crc32 X (payload X (Set ''a'' ''1'')) \<noteq> 0"
  shows "damaged X (\<lambda>bytes. bytes[0 := 0, 1 := 0]) = Inr (Inl MagicBytesMismatch)"
    and "damaged X (\<lambda>bytes. bytes[2 := 0, 3 := 0, 4 := 0, 5 := 0]) = Inr (Inl ChecksumMismatch)"
proof -
  let ?e = "Set ''a'' ''1''"
  let ?p = "payload X ?e"
  let ?r = "u32_to_le_bytes (of_nat (length ?p)) @ ?p"
  have len: "length ?p < 4294967296" "?p \<noteq> []"
    using assms(1) by (simp_all add: entry_ok_payload(2) entry_ok_bounds)
  have z: "u32_from_le_bytes [0, 0, 0, 0] = 0" "u16_from_le_bytes [0, 0] = 0"
    by (simp_all add: u32_from_le_bytes_def u16_from_le_bytes_def)
  have "drop 2 (record_bytes X ?e) = u32_to_le_bytes (crc32 X ?p) @ ?r"
    by (simp add: record_bytes_def)
  moreover have "2 \<le> length (record_bytes X ?e)" by (simp add: HEADER_LEN_def)
  ultimately have "(record_bytes X ?e)[0 := 0, 1 := 0] = [0, 0] @ u32_to_le_bytes (crc32 X ?p) @ ?r"
    using overwrite_front [of "record_bytes X ?e" 0 0] by simp
  moreover have "header_deserialize X ([0, 0] @ u32_to_le_bytes (crc32 X ?p) @ ?r) = Inl MagicBytesMismatch"
    using len by (simp add: header_deserialize_def HEADER_LEN_def MAGIC_def z split_first_chunk_def)
  ultimately show "damaged X (\<lambda>bytes. bytes[0 := 0, 1 := 0]) = Inr (Inl MagicBytesMismatch)"
    by (simp add: damaged_def header_serialize_ok [OF assms(1)])
  have "(record_bytes X ?e)[2 := 0, 3 := 0, 4 := 0, 5 := 0] = u16_to_le_bytes MAGIC @ [0, 0, 0, 0] @ ?r"
    unfolding record_bytes_def by (rule overwrite_checksum) simp_all
  moreover have "header_deserialize X (u16_to_le_bytes MAGIC @ [0, 0, 0, 0] @ ?r) = Inl ChecksumMismatch"
  proof -
    have "\<not> length (u16_to_le_bytes MAGIC @ [0, 0, 0, 0] @ ?r) \<le> HEADER_LEN" using len by (simp add: HEADER_LEN_def)
    moreover have "split_first_chunk 4 ([0, 0, 0, 0] @ ?r) = Some ([0, 0, 0, 0], ?r)" by (simp add: split_first_chunk_Some)
    moreover have "get_prefix (length ?p) ?p = Some ?p" by (simp add: get_prefix_def)
    ultimately show ?thesis
      using len assms(2) z(1) by (simp add: header_deserialize_def Let_def)
  qed
  ultimately show "damaged X (\<lambda>bytes. bytes[2 := 0, 3 := 0, 4 := 0, 5 := 0]) = Inr (Inl ChecksumMismatch)"
    by (simp add: damaged_def header_serialize_ok [OF assms(1)])
qed

lemma header_tests_pass:
  assumes "faults w = []" and "wal w = []" and "wincode_deserialize X garbage = None"
    and "crc32 X (payload X (Set ''a'' ''1'')) \<noteq> 0"
    and ok: "\<forall>e \<in> {Set ''hello'' ''world'', Delete ''mykey'', Set ''key'' ''value'', Set ''a'' ''1''}. entry_ok X e"
  shows "list_all id (header_tests X w)"
proof -
  let ?e = "Set ''a'' ''1''"
  have e: "entry_ok X ?e" using ok by simp
  have len: "length (payload X ?e) < 4294967296" using e by (simp add: entry_ok_bounds)
  have round: "reads_back X w [] (Set ''hello'' ''world'')" "reads_back X w [] (Delete ''mykey'')"
      "reads_back X w (replicate 5 0xFF) (Set ''key'' ''value'')"
    using ok by (intro reads_back_ok assms(1,2); simp)+
  have none: "fst (header_read_next X (temp_file, w)) = Inr None" "fst (header_has_at_least_one X (temp_file, w)) = Inr False"
    using assms(1,2) by (simp_all add: temp_file_def header_has_at_least_one_def bindS_def calls_ok)
  have s: "scan_windows X 0 (record_bytes X ?e) = Some (0, ?e, length (record_bytes X ?e))"
    using hdr.scan_enc [OF e, of 0 "[]"] by simp
  have one: "fst (bindS (header_write X ?e) (\<lambda>_. header_read_next X) (temp_file, w)) = Inr None"
      "fst (bindS (header_write X ?e) (\<lambda>_. has_one X) (temp_file, w)) = Inr True"
    using assms(1,2) e s len
    by (simp_all add: temp_file_def has_one_def header_has_at_least_one_def bindS_def calls_ok HEADER_LEN_def)
  have short: "header_deserialize X (replicate 5 0) = Inl NotEnoughBytes"
    by (simp add: header_deserialize_def HEADER_LEN_def)
  have parse: "header_deserialize X (u16_to_le_bytes MAGIC @ u32_to_le_bytes (crc32 X garbage) @
       u32_to_le_bytes (of_nat (length garbage)) @ garbage) = Inl ParseError"
  proof -
    have "length garbage = 20" by (simp add: garbage_def)
    moreover from this have "get_prefix 20 garbage = Some garbage" by (simp add: get_prefix_def)
    ultimately show ?thesis using assms(3) by (simp add: header_deserialize_def HEADER_LEN_def)
  qed
  show ?thesis
    using round none one short parse damaged_ok [OF e assms(4)] by (simp add: header_tests_def)
qed

text \<open>The memtables the tests load and fill.\<close>

lemma write_each_ok:
  assumes "faults w = []" and "list_all (entry_ok X) es" and "fid h = Wal"
  shows "\<exists>n. write_each X es (h, w) = (Inr (), (\<lparr>fid = Wal, cur = n\<rparr>, w\<lparr>wal := wal w @ records_bytes X es\<rparr>))
    \<or> es = []"
  using assms
proof (induction es arbitrary: h w)
  case (Cons e es)
  have e: "entry_ok X e" and r: "list_all (entry_ok X) es" using Cons.prems(2) by simp_all
  let ?w = "w\<lparr>wal := wal w @ record_bytes X e\<rparr>"
  let ?h = "h\<lparr>cur := length (wal w) + length (record_bytes X e)\<rparr>"
  have s: "write_each X (e # es) (h, w) = write_each X es (?h, ?w)"
    using Cons.prems e by (simp add: bindS_def calls_ok set_contents.simps)
  show ?case
  proof (cases "es = []")
    case True
    with s Cons.prems(3) show ?thesis by (cases h) (simp add: records_bytes_def)
  next
    case False
    from Cons.IH [of ?w ?h] Cons.prems(1,3) r False show ?thesis
      unfolding s by (simp add: records_bytes_def)
  qed
qed simp

lemma loaded_ok:
  assumes "faults w = []" and "wal w = []" and "list_all (entry_ok X) es" and "length es \<le> 8"
  shows "loaded X w es = Inr (memtable_of X es)"
proof -
  let ?w = "w\<lparr>wal := records_bytes X es\<rparr>"
  have "\<exists>n. write_each X es (temp_file, w) = (Inr (), (\<lparr>fid = Wal, cur = n\<rparr>, ?w))"
  proof (cases es)
    case Nil
    with assms(2) show ?thesis by (cases w) (simp add: temp_file_def records_bytes_def)
  next
    case (Cons e fs)
    with write_each_ok [OF assms(1,3), of temp_file] assms(2) show ?thesis by (simp add: temp_file_def)
  qed
  then obtain n where n: "write_each X es (temp_file, w) = (Inr (), (\<lparr>fid = Wal, cur = n\<rparr>, ?w))" by blast
  have len: "length (records_bytes X es) < 2 ^ 64"
    using length_records_bytes_le [OF assms(3)] assms(4) by simp
  have rd: "read_records X (records_bytes X es) = es"
    using hdr.read_all_append [OF assms(3), of "[]"] by (simp add: records_bytes_def hdr.read_all_None)
  have "esizes X es < 2 ^ 64" using esizes_le [OF assms(3)] assms(4) by simp
  then show ?thesis
    using replay_ok [of ?w "\<lparr>fid = Wal, cur = 0\<rparr>" X memtable_new] n len rd assms(1,3)
    by (auto simp: loaded_def from_file_def bindS_def calls_ok memtable_of_def)
qed

lemma process_each_ok:
  assumes "memtable_wf X m" and "list_all (entry_ok X) es" and "tracked m + esizes X es < 2 ^ 64"
  shows "process_each X es m = (Inr (), fold (inserted X) es m)"
  using assms
proof (induction es arbitrary: m)
  case (Cons e es)
  have e: "entry_ok X e" "tracked m + esize X e < 2 ^ 64" using Cons.prems by simp_all
  have "tracked (inserted X e m) + esizes X es < 2 ^ 64"
    using tracked_inserted [OF Cons.prems(1), of e] Cons.prems(3) by simp
  from Cons.IH [OF inserted_wf [OF Cons.prems(1) e] _ this] process_ok [OF Cons.prems(1) e] Cons.prems(2)
  show ?case by (simp add: bindS_def)
qed simp

lemma processed_ok:
  assumes "faults w = []" and "wal w = []" and "list_all (entry_ok X) es" and "length es \<le> 8"
  shows "processed X w es = Some (memtable_of X es)"
proof -
  have "esizes X es < 2 ^ 64" using esizes_le [OF assms(3)] assms(4) by simp
  then show ?thesis
    using loaded_ok [OF assms(1,2), of X "[]"] process_each_ok [OF memtable_new_wf assms(3)]
    by (simp add: processed_def memtable_of_def)
qed

text \<open>Their entries, and what they count.\<close>

lemma memtable_of_entries: "entries (memtable_of X es) = s_entries es"
  by (simp add: memtable_of_def entries_fold_inserted s_entries_def)

lemma memtable_of_tracked: "tracked (memtable_of X es) = esizes X (btree_values (s_entries es))"
  by (induction es rule: rev_induct)
    (simp_all add: memtable_of_def inserted_def Let_def entries_fold_inserted s_entries_def btree_values_def)

lemma letters: "''a'' < (''b'' :: string)" "''a'' < (''c'' :: string)" "''b'' < (''c'' :: string)"
    "\<not> ''b'' < (''a'' :: string)" "\<not> ''c'' < (''a'' :: string)" "\<not> ''c'' < (''b'' :: string)"
  by (simp_all add: Cons_less_Cons)

lemma memtable_tests_pass:
  assumes "faults w = []" and "wal w = []"
    and "esize X (Delete ''a'') < esize X (Set ''a'' ''1'')"
    and ok: "\<forall>e \<in> {Set ''a'' ''1'', Set ''b'' ''2'', Set ''c'' ''3'', Delete ''a''}. entry_ok X e"
  shows "list_all id (load_tests X w)" and "list_all id (process_tests X w)"
proof -
  have pos: "0 < esize X (Set ''a'' ''1'')" "0 < esize X (Delete ''a'')" using ok by (auto intro: esize_pos)
  note l = loaded_ok [OF assms(1,2)] and p = processed_ok [OF assms(1,2)]
  show "list_all id (load_tests X w)" "list_all id (process_tests X w)"
    using ok pos assms(3)
    by (simp_all add: load_tests_def process_tests_def memtable_contains_key_def l p memtable_of_tracked memtable_get_def memtable_len_def memtable_values_def
        memtable_of_entries is_empty_def s_entries_def btree_get_def btree_values_def letters)
qed

end
