(* ===== verification/FilterTests.thy ===== *)
theory FilterTests
  imports FileTests
begin

text \<open>
  The unit tests of \<open>src/lib/log/memtable.rs\<close> that take the footer of a table apart: they
  write entries to a fresh store, flush it, open the file of its one table and read the filter
  from the end of the file without the reader of the store.
\<close>

section \<open>The tests\<close>

primrec write_logged :: "crates \<Rightarrow> entry list \<Rightarrow> (log \<times> world, unit) sio" where
  "write_logged X [] = ret ()"
| "write_logged X (e # es) = bindS (log_write X e) (\<lambda>_. write_logged X es)"

definition in_first_table :: "crates \<Rightarrow> world \<Rightarrow> entry list \<Rightarrow> 'a file_op \<Rightarrow> err + 'a" where
  "in_first_table X w es f = (case log_new X True w of
       (Inl e, _) \<Rightarrow> Inl e
     | (Inr l, v) \<Rightarrow> (case bindS (write_logged X es) (\<lambda>_. log_flush X) (l, v) of
         (Inl e, _) \<Rightarrow> Inl e
       | (Inr _, (_, u)) \<Rightarrow> (case ssts u of
           [] \<Rightarrow> Inl IoError
         | p # _ \<Rightarrow> fst (bindS (file_open (fst p)) (\<lambda>h. with_local h f) u))))"

definition footer_counts :: "(nat \<times> nat) file_op" where
  "footer_counts =
     bindS (seek_end 4) (\<lambda>_.
     bindS read_to_end (\<lambda>bytes.
     bindS (of_option TryFromIntError (if length bytes = 4 then Some (unat (u32_from_le_bytes bytes)) else None)) (\<lambda>bits.
     let byte_count = div_ceil bits 8 in
     bindS (seek_end (byte_count + 4)) (\<lambda>_. ret (bits, byte_count)))))"

definition footer_filter :: "(nat \<times> u8 list) file_op" where
  "footer_filter =
     bindS footer_counts (\<lambda>(bits, byte_count).
     bindS read_to_end (\<lambda>bytes.
     bindS (seek_start 0) (\<lambda>_. ret (bits, take byte_count bytes))))"

text \<open>The bits of a key; an index beyond the filter, or a filter of no bits, is a panic.\<close>

definition bits_of :: "crates \<Rightarrow> string \<Rightarrow> nat \<times> u8 list \<Rightarrow> bool list option" where
  "bits_of X key f = (let hash1 = xxh3 X (as_bytes key) 0; hash2 = xxh3 X (as_bytes key) 1;
       ps = map (\<lambda>i. unat (hash1 + of_nat i * hash2) mod fst f) [0..<7]
     in if 0 < fst f \<and> list_all (\<lambda>p. p div 8 < length (snd f)) ps
       then Some (map (\<lambda>p. (snd f ! (p div 8)) AND push_bit (p mod 8) 1 \<noteq> 0) ps) else None)"

definition filter_tests :: "crates \<Rightarrow> world \<Rightarrow> bool list" where
  "filter_tests X w = [
     in_first_table X w [Set ''a'' ''1'', Set ''b'' ''2'', Set ''c'' ''3''] footer_counts = Inr (30, 4),
     map_sum id (\<lambda>f. map_option (list_all id) (bits_of X ''a'' f))
       (in_first_table X w [Set ''a'' ''1''] footer_filter) = Inr (Some True),
     map_sum id (\<lambda>f. map_option (list_ex Not) (bits_of X ''z'' f))
       (in_first_table X w [Set ''a'' ''1''] footer_filter) = Inr (Some True)]"

section \<open>They pass\<close>

lemma footer_counts_ok:
  assumes "faults w = []" and "contents w (fid h) = pre @ footer_bytes f" and "bloom_wf f"
  shows "footer_counts (h, w) = (Inr (bit_count f, div_ceil (bit_count f) 8), (h\<lparr>cur := length pre\<rparr>, w))"
proof -
  have n: "bit_count f < 2 ^ 32" and len: "length (inner f) = div_ceil (bit_count f) 8"
    using assms(3) by (simp_all add: bloom_wf_def)
  then have "unat (u32_from_le_bytes (u32_to_le_bytes (of_nat (bit_count f)))) = bit_count f"
    by (simp add: unat_of_nat)
  then show ?thesis
    using assms(1,2) len by (simp add: footer_counts_def bindS_def calls_ok Let_def footer_bytes_def)
qed

lemma footer_filter_ok:
  assumes "faults w = []" and "contents w (fid h) = pre @ footer_bytes f" and "bloom_wf f"
  shows "fst (footer_filter (h, w)) = Inr (bit_count f, inner f)"
proof -
  have len: "length (inner f) = div_ceil (bit_count f) 8" using assms(3) by (simp add: bloom_wf_def)
  show ?thesis
    unfolding footer_filter_def bindS_def footer_counts_ok [OF assms]
    using assms(1,2) len by (simp add: bindS_def calls_ok footer_bytes_def)
qed

text \<open>The bits of a key in a filter that was filled key by key.\<close>

lemma bits_of_ok:
  assumes "0 < bit_count f" and "length (inner f) = div_ceil (bit_count f) 8"
  shows "bits_of X k (bit_count f, inner f) = Some (map (position_set (inner f)) (positions X (as_bytes k) (bit_count f)))"
proof -
  have "p mod bit_count f div 8 < length (inner f)" for p using assms by (simp add: div_ceil_index)
  then show ?thesis
    using assms(1) by (simp add: bits_of_def Let_def positions_pos position_set_def list_all_iff)
qed


text \<open>The file the tests open.\<close>

lemma write_logged_ok:
  assumes "log_inv X U (l, w)" and "set es \<subseteq> U" and "length (wal_entries X w) + length es \<le> MAX_WAL_ENTRIES"
  shows "\<exists>l' w'. write_logged X es (l, w) = (Inr (), (l', w')) \<and> log_inv X U (l', w') \<and>
    wal_entries X w' = wal_entries X w @ es \<and> ssts w' = ssts w \<and> flush_count l' = flush_count l \<and>
    clock_ok n w' = clock_ok n w"
  using assms
proof (induction es arbitrary: l w)
  case (Cons e es)
  have e: "e \<in> U" "length (wal_entries X w) < MAX_WAL_ENTRIES" using Cons.prems(2,3) by simp_all
  have d: "disk_ok X U w" using Cons.prems(1) by (simp add: log_inv_def)
  from log_write_ok [OF Cons.prems(1) e] obtain h where
    h: "log_write X e (l, w) = (Inr (), (l\<lparr>wal_file := h, log_memtable := inserted X e (log_memtable l)\<rparr>, appended X e w))"
      "log_inv X U (l\<lparr>wal_file := h, log_memtable := inserted X e (log_memtable l)\<rparr>, appended X e w)" by blast
  have "wal_entries X (appended X e w) = wal_entries X w @ [e]" using wal_entries_append [OF d e(1)] .
  moreover have "ssts (appended X e w) = ssts w" by (simp add: appended_def)
  ultimately show ?case using Cons.IH [OF h(2)] Cons.prems(2,3) h(1) by (simp add: bindS_def)
qed simp

lemma first_table:
  assumes "universe X U" and "set es \<subseteq> U" and "es \<noteq> []" and "length es \<le> 8"
    and "faults w = []" and "wal w = []" and "ssts w = []" and "clock_ok 1 w"
  obtains n u where "\<And>f. in_first_table X w es f = fst (f (\<lparr>fid = Sst n, cur = 0\<rparr>, u))"
    and "contents u (Sst n) = table_image X (memtable_values (memtable_of X es))" and "faults u = []"
    and "table_ok X (memtable_values (memtable_of X es))"
proof -
  have we: "wal_entries X w = []" using assms(6) by (rule wal_entries_empty)
  have d: "disk_ok X U w" using assms(1,6,7) by (rule fresh_disk_ok)
  have "w\<lparr>wal := []\<rparr> = w" using assms(6) by (cases w) simp
  with log_new_truncate [of X U w] d assms(5,7) obtain l where
    l: "log_new X True w = (Inr l, w)" "log_inv X U (l, w)" "flush_count l = 0" by auto
  have "length (wal_entries X w) + length es \<le> MAX_WAL_ENTRIES" using assms(4) we by (simp add: MAX_WAL_ENTRIES_def)
  from write_logged_ok [OF l(2) assms(2) this, of 1] obtain l1 w1 where
    w1: "write_logged X es (l, w) = (Inr (), (l1, w1))" "log_inv X U (l1, w1)" "wal_entries X w1 = es"
      "ssts w1 = []" "flush_count l1 = 0" "clock_ok 1 w1"
    using we l(3) assms(7,8) by auto
  let ?m = "memtable_of X es"
  have m: "log_memtable l1 = ?m" using w1(2,3) by (simp add: log_inv_def memtable_of_def)
  have due: "\<not> compaction_due l1"
    using w1(5) by (simp add: compaction_due_def saturating_add_def COMPACT_EVERY_N_FLUSHES_def)
  have "clock_ok (flush_cost X (l1, w1) + 0) w1"
    using due clock_ok_mono [OF w1(6)] by (simp add: flush_cost_def Let_def table_cost_def)
  from log_flush_ok [OF w1(2) this] obtain l2 u where
    u: "log_flush X (l1, w1) = (Inr (), (l2, u))" "log_inv X U (l2, u)" "flushed_tables X l1 w1 (tables_of X u)"
    by blast
  have "memtable_values ?m \<noteq> []"
  proof -
    obtain e where e: "e \<in> set es" using assms(3) by (cases es) auto
    then have "lookup_entry (rev es) (entry_key e) \<noteq> None" by (auto simp: lookup_entry_def find_None_iff)
    moreover have "list_all (entry_ok X) es" using universeD(2) [OF assms(1,2)] .
    ultimately show ?thesis
      using memtable_of_facts(5) [of X es "entry_key e"] assms(4)
      by (auto simp: memtable_get_def memtable_values_def btree_values_def btree_get_def)
  qed
  then have t: "tables_of X u = [(next_name w1, memtable_values ?m)]"
    using u(3) due m w1(4) by (simp add: flushed_tables_def with_memtable_def tables_of_def)
  have h: "holds X u (tables_of X u)" "faults u = []" using u(2) by (simp_all add: log_inv_def disk_ok_def)
  then have s: "ssts u = [(next_name w1, table_image X (memtable_values ?m))]" "table_ok X (memtable_values ?m)"
    by (simp_all add: holds_def t)
  show thesis
    by (rule that [of "next_name w1" u])
      (use l(1) w1(1) u(1) s h(2) in \<open>simp_all add: in_first_table_def bindS_def file_open_def os_call_def pop_fault_def with_local_def contents.simps split: prod.split\<close>)
qed

lemma table_filter:
  assumes "faults w = []" and "contents w (fid h) = table_image X es" and "table_ok X es"
  defines "f \<equiv> bloom_of X (length es * 10) (map entry_key es)"
  shows "footer_counts (h, w) = (Inr (length es * 10, div_ceil (length es * 10) 8), (h\<lparr>cur := length (records_bytes X es)\<rparr>, w))"
    and "fst (footer_filter (h, w)) = Inr (length es * 10, inner f)"
proof -
  have n: "length es * 10 < 2 ^ 32" using assms(3) by (rule table_okD(4))
  then have wf: "bloom_wf f" by (simp add: f_def bloom_wf_def bloom_of_def bloom_new_def)
  have c: "contents w (fid h) = records_bytes X es @ footer_bytes f" using assms(2) by (simp add: table_image_def f_def)
  show "footer_counts (h, w) = (Inr (length es * 10, div_ceil (length es * 10) 8), (h\<lparr>cur := length (records_bytes X es)\<rparr>, w))"
    using footer_counts_ok [OF assms(1) c wf] by (simp add: f_def)
  show "fst (footer_filter (h, w)) = Inr (length es * 10, inner f)"
    using footer_filter_ok [OF assms(1) c wf] by (simp add: f_def)
qed

lemma filter_tests_pass:
  assumes "universe X U" and "{Set ''a'' ''1'', Set ''b'' ''2'', Set ''c'' ''3''} \<subseteq> U"
    and w: "faults w = []" "wal w = []" "ssts w = []" "clock_ok 1 w"
    and "\<not> set (positions X (as_bytes ''z'') 10) \<subseteq> set (positions X (as_bytes ''a'') 10)"
  shows "list_all id (filter_tests X w)"
proof -
  let ?three = "[Set ''a'' ''1'', Set ''b'' ''2'', Set ''c'' ''3'']" and ?one = "[Set ''a'' ''1'']"
  let ?f = "bloom_of X 10 [''a'']"
  have v: "memtable_values (memtable_of X ?three) = ?three" "memtable_values (memtable_of X ?one) = ?one"
    by (simp_all add: memtable_values_def memtable_of_entries s_entries_def btree_values_def letters)
  obtain n u where three: "\<And>f :: (nat \<times> nat) file_op. in_first_table X w ?three f = fst (f (\<lparr>fid = Sst n, cur = 0\<rparr>, u))"
    and c3: "contents u (Sst n) = table_image X ?three" "faults u = []" "table_ok X ?three"
    using first_table [OF assms(1) _ _ _ w, of ?three] assms(2) v(1) by auto
  have t3: "in_first_table X w ?three footer_counts = Inr (30, 4)"
    using table_filter(1) [of u "\<lparr>fid = Sst n, cur = 0\<rparr>" X ?three] c3 by (simp add: three div_ceil_def)
  obtain n u where one: "\<And>f :: (nat \<times> u8 list) file_op. in_first_table X w ?one f = fst (f (\<lparr>fid = Sst n, cur = 0\<rparr>, u))"
    and c1: "contents u (Sst n) = table_image X ?one" "faults u = []" "table_ok X ?one"
    using first_table [OF assms(1) _ _ _ w, of ?one] assms(2) v(2) by auto
  have t1: "in_first_table X w ?one footer_filter = Inr (10, inner ?f)"
    using table_filter(2) [of u "\<lparr>fid = Sst n, cur = 0\<rparr>" X ?one] c1 by (simp add: one)
  have b: "bits_of X k (10, inner ?f) = Some (map (position_set (inner ?f)) (positions X (as_bytes k) 10))" for k
    using bits_of_ok [of ?f X k] by (simp add: bloom_of_def bloom_new_def)
  have "may_contain X ?f (as_bytes k) \<longleftrightarrow> set (positions X (as_bytes k) 10) \<subseteq> set (positions X (as_bytes ''a'') 10)" for k
    using may_contain_iff [of X "[as_bytes ''a'']" 10 "as_bytes k"] by (simp add: bloom_of_def)
  then have "may_contain X ?f (as_bytes ''a'')" "\<not> may_contain X ?f (as_bytes ''z'')" using assms(7) by simp_all
  then show ?thesis
    using t3 t1 by (simp add: filter_tests_def b may_contain_def list_all_iff list_ex_iff comp_def)
qed

end
