(* ===== verification/ServerTests.thy ===== *)
theory ServerTests
  imports FilterTests
begin

text \<open>
  The tests of \<open>tests/server.rs\<close>: a client that sends lines to a fresh store, one after the
  reply to the other, and compares the last reply.
\<close>

section \<open>The tests\<close>

definition server_tests :: "(string list \<times> string) list" where
  "server_tests = [
     ([''set a 1''], ''a => 1''),
     ([''set a 1'', ''get a''], ''a => 1''),
     ([''get missing''], ''missing not found''),
     ([''set a 1'', ''del a''], ''a deleted''),
     ([''del missing''], ''missing not found''),
     ([''invalid''], ''Error: unrecognized command''),
     ([''set a 1'', ''del a'', ''get a''], ''a not found'')]"

definition served :: "crates \<Rightarrow> world \<Rightarrow> string list \<times> string \<Rightarrow> bool" where
  "served X w t = (case log_new X True w of
       (Inl _, _) \<Rightarrow> False
     | (Inr l, v) \<Rightarrow> (case run X (\<lparr>pending = concat (map (\<lambda>l. l @ newline) (fst t)), broken = False\<rparr>,
           \<lparr>store = (l, v), poisoned = False\<rparr>, \<lparr>out = [], out_faults = []\<rparr>) of
         (Inl _, _) \<Rightarrow> False
       | (Inr _, (_, (_, wr))) \<Rightarrow> length (lines_of (out wr)) = length (fst t) \<and>
           str_trim (last (lines_of (out wr))) = snd t))"

section \<open>They pass\<close>

text \<open>The replies, line by line.\<close>

fun spec_replies :: "string list \<Rightarrow> kv_map \<Rightarrow> string list" where
  "spec_replies [] m = []"
| "spec_replies (l # ls) m = (case try_from (str_trim (l @ newline)) of
       Inr c \<Rightarrow> reply_line c m # spec_replies ls (spec_map c m)
     | Inl e \<Rightarrow> (''Error: '' @ error_text e) # spec_replies ls m)"

definition plain_line :: "entry set \<Rightarrow> string \<Rightarrow> bool" where
  "plain_line U l \<longleftrightarrow> utf8_valid (l @ newline) \<and> CHR 0x0A \<notin> set l \<and>
     (case try_from (str_trim (l @ newline)) of Inr c \<Rightarrow> c \<noteq> CQuit \<and> good_command U c | Inl e \<Rightarrow> True)"

lemma spec_session_replies:
  "\<forall>l \<in> set ls. plain_line U l \<Longrightarrow> \<exists>m'. spec_session False (map (\<lambda>l. l @ newline) ls) m =
    (Inr (), m', concat (map (\<lambda>l. l @ newline) (spec_replies ls m)))"
proof (induction ls arbitrary: m)
  case (Cons l ls)
  then have l: "plain_line U l" by simp
  show ?case
  proof (cases "try_from (str_trim (l @ newline))")
    case (Inl e)
    with Cons.IH [of m] Cons.prems l show ?thesis by (auto simp: plain_line_def)
  next
    case (Inr c)
    with l have "c \<noteq> CQuit" by (simp add: plain_line_def)
    moreover from Cons.IH Cons.prems obtain m' where
      "spec_session False (map (\<lambda>l. l @ newline) ls) (spec_map c m) =
        (Inr (), m', concat (map (\<lambda>l. l @ newline) (spec_replies ls (spec_map c m))))" by fastforce
    ultimately show ?thesis
      using l Inr by (cases c) (simp_all add: plain_line_def del: spec_map.simps reply_line.simps)
  qed
qed simp

lemma served_ok:
  assumes "universe X U" and "faults w = []" and "wal w = []" and "ssts w = []" and "clock_ok (10 ^ 7) w"
    and "\<forall>l \<in> set ls. plain_line U l" and "ls \<noteq> []" and "length ls \<le> 1000"
    and "\<forall>l \<in> set (spec_replies ls Map.empty). CHR 0x0A \<notin> set l"
    and "str_trim (last (spec_replies ls Map.empty) @ newline) = reply"
  shows "served X w (ls, reply)"
proof -
  have "w\<lparr>wal := []\<rparr> = w" using assms(3) by (cases w) simp
  with log_new_truncate [of X U w] fresh_disk_ok [OF assms(1,3,4)] assms(2,4) obtain l where
    l: "log_new X True w = (Inr l, w)" "log_inv X U (l, w)" by auto
  let ?r = "\<lparr>pending = concat (map (\<lambda>l. l @ newline) ls), broken = False\<rparr>"
  have lines: "lines_of (pending ?r) = map (\<lambda>l. l @ newline) ls"
    using lines_of_lines [of ls] assms(6) by (simp add: plain_line_def)
  have m: "disk_map X w = Map.empty" using assms(3,4) by (rule fresh_disk_map)
  obtain m' where sp: "spec_session False (map (\<lambda>l. l @ newline) ls) (disk_map X w) =
      (Inr (), m', concat (map (\<lambda>l. l @ newline) (spec_replies ls Map.empty)))"
    using spec_session_replies [OF assms(6)] m by metis
  have e: "entries_in U (lines_of (pending ?r))"
    unfolding lines using assms(6) by (auto simp: entries_in_def plain_line_def)
  have room: "log_room X (length (lines_of (pending ?r)) + 0) (l, w)"
    unfolding lines using fresh_log_room [OF assms(3-5,8), of X l] by simp
  have sp2: "spec_session (broken ?r) (lines_of (pending ?r)) (disk_map X (snd (l, w))) =
      (Inr (), m', concat (map (\<lambda>l. l @ newline) (spec_replies ls Map.empty)))"
    unfolding lines using sp by simp
  have nf: "out_faults \<lparr>out = [], out_faults = []\<rparr> = []" by simp
  obtain r' t where "run X (?r, \<lparr>store = (l, w), poisoned = False\<rparr>, \<lparr>out = [], out_faults = []\<rparr>) =
      (Inr (), (r', \<lparr>store = t, poisoned = False\<rparr>, \<lparr>out = [], out_faults = []\<rparr>\<lparr>out :=
        out \<lparr>out = [], out_faults = []\<rparr> @ concat (map (\<lambda>l. l @ newline) (spec_replies ls Map.empty))\<rparr>))"
    by (rule run_result [OF l(2) room nf e sp2])
  then have run: "run X (?r, \<lparr>store = (l, w), poisoned = False\<rparr>, \<lparr>out = [], out_faults = []\<rparr>) =
      (Inr (), (r', \<lparr>store = t, poisoned = False\<rparr>,
        \<lparr>out = concat (map (\<lambda>l. l @ newline) (spec_replies ls Map.empty)), out_faults = []\<rparr>))" by simp
  have len: "length (spec_replies ls m) = length ls" for m
    by (induction ls arbitrary: m) (auto split: sum.split)
  then have "spec_replies ls Map.empty \<noteq> []" using assms(7) by (metis length_0_conv)
  then show ?thesis
    using l(1) run lines_of_lines [OF assms(9)] assms(10) len by (simp add: served_def last_map)
qed

lemma server_tests_pass:
  assumes "universe X U" and "{Set ''a'' ''1'', Delete ''a'', Delete ''missing''} \<subseteq> U"
    and "faults w = []" and "wal w = []" and "ssts w = []" and "clock_ok (10 ^ 7) w"
  shows "list_all (served X w) server_tests"
proof -
  note words = ascii_text utf8_valid_ascii newline_def plain_line_def try_from_def split_whitespace_def lowercase_def lower_char_def
    one_key_def Let_def str_trim_def
  show ?thesis
    unfolding server_tests_def list.pred_inject(2)
    by (intro conjI TrueI served_ok [OF assms(1,3-6)])
      (use assms(2) in \<open>simp_all add: words good_command_def\<close>)
qed

end
