(* ===== verification/SampleRuns.thy ===== *)
theory SampleRuns
  imports Sample Process Cli ServerTests
begin

text \<open>Concrete clients and states on the sample store, for the theorems to be applied to.\<close>

definition toy_commands :: "command list" where
  "toy_commands = [CSet ''a'' ''1'', CGet ''a'', CDelete ''a'', CGet ''a'']"

definition toy_reader :: reader where
  "toy_reader = \<lparr>pending = concat (map command_line toy_commands), broken = False\<rparr>"

definition toy_writer :: writer where
  "toy_writer = \<lparr>out = [], out_faults = []\<rparr>"

lemma toy_words: "word_ok ''a''" "word_ok ''1''"
  by (rule ascii_word; simp add: byte_def)+

lemma toy_commands_ok:
  "\<forall>c \<in> set toy_commands. command_ok c \<and> good_command toy_entries c"
  "\<forall>c \<in> set toy_commands. command_ok c \<and> c \<noteq> CQuit"
  by (simp_all add: toy_commands_def command_ok_def toy_words good_command_def toy_entries_def)

lemma toy_lines: "lines_of (pending toy_reader) = map command_line toy_commands"
  using toy_commands_ok(1) by (simp add: toy_reader_def lines_of_commands)

lemma toy_input_ok: "input_ok toy_entries toy_reader"
  using entries_in_commands [OF toy_commands_ok(1)] by (simp add: input_ok_def toy_lines)

lemma empty_log_new: "log_new X False empty_world = (Inr empty_log, empty_world)"
proof -
  have "scan_windows X 0 [] = None" by simp
  then have "replay X memtable_new (\<lparr>fid = Wal, cur = 0\<rparr>, empty_world) =
      (Inr memtable_new, (\<lparr>fid = Wal, cur = 0\<rparr>, empty_world))"
    by (simp add: replay.simps header_read_next_ok)
  then show ?thesis
    by (simp add: log_new_def bindS_def with_local_def on_snd_def calls_ok from_file_def
        u64_try_from_def empty_log_def)
qed

text \<open>The store after one write: its WAL has one record.\<close>

definition one_log :: log where
  "one_log = \<lparr>wal_file = \<lparr>fid = Wal, cur = length (record_bytes toy (Set ''a'' ''1''))\<rparr>,
     log_memtable = inserted toy (Set ''a'' ''1'') memtable_new, flush_count = 0\<rparr>"

definition one_world :: world where
  "one_world = appended toy (Set ''a'' ''1'') empty_world"

lemma one_inv: "log_inv toy toy_entries (one_log, one_world)"
proof -
  have "Set ''a'' ''1'' \<in> toy_entries" by (simp add: toy_entries_def)
  moreover have "length (wal_entries toy empty_world) < MAX_WAL_ENTRIES" by (simp add: MAX_WAL_ENTRIES_def)
  ultimately show ?thesis
    using disk_ok_append [OF empty_disk_ok [OF toy_universe]]
      wal_entries_append [OF empty_disk_ok [OF toy_universe]]
    by (simp add: log_inv_def one_log_def one_world_def)
qed

lemma one_simps [simp]:
  "faults one_world = []" "ssts one_world = []" "ticks one_world = 0"
  "clock one_world i = 1700000000000000 + int i"
  "tables_of toy one_world = []" "wal_entries toy one_world = [Set ''a'' ''1'']"
  "wal one_world = records_bytes toy [Set ''a'' ''1'']" "stored toy one_world = 1"
  "flush_count one_log = 0" "memtable_values (log_memtable one_log) = [Set ''a'' ''1'']"
  "fid (wal_file one_log) = Wal"
proof -
  have a: "Set ''a'' ''1'' \<in> toy_entries" by (simp add: toy_entries_def)
  show w: "wal_entries toy one_world = [Set ''a'' ''1'']"
    using wal_entries_append [OF empty_disk_ok [OF toy_universe] a] by (simp add: one_world_def)
  show t: "tables_of toy one_world = []" by (simp add: one_world_def)
  show "stored toy one_world = 1" by (simp add: stored_def w t)
  show "memtable_values (log_memtable one_log) = [Set ''a'' ''1'']"
    by (simp add: one_log_def inserted_def memtable_values_def btree_values_def Let_def)
qed (simp_all add: one_world_def one_log_def)

lemma one_clock_ok: "n \<le> 10 ^ 15 \<Longrightarrow> clock_ok n one_world"
  by (simp add: clock_ok_def)

lemma one_room: "n \<le> 1000 \<Longrightarrow> log_room toy n (one_log, one_world)"
proof -
  assume n: "n \<le> 1000"
  then have "n * (1 + n + 2) \<le> 1000 * 1003" by (intro mult_mono) simp_all
  also have "\<dots> \<le> (10 ^ 15 :: nat)" by simp
  finally have "clock_ok (n * (1 + n + 2)) one_world" by (rule one_clock_ok)
  with n show ?thesis by (simp add: log_room_def disk_room_def MAX_WAL_ENTRIES_def)
qed

text \<open>A line that does not parse.\<close>

definition toy_bad_line :: string where
  "toy_bad_line = ''what?'' @ newline"

lemma toy_bad_line_facts:
  "lines_of toy_bad_line = [toy_bad_line]" "utf8_valid toy_bad_line" "last toy_bad_line = CHR 0x0A"
  "try_from (str_trim toy_bad_line) = Inl UnrecognizedCommand"
proof -
  have w: "word_ok ''what?''" by (rule ascii_word; simp add: byte_def)
  show "lines_of toy_bad_line = [toy_bad_line]"
    using line_end_line [of "''what?''" "[]"] by (simp add: lines_of.simps newline_def toy_bad_line_def)
  show v: "utf8_valid toy_bad_line"
    unfolding newline_def toy_bad_line_def by (intro utf8_valid_append word_valid w newline_valid)
  show "last toy_bad_line = CHR 0x0A" by (simp add: toy_bad_line_def newline_def)
  have "split_whitespace toy_bad_line = [''what?'']"
    unfolding newline_def toy_bad_line_def split_whitespace_line [OF word_valid [OF w]] split_whitespace_word [OF w] ..
  then show "try_from (str_trim toy_bad_line) = Inl UnrecognizedCommand"
    unfolding try_from_trim [OF v] by (simp add: try_from_def Let_def lowercase_def lower_char_def byte_def)
qed

text \<open>A server run: one client connects, and its thread runs to its end.\<close>

definition toy_machine :: machine where
  "toy_machine = \<lparr>mutex = \<lparr>store = (empty_log, empty_world), poisoned = False\<rparr>, holder = None, threads = []\<rparr>"

lemma toy_start: "server_start X empty_world = (Inr toy_machine, empty_world)"
  by (simp add: server_start_def bindS_def empty_log_new toy_machine_def)

definition toy_connected :: machine where
  "toy_connected = toy_machine\<lparr>threads := [new_thread toy_reader toy_writer]\<rparr>"

lemma toy_connect: "machine_run X toy_machine [Accept toy_reader toy_writer] toy_connected"
proof -
  have "machine_step X toy_machine (Accept toy_reader toy_writer) toy_connected"
    using machine_step.connect [of X toy_machine toy_reader toy_writer]
    by (simp add: toy_machine_def toy_connected_def)
  from machine_run.machine_more [OF machine_run.machine_start this] show ?thesis by simp
qed

lemma toy_connected_facts:
  "lock_ok toy_connected" "work toy_connected = 175" "threads toy_connected = [new_thread toy_reader toy_writer]"
  by (simp_all add: lock_ok_def toy_connected_def toy_machine_def new_thread_def work_def thread_work_def
      toy_reader_def toy_commands_def command_line_def newline_def)

lemma toy_machine_run:
  obtains es n where "machine_run X toy_machine (Accept toy_reader toy_writer # es) n"
    and "list_all stopped (threads n)" and "list_all is_serve es" and "length es \<le> 175"
proof -
  obtain es n where r: "list_all is_serve es" "machine_run X toy_connected es n" "list_all stopped (threads n)"
    using runs_to_end [OF toy_connected_facts(1), of X] by blast
  have "machine_step X toy_machine (Accept toy_reader toy_writer) toy_connected"
    using machine_step.connect [of X toy_machine toy_reader toy_writer]
    by (simp add: toy_machine_def toy_connected_def)
  from machine_run_Cons [OF this r(2)] run_work [OF r(2,1)] r(1,3) show thesis
    by (intro that [of es n]) (simp_all add: toy_connected_facts)
qed

text \<open>The same run as a run of the process, on a host that lets it listen.\<close>

definition toy_host :: host where
  "toy_host = \<lparr>env = [''ADDRESS'' \<mapsto> ''::1'', ''PORT'' \<mapsto> ''7''], bind_to = (\<lambda>_. Some 0),
     local_addr = (\<lambda>_. Some ''::1:7''), err_text = (\<lambda>_. ''error'')\<rparr>"

lemma toy_can_listen: "can_listen toy_host"
  by (simp add: can_listen_def toy_host_def)

lemma toy_process_run:
  obtains p es q where "server_main toy toy_host toy_writer toy_writer empty_world = (Inr p, empty_world)"
    and "ended p = None" and "process_run toy toy_host p es q" and "list_all stopped (threads (running q))"
    and "\<forall>a \<in> set es. arrival_ok toy_entries a" and "disk_room toy (length es) empty_world"
proof -
  obtain es n where n: "machine_run toy toy_machine (Accept toy_reader toy_writer # es) n"
      "list_all stopped (threads n)" "list_all is_serve es" "length es \<le> 175"
    by (rule toy_machine_run)
  let ?es = "Accept toy_reader toy_writer # es"
  have "out_faults toy_writer = []" by (simp add: toy_writer_def)
  from server_main_running [OF toy_can_listen this toy_start] obtain p where
    p: "server_main toy toy_host toy_writer toy_writer empty_world = (Inr p, empty_world)" "running p = toy_machine" "ended p = None"
    by blast
  from machine_run_process [OF n(1) p(2,3)] obtain q where
    q: "process_run toy toy_host p (map arrival_of ?es) q" "running q = n" by blast
  have "machine_events (arrival_of e) = [e]" for e by (cases e) simp_all
  then have "\<forall>a \<in> set (map arrival_of ?es). arrival_ok toy_entries a"
    using n(3) toy_input_ok by (auto simp: arrival_ok_def event_ok_def is_serve_def list_all_iff split: event.splits)
  moreover have "disk_room toy (length (map arrival_of ?es)) empty_world"
    using empty_log_room [of "length ?es"] n(4) by (simp add: log_room_def)
  ultimately show thesis using that [OF p(1,3) q(1)] q(2) n(2) by simp
qed

text \<open>The client's thread reads its first line and takes the lock.\<close>

lemma toy_first_line:
  obtains r where "read_line toy_reader = (Inr (command_line (CSet ''a'' ''1'')), r)"
proof -
  let ?l = "command_line (CSet ''a'' ''1'')"
  have ok: "command_ok (CSet ''a'' ''1'')" using toy_commands_ok(1) by (simp add: toy_commands_def)
  have p: "pending toy_reader = command_text (CSet ''a'' ''1'') @ CHR 0x0A #
      concat (map command_line (tl toy_commands))"
    by (simp add: toy_reader_def toy_commands_def command_line_def newline_def)
  show thesis
    using that line_end_line [OF command_text_no_newline [OF ok]] command_line_valid [OF ok]
    by (simp add: read_line_def p Let_def command_line_def newline_def)
qed

lemma toy_holder:
  obtains n where "machine_run X toy_machine [Accept toy_reader toy_writer, Serve 0, Serve 0] n"
    and "length (threads n) = 1" and "thread_pc (threads n ! 0) = Executing (CSet ''a'' ''1'') (command_line (CSet ''a'' ''1''))"
    and "store (mutex n) = (empty_log, empty_world)" and "thread_writer (threads n ! 0) = toy_writer"
proof -
  let ?c = "CSet ''a'' ''1''"
  have ok: "command_ok ?c" using toy_commands_ok(1) by (simp add: toy_commands_def)
  obtain r where r: "read_line toy_reader = (Inr (command_line ?c), r)" by (rule toy_first_line)
  have "command_line ?c \<noteq> []" by (simp add: command_line_def newline_def)
  then have "after_line (command_line ?c) = Locking ?c (command_line ?c)"
    using try_from_command_line [OF ok] by (simp add: after_line_def)
  with r have l: "loop_step (threads toy_connected ! 0) =
      Some \<lparr>thread_reader = r, thread_writer = toy_writer, thread_pc = Locking ?c (command_line ?c)\<rparr>"
    by (simp add: toy_connected_facts new_thread_def loop_step_def)
  let ?m = "toy_connected\<lparr>threads := [\<lparr>thread_reader = r, thread_writer = toy_writer,
      thread_pc = Locking ?c (command_line ?c)\<rparr>]\<rparr>"
  have s1: "machine_step X toy_connected (Serve 0) ?m"
    using machine_step.local [OF _ l] by (simp add: toy_connected_facts)
  let ?n = "?m\<lparr>holder := Some 0,
      threads := (threads ?m)[0 := (threads ?m ! 0)\<lparr>thread_pc := Executing ?c (command_line ?c)\<rparr>]\<rparr>"
  have s2: "machine_step X ?m (Serve 0) ?n"
    by (rule machine_step.lock) (simp_all add: toy_connected_def toy_machine_def)
  have "machine_run X toy_machine [Accept toy_reader toy_writer, Serve 0, Serve 0] ?n"
    using machine_run.machine_more [OF machine_run.machine_more [OF toy_connect s1] s2] by simp
  moreover have "length (threads ?n) = 1" "thread_pc (threads ?n ! 0) = Executing ?c (command_line ?c)"
      "store (mutex ?n) = (empty_log, empty_world)" "thread_writer (threads ?n ! 0) = toy_writer"
    by (simp_all add: toy_connected_def toy_machine_def)
  ultimately show thesis by (rule that)
qed

section \<open>Broken records\<close>

text \<open>
  With wincode's layout no record begins inside the record of a short entry without the byte
  \<open>0x43\<close>, whatever the checksum: a second start of a record can only be in the four bytes of the
  checksum, and the length it has there is less than that of any payload.
\<close>

lemma short_unnested:
  assumes "record_bytes X e = [0x43, 0x44, c0, c1, c2, c3, n, 0, 0, 0, t, 0] @ p" and "0x43 \<notin> set (n # t # p)"
    and "t < 12" and "length p < 200" and "\<And>q d. wincode_deserialize X q = Some d \<Longrightarrow> 12 \<le> length q"
  shows "unnested X e"
  unfolding unnested_def quiet_iff
proof (intro allI impI)
  let ?r = "[0x44, c0, c1, c2, c3, n, 0, 0, 0, t, 0] @ p"
  have tl: "tl (record_bytes X e) = ?r" using assms(1) by simp
  fix i assume i: "i < length (tl (record_bytes X e))"
  show "\<exists>c. header_deserialize X (drop i (tl (record_bytes X e) @ [])) = Inl c"
  proof (cases "header_deserialize X (drop i (tl (record_bytes X e) @ []))")
    case (Inr x)
    obtain d k where "header_deserialize X (drop i ?r) = Inr (d, k)" using Inr tl by (cases x) simp
    then obtain q rest where q: "drop i ?r = u16_to_le_bytes MAGIC @ u32_to_le_bytes (crc32 X q) @
        u32_to_le_bytes (of_nat (length q)) @ q @ rest" "wincode_deserialize X q = Some d"
      unfolding header_deserialize_Inr_iff by blast
    have twelve: "12 \<le> length q" by (rule assms(5) [OF q(2)])
    have "length q \<le> length (drop i ?r)" unfolding q(1) by simp
    then have q256: "length q < 256" using assms(4) by simp
    have at: "?r ! (i + j) = drop i ?r ! j" for j using i tl by (intro nth_drop [symmetric]) simp
    have "drop i ?r ! 0 = 0x43" unfolding q(1) by (simp add: u16_to_le_bytes_def MAGIC_def le_bytes_numeral)
    then have first: "?r ! i = 0x43" using at [of 0] by simp
    have "drop i ?r ! 6 = of_nat (length q)"
      unfolding q(1) using q256
      by (simp add: u16_to_le_bytes_def u32_to_le_bytes_def MAGIC_def le_bytes_numeral nth_append unat_of_nat)
    then have len: "?r ! (i + 6) = of_nat (length q)" using at [of 6] by simp
    have "i < 5"
    proof (rule ccontr)
      assume "\<not> i < 5"
      then obtain j where j: "i = j + 5" by (metis add.commute le_Suc_ex not_less)
      have "(n # 0 # 0 # 0 # t # 0 # p) ! j = 0x43" using first by (simp add: j numeral_eq_Suc)
      moreover have "j < length (n # 0 # 0 # 0 # t # 0 # p)" using i tl by (simp add: j)
      ultimately have "0x43 \<in> set (n # 0 # 0 # 0 # t # 0 # p)" by (metis nth_mem)
      then show False using assms(2) by simp
    qed
    moreover have "i \<noteq> 0" using first by (cases i) simp_all
    ultimately have "i \<in> {1, 2, 3, 4}" by auto
    then have "?r ! (i + 6) < 12" using assms(3) by auto
    then have "(of_nat (length q) :: u8) < 12" using len by simp
    then have "length q < 12" using q256 by (simp add: word_less_nat_alt unat_of_nat)
    with twelve show ?thesis by simp
  qed blast
qed

lemma toy_payload_length: "wincode_deserialize toy q = Some d \<Longrightarrow> 12 \<le> length q"
  by (auto simp: toy_def toy_deserialize_def get_string_def split_first_chunk_def split: option.splits if_splits prod.splits)

lemma toy_unnested:
  assumes "e \<in> toy_entries"
  shows "unnested toy e"
proof -
  obtain c0 c1 c2 c3 where c: "u32_to_le_bytes (crc32 toy (payload toy e)) = [c0, c1, c2, c3]"
    by (simp add: u32_to_le_bytes_def le_bytes_numeral)
  obtain n t p where "record_bytes toy e = [0x43, 0x44, c0, c1, c2, c3, n, 0, 0, 0, t, 0] @ p" "0x43 \<notin> set (n # t # p)"
      "t < 12" "length p < 200"
    using assms c unfolding toy_entries_def record_bytes_def
    by (auto simp: payload_def toy_def put_string_def as_bytes_def MAGIC_def u16_to_le_bytes_def u32_to_le_bytes_def le_bytes_numeral)
  from short_unnested [OF this toy_payload_length] show ?thesis .
qed

text \<open>A store whose first write breaks off after three bytes.\<close>

definition flaky_world :: world where
  "flaky_world = empty_world\<lparr>faults := [None, Some 3]\<rparr>"

lemma flaky_simps [simp]:
  "wal flaky_world = []" "ssts flaky_world = []" "wal_entries X flaky_world = []"
  "disk_map X flaky_world = Map.empty"
  using disk_map_cong [of flaky_world empty_world X] 
  by (simp_all add: flaky_world_def wal_entries_empty)

lemma flaky_stored [simp]: "stored_entries X flaky_world = {}" "stored_entries X empty_world = {}"
  by (simp_all add: stored_entries_def tables_of_def)

lemma fine_write:
  assumes "entry_ok X e"
  shows "\<exists>h v. log_write X e (empty_log, empty_world\<lparr>faults := [None, None, None, Some 0]\<rparr>) =
      (Inr (), (empty_log\<lparr>wal_file := h, log_memtable := inserted X e memtable_new\<rparr>, v)) \<and> faults v = [Some 0]"
proof -
  have "tracked memtable_new + esize X e < 2 ^ 64" using esize_bound [OF assms] by simp
  from process_ok [OF memtable_new_wf assms this] header_serialize_ok [OF assms] show ?thesis
    by (simp add: log_write_def on_wal_def bindS_def header_write_def empty_log_def
        put_bytes_def overwrite_def split_def seek_end_def set_cur_def file_len_def os_call_def pop_fault_def
        write_all_def on_snd_def of_result_def Let_def sync_all_def on_memtable_def on_fst_def)
qed

text \<open>The empty store, whose calls fail in any way.\<close>

lemma empty_intact: "intact X (empty_world\<lparr>faults := fs\<rparr>)" "intact X empty_world"
  by (simp_all add: intact_empty)

lemma toy_event_ok: "event_ok toy_entries (Accept toy_reader toy_writer)"
  using toy_input_ok by (simp add: event_ok_def)

lemma toy_line_entries: "line_entries (lines_of (pending toy_reader)) = {Set ''a'' ''1'', Delete ''a''}"
proof -
  have "\<forall>c \<in> set toy_commands. command_ok c" using toy_commands_ok(1) by blast
  from lines_of_client(2) [OF this] show ?thesis by (simp add: toy_lines) (auto simp: toy_commands_def)
qed

lemma one_disk_map: "disk_map toy one_world ''a'' = Some ''1''"
  by (simp add: disk_map_def latest_def)

lemma toy_room: "log_room toy 1 (l, toy_world)"
proof -
  have "stored toy toy_world = 3" by (simp add: stored_def wal_entries_empty toy_tables_of) (simp add: toy_tables_def total_def)
  then show ?thesis using toy_clock_ok [of 6] by (simp add: log_room_def disk_room_def MAX_WAL_ENTRIES_def)
qed

text \<open>Two writes, of which the first leaves nothing.\<close>

lemma toy_write_run:
  obtains l v where "write_run toy [Set ''a'' ''1'', Set ''b'' ''3''] (empty_log, empty_world\<lparr>faults := [None, Some 0]\<rparr>) =
    ([Inl IoError, Inr ()], (l, v))"
proof -
  let ?a = "Set ''a'' ''1''" and ?b = "Set ''b'' ''3''"
  have u: "?a \<in> toy_entries" "?b \<in> toy_entries" by (simp_all add: toy_entries_def)
  have ok: "entry_ok toy ?a" by (rule toy_entry_ok) simp_all
  obtain l1 where a: "log_write toy ?a (empty_log, empty_world\<lparr>faults := [None, Some 0]\<rparr>) = (Inl IoError, (l1, empty_world))"
    using log_write_torn [OF ok, of empty_world empty_log 0] by (simp add: empty_log_def empty_world_def)
  have "faulty toy toy_entries [] (l1, empty_world)"
    using faulty_write(1) [OF faulty_inv [OF toy_inv] u(1) _ a] by (simp add: MAX_WAL_ENTRIES_def)
  from faulty_write_calm [OF this u(2)] obtain l2 v where "log_write toy ?b (l1, empty_world) = (Inr (), (l2, v))" by auto
  with a that show thesis by simp
qed

text \<open>A record that ends in the first magic byte, and one to follow it.\<close>

lemma toy_C_records:
  obtains h t where "record_bytes toy (Set ''a'' ''C'') = h @ [0x43]" and "length h = 31"
    and "record_bytes toy (Set ''b'' ''3'') = [0x43] @ t"
proof -
  let ?p = "payload toy (Set ''a'' ''C'')"
  have p: "?p = butlast ?p @ [0x43]" "length ?p = 22"
    by (simp_all add: payload_def toy_def put_string_def as_bytes_def le_bytes_numeral)
  then have "record_bytes toy (Set ''a'' ''C'') = (u16_to_le_bytes MAGIC @ u32_to_le_bytes (crc32 toy ?p) @
      u32_to_le_bytes (of_nat (length ?p)) @ butlast ?p) @ [0x43]"
    unfolding record_bytes_def by (metis append.assoc)
  moreover have "length (u16_to_le_bytes MAGIC @ u32_to_le_bytes (crc32 toy ?p) @
      u32_to_le_bytes (of_nat (length ?p)) @ butlast ?p) = 31"
    using p(2) by (simp add: u16_to_le_bytes_def u32_to_le_bytes_def)
  moreover have "record_bytes toy (Set ''b'' ''3'') = [0x43] @ tl (record_bytes toy (Set ''b'' ''3''))"
    by (simp add: record_bytes_def u16_to_le_bytes_def MAGIC_def le_bytes_numeral)
  ultimately show thesis by (rule that)
qed

text \<open>A second client, while the first one's thread holds the lock.\<close>

lemma toy_two_clients:
  obtains cs m n where "machine_run toy toy_machine cs m" and "holder m = Some 0" and "machine_run toy m [Serve 1] n"
    and "length (threads n) = 2" and "\<not> stopped (threads n ! 1)"
proof -
  let ?c = "CSet ''a'' ''1''"
  obtain k where k: "machine_run toy toy_machine [Accept toy_reader toy_writer, Serve 0, Serve 0] k" "length (threads k) = 1"
      "thread_pc (threads k ! 0) = Executing ?c (command_line ?c)"
    by (rule toy_holder)
  have "lock_ok toy_machine" by (simp add: lock_ok_def toy_machine_def)
  then have h: "holder k = Some 0" using lock_ok_run [OF k(1)] k(2,3) by (simp add: lock_ok_def)
  let ?m = "k\<lparr>threads := threads k @ [new_thread toy_reader toy_writer]\<rparr>"
  have m: "machine_run toy toy_machine ([Accept toy_reader toy_writer, Serve 0, Serve 0] @ [Accept toy_reader toy_writer]) ?m"
    by (rule machine_run.machine_more [OF k(1) machine_step.connect])
  obtain r where r: "read_line toy_reader = (Inr (command_line ?c), r)" by (rule toy_first_line)
  have ok: "command_ok ?c" using toy_commands_ok(1) by (simp add: toy_commands_def)
  let ?t = "\<lparr>thread_reader = r, thread_writer = toy_writer, thread_pc = after_line (command_line ?c)\<rparr>"
  have at: "threads ?m ! 1 = new_thread toy_reader toy_writer" using k(2) by (simp add: nth_append)
  have "loop_step (threads ?m ! 1) = Some ?t" unfolding at using r by (simp add: loop_step_def new_thread_def)
  from machine_step.local [of 1 ?m ?t toy, OF _ this] k(2)
  have s: "machine_step toy ?m (Serve 1) (?m\<lparr>threads := (threads ?m)[1 := ?t]\<rparr>)" by simp
  have "command_line ?c \<noteq> []" by (simp add: command_line_def newline_def)
  then have "\<not> stopped ?t" using try_from_command_line [OF ok] by (simp add: stopped_def after_line_def)
  with h k(2) show thesis
    by (intro that [OF m _ machine_run.machine_more [OF machine_run.machine_start s, unfolded append_Nil]]) simp_all
qed

text \<open>Memtables with one entry.\<close>

lemma toy_single:
  assumes "e \<in> toy_entries"
  shows "memtable_wf toy (inserted toy e memtable_new)" and "memtable_values (inserted toy e memtable_new) = [e]"
    and "table_ok toy (memtable_values (inserted toy e memtable_new))"
proof -
  have ok: "entry_ok toy e" using toy_universe assms by (rule universeD(1))
  have "esize toy e < 2 ^ 64" using esize_bound [OF ok] by simp
  then show "memtable_wf toy (inserted toy e memtable_new)"
    using inserted_wf [OF memtable_new_wf ok] by simp
  show v: "memtable_values (inserted toy e memtable_new) = [e]"
    by (simp add: inserted_def memtable_values_def btree_values_def Let_def)
  show "table_ok toy (memtable_values (inserted toy e memtable_new))"
    unfolding v by (rule toy_table_ok) (simp_all add: assms)
qed

text \<open>The sample crates can run the unit tests.\<close>

lemma length_put_string [simp]: "length (put_string s) = 8 + length s"
  by (simp add: put_string_def)

lemma toy_small: "small toy test_entries"
  by (simp add: small_def test_entries_def esize_def payload_def toy_def)

text \<open>
  The tests of damaged records need a checksum that is not zero, and those of the filter a hash
  that tells two keys apart: here a constant, and the first byte of the key.
\<close>

definition toy_one :: crates where
  "toy_one = toy\<lparr>crc32 := \<lambda>_. 1, xxh3 := \<lambda>bs _. ucast (hd bs)\<rparr>"

lemma toy_one_entry_ok: "entry_ok toy_one e \<longleftrightarrow> entry_ok toy e"
  by (simp add: entry_ok_def toy_one_def cong: option.case_cong)

lemma toy_one_universe: "universe toy_one test_entries"
proof (rule small_universe)
  show "\<forall>e \<in> test_entries. entry_ok toy_one e"
    by (auto simp: test_entries_def toy_one_entry_ok intro!: toy_entry_ok)
  have k: "entry_key ` test_entries = {''a'', ''b'', ''c'', ''missing''}" by (auto simp: test_entries_def)
  show "finite (entry_key ` test_entries)" unfolding k by simp
  show "card (entry_key ` test_entries) \<le> 4" unfolding k by simp
qed

lemma toy_one_positions:
  "\<not> set (positions toy_one (as_bytes ''z'') 10) \<subseteq> set (positions toy_one (as_bytes ''a'') 10)"
  by (simp add: positions_pos toy_one_def as_bytes_def byte_def upt_rec)

lemma toy_garbage: "wincode_deserialize toy_one garbage = None"
proof -
  have g: "garbage = [0xFF, 0xFF, 0xFF, 0xFF, 0xFF, 0xFF, 0xFF, 0xFF, 0xFF, 0xFF,
      0xFF, 0xFF, 0xFF, 0xFF, 0xFF, 0xFF, 0xFF, 0xFF, 0xFF, 0xFF]"
    by (simp add: garbage_def numeral_eq_Suc)
  have "toy_deserialize garbage = None"
    unfolding g by (simp add: toy_deserialize_def get_string_def split_first_chunk_def)
  then show ?thesis by (simp add: toy_one_def toy_def)
qed

text \<open>A value that has a record in it, in the bytes of a word of a \<open>set\<close> command.\<close>

definition forged_value :: string where
  "forged_value = of_bytes (record_bytes toy_one (Delete ''xy'')) @ ''!''"

lemma toy_one_record:
  "record_bytes toy_one (Delete ''xy'') = [0x43, 0x44, 1, 0, 0, 0, 14, 0, 0, 0, 1, 0, 0, 0, 2, 0, 0, 0, 0, 0, 0, 0, 0x78, 0x79]"
  by (simp add: record_bytes_def payload_def toy_one_def toy_def put_string_def as_bytes_def byte_def MAGIC_def
      u16_to_le_bytes_def u32_to_le_bytes_def le_bytes_numeral)

lemma forged_value_bytes: "as_bytes forged_value = record_bytes toy_one (Delete ''xy'') @ [0x21]" "length forged_value = 25"
  by (simp_all add: forged_value_def toy_one_record of_bytes_def as_bytes_def)

definition forged_front :: "u8 list" where
  "forged_front = [0, 0, 0, 0, 1, 0, 0, 0, 0, 0, 0, 0, 0x6B, 25, 0, 0, 0, 0, 0, 0, 0]"

lemma forged_payload:
  "payload toy_one (Set ''k'' forged_value) = forged_front @ record_bytes toy_one (Delete ''xy'') @ [0x21]"
proof -
  have "wincode_serialize toy_one = toy_serialize" by (simp add: toy_one_def toy_def)
  moreover have "as_bytes ''k'' = [0x6B]" by (simp add: as_bytes_def)
  ultimately show ?thesis by (simp add: payload_def put_string_def forged_value_bytes le_bytes_numeral forged_front_def)
qed

lemma forged_head:
  shows "take 55 (record_bytes toy_one (Set ''k'' forged_value)) =
      take (HEADER_LEN + length forged_front) (record_bytes toy_one (Set ''k'' forged_value)) @ record_bytes toy_one (Delete ''xy'')"
    and "55 < length (record_bytes toy_one (Set ''k'' forged_value))"
    and "0x43 \<notin> set (tl (take (HEADER_LEN + length forged_front) (record_bytes toy_one (Set ''k'' forged_value))))"
proof -
  have "crc32 toy_one p = 1" for p by (simp add: toy_one_def)
  then have "record_bytes toy_one (Set ''k'' forged_value) =
      [0x43, 0x44, 1, 0, 0, 0, 46, 0, 0, 0] @ forged_front @ record_bytes toy_one (Delete ''xy'') @ [0x21]"
    by (simp add: record_bytes_def [of _ "Set ''k'' forged_value"] forged_payload forged_front_def toy_one_record MAGIC_def
        u16_to_le_bytes_def u32_to_le_bytes_def le_bytes_numeral)
  then show "take 55 (record_bytes toy_one (Set ''k'' forged_value)) =
      take (HEADER_LEN + length forged_front) (record_bytes toy_one (Set ''k'' forged_value)) @ record_bytes toy_one (Delete ''xy'')"
    and "55 < length (record_bytes toy_one (Set ''k'' forged_value))"
    and "0x43 \<notin> set (tl (take (HEADER_LEN + length forged_front) (record_bytes toy_one (Set ''k'' forged_value))))"
    by (simp_all add: forged_front_def toy_one_record HEADER_LEN_def)
qed

lemma forged_word: "word_ok forged_value"
  by (simp add: word_ok_def forged_value_def toy_one_record of_bytes_def utf8_valid_ascii ascii_text)

text \<open>A store that has a value for the key of the record in it.\<close>

definition xy_world :: world where
  "xy_world = empty_world\<lparr>wal := records_bytes toy_one [Set ''xy'' ''1'']\<rparr>"

lemma xy_store:
  obtains l where "log_inv toy_one {Set ''xy'' ''1''} (l, xy_world)" and "disk_map toy_one xy_world ''xy'' = Some ''1''"
proof -
  let ?e = "Set ''xy'' ''1''" and ?U = "{Set ''xy'' ''1''}"
  have u: "universe toy_one ?U"
    by (rule small_universe) (simp_all add: toy_one_entry_ok toy_entry_ok)
  have v: "appended toy_one ?e empty_world = xy_world" by (simp add: appended_def xy_world_def)
  from log_write_ok [OF empty_log_inv [OF u], of ?e] obtain l where "log_inv toy_one ?U (l, xy_world)"
    unfolding v by (auto simp: MAX_WAL_ENTRIES_def)
  moreover have "disk_map toy_one xy_world ''xy'' = Some ''1''"
    using disk_map_append [OF empty_disk_ok [OF u], of ?e] by (simp add: v)
  ultimately show thesis by (rule that)
qed

end
