(* ===== verification/Spec2Isabelle.thy ===== *)
theory Spec2Isabelle
  imports SampleRuns
begin

text \<open>
  A verification development for chickadee (\<open>scadoshi/chickadee\<close>), a log-structured key-value
  store in Rust with a command line client and a TCP server.

  The program. A client sends lines (\<open>set k v\<close>, \<open>get k\<close>, \<open>delete k\<close>, \<open>help\<close>, \<open>quit\<close>); the loop of
  \<open>src/lib/run.rs\<close> reads a line, parses it (\<open>log/command.rs\<close>), takes the mutex of the store,
  executes the command, which writes its reply under the lock, gives the lock back and flushes
  the writer. The store (\<open>log/mod.rs\<close>) appends every entry to a write-ahead log (WAL) as a
  record with magic number, checksum and length (\<open>log/header/\<close>), keeps the newest entry of each
  key in a memtable (\<open>log/memtable.rs\<close>), writes a memtable above 4 MiB to a new table file with
  a bloom filter behind the entries (\<open>log/sstable/\<close>), empties the WAL, and at every tenth flush
  merges all tables into new ones (\<open>log/sstable/compact.rs\<close>). A deletion is a tombstone. Opening
  the store replays the WAL. \<open>bin/cli.rs\<close> runs one loop on the terminal, \<open>bin/server.rs\<close> one
  thread per connection. Paths here are relative to \<open>src/lib/\<close> and, for \<open>bin/\<close>, to \<open>src/\<close>.

  Theories, in the order of their imports.

  \<^item> \<open>Prelude\<close>: error values, the type \<open>('s, 'a) sio\<close> of computations with a state and an error
    (an error keeps the state reached), machine integers, little-endian bytes, shared lemmas and
    fact collections. \<open>World\<close>: the files (the WAL, the table files by name), the clock and the
    list \<open>faults\<close>, which tells for each call to come whether it succeeds (\<open>None\<close>) or fails after
    \<open>n\<close> bytes of its effect (\<open>Some n\<close>); file handles are a file and a cursor.
  \<^item> \<open>Entry\<close> (\<open>entry.rs\<close>, and the record \<open>crates\<close> of the external functions), \<open>Header\<close>
    (\<open>log/header/\<close>), \<open>Bloom\<close> (\<open>bloom_filter.rs\<close>), \<open>BTree\<close> (the \<open>BTreeMap\<close>), \<open>SstName\<close> (names of
    table files), \<open>MemTable\<close> (\<open>memtable.rs\<close>), \<open>SSTable\<close> (\<open>sstable/mod.rs\<close>), \<open>Compact\<close>
    (\<open>compact.rs\<close>), \<open>Log\<close> (\<open>log/mod.rs\<close>), \<open>Utf8\<close> (the part of \<open>str\<close> that is used), \<open>Tui\<close>
    (\<open>tui.rs\<close>), \<open>Command\<close> (\<open>command.rs\<close>), \<open>Runner\<close> (\<open>run.rs\<close>), \<open>Cli\<close> (\<open>bin/cli.rs\<close>), \<open>Threads\<close>
    and \<open>Process\<close> (\<open>bin/server.rs\<close> with the loop cut into its calls): the program, one
    definition per function, method or loop.
  \<^item> \<open>Directory\<close> (the tables as data and the map they stand for), \<open>Store\<close> (the contract of the
    store) and \<open>Server\<close> (atomic turns of connections, and the shared map as a specification):
    the abstract side.
  \<^item> \<open>Calm\<close> (calls that succeed although others fail), \<open>Crash\<close>, \<open>Recovery\<close>, \<open>Interrupt\<close>,
    \<open>Failure\<close>, \<open>Outage\<close>, \<open>Restart\<close>: what is left when calls fail or the process is killed in a
    write, a flush, a compaction, a command, a session, a server.
  \<^item> \<open>TestLang\<close>, \<open>UnitTests\<close>, \<open>FileTests\<close>, \<open>FilterTests\<close>, \<open>ServerTests\<close>: the tests of the
    repository as data. \<open>Sample\<close>, \<open>SampleRuns\<close>: concrete crates, stores and clients, to which
    the theorems are applied in their witnesses.

  Interfaces. \<open>ordered_map\<close> is what the memtable needs of a \<open>BTreeMap\<close>; \<open>membership_filter\<close> what a
  table needs of its filter; \<open>record_stream\<close> what reading a file of records needs of the codec
  of one record; \<open>kv_store\<close> and its extension \<open>kept_store\<close> what the commands and the tests need
  of the store. Each is interpreted on the definitions of the program, by the theory that has
  them.

  Abstraction and invariants. \<open>disk_map X w\<close> is the map the files of \<open>w\<close> stand for: the newest
  entry of a key over the records of the WAL and the tables, newest name first. \<open>disk_ok X U w\<close>
  says that the tables are what the store has written (\<open>holds\<close>), that all entries are in \<open>U\<close>, and
  that records appended to the WAL are read behind those it has (\<open>wal_ok\<close>: always so for whole
  records, with at most \<open>MAX_JUNK\<close> = \<open>2 ^ 62\<close> other bytes between); \<open>log_inv\<close> adds that the memtable is the replay of the
  WAL. \<open>intact\<close> says that the WAL has whole records only. \<open>faulty\<close> is the state between writes of
  which some have failed, \<open>sound\<close> the one between lines, \<open>lock_ok\<close> and \<open>server_inv\<close> those of the
  server, \<open>merging\<close> the one of the merge loop.

  Groups of properties. C1 to C6: the server, a session, a command and the command line client
  refine one map. C7 to C11: the operations of the store. C12 to C18: the same under failing
  calls and crashes. C19, C20: opening and flushing. C21 to C25: records and their reader. C26 to
  C29: memtable, tables, filter. C30, C31: the parser. C32 to C35: locking, progress, start and
  end of the server, and where stored entries come from. C36 to C39: behaviour that is not what
  the code means to do. C40: the unit tests.

  Parameters and hypotheses.

  \<^item> wincode, crc32fast and xxh3 are not part of the repository. They are the record \<open>crates\<close>,
    a parameter of every definition that uses them. \<open>entry_ok X e\<close> says that wincode serializes
    \<open>e\<close> to a non-empty payload below 4 GiB and reads it back; the theorems about
    the store ask nothing else of wincode, and of the checksum and the hash no more than what
    follows here.
  \<^item> \<open>universe X U\<close>: the entries of \<open>U\<close> are \<open>entry_ok\<close>, and in the footer of a table over \<open>U\<close> no
    offset decodes as a record. The code needs the second part: its reader scans the footer for
    records (\<open>sstable/mod.rs:59\<close>), and a footer that happens to hold one would be read as data.
    Any table over \<open>U\<close> can occur, because any of its keys can be set and flushed together. Over
    at most four keys it always holds (\<open>small_universe\<close>).
  \<^item> \<open>unnested X e\<close>, where writes can break off: no record begins inside the record of \<open>e\<close>. It is
    a condition on the data, not on the crates, and holds for any entry whose record has the
    magic bytes only at its start, and, with wincode's layout, for short ones without the byte \<open>0x43\<close> (\<open>short_unnested\<close>).
    C36 and C37 show what happens to other entries.
  \<^item> \<open>disk_room\<close>, \<open>log_room\<close>, \<open>log_busy\<close>: there is room for \<open>n\<close> more writes, that is, at most
    \<open>MAX_WAL_ENTRIES\<close> (\<open>2 ^ 28\<close>) entries in all, so that sizes stay in 64 bits, and the clock grows
    strictly during the flushes this can take (\<open>clock_ok\<close>), so that table names are new; C38
    shows what happens otherwise.
  \<^item> A crash is the end of the process, not a loss of power: what a call has written stays.
    It is a list of faults in which no later call succeeds; the theorems hold for all lists.

  Termination. Structural recursion where the code has it; \<open>replay\<close>, the scans and the loop of
  \<open>Runner\<close> end by the bytes that are left; the merge loop has the fuel
  \<open>compact_fuel\<close>, one more than the bytes of all tables, which is enough because every turn takes an
  entry, and an entry has bytes; C10 shows that the compaction returns. A thread
  that waits, for its client or for the lock, is one that takes no step: nothing is assumed about
  the scheduler, and C32 is relative to the clients that block. Inputs are the bytes a client
  sends in all, and its end can be an error.

  Not modelled: sockets and the two buffers of a connection (a connection is a reader of bytes
  and a writer whose calls can fail), the code of the crates, the demo scripts and the notes.
\<close>

section \<open>The server and its connections\<close>

text \<open>
  C1. The TCP server, started on a store directory, behaves like one map shared by all
  connections. With its address in the environment it starts, and then, whatever the clients
  send, however the calls of the threads interleave, and whether or not the listener fails, every
  run of the process is a run of the specification in which each command reads and changes the
  map at one point, namely where its thread makes one of its own calls, and each connection gets
  the replies and the end the specification gives it; the lock is never poisoned and the store
  invariant holds at the end.
\<close>

theorem server_refines_shared_map:
  assumes "disk_ok X U w" and "faults w = []" and "disk_room X (length es) w"
    and "\<forall>a \<in> set es. arrival_ok U a" and "can_listen h" and "out_faults so = []"
  shows "\<exists>p. server_main X h so se w = (Inr p, w) \<and> (\<forall>q. process_run X h p es q \<longrightarrow>
    (\<exists>ts. subseq ts (concat (map machine_events es)) \<and> spec_run \<lparr>the_map = disk_map X w, spec_conns = []\<rparr> ts
      \<lparr>the_map = disk_map X (snd (store (mutex (running q)))), spec_conns = map conn_of (threads (running q))\<rparr>) \<and>
    \<not> poisoned (mutex (running q)) \<and> log_inv X U (store (mutex (running q))))"
proof -
  obtain l where s: "server_start X w = (Inr \<lparr>mutex = \<lparr>store = (l, w), poisoned = False\<rparr>, holder = None, threads = []\<rparr>, w)"
    by (rule server_start_machine [OF assms(1-3)])
  from server_main_running [OF assms(5,6) s] obtain p where
    "server_main X h so se w = (Inr p, w)" "server_start X w = (Inr (running p), w)"
    by (metis s)
  with process_run_map [OF assms(1-4)] show ?thesis by blast
qed

theorem server_refines_shared_map_witness:
  "\<exists>p es q ts. server_main toy toy_host toy_writer toy_writer empty_world = (Inr p, empty_world) \<and>
    process_run toy toy_host p es q \<and> list_all stopped (threads (running q)) \<and>
    spec_run \<lparr>the_map = Map.empty, spec_conns = []\<rparr> ts
      \<lparr>the_map = disk_map toy (snd (store (mutex (running q)))), spec_conns = map conn_of (threads (running q))\<rparr>"
proof -
  obtain p es q where r: "server_main toy toy_host toy_writer toy_writer empty_world = (Inr p, empty_world)"
      "process_run toy toy_host p es q" "list_all stopped (threads (running q))"
      "\<forall>a \<in> set es. arrival_ok toy_entries a" "disk_room toy (length es) empty_world"
    by (rule toy_process_run)
  have "out_faults toy_writer = []" by (simp add: toy_writer_def)
  from server_refines_shared_map [OF empty_disk_ok [OF toy_universe] _ r(5,4) toy_can_listen this] r(1-3)
  show ?thesis by fastforce
qed

text \<open>
  C2. A whole session of one client, on a writer that does not fail: the loop returns what the
  specification of the session returns (the end of the input, \<open>quit\<close>, a broken input, or a
  line that is not UTF-8), has written exactly its replies, in order, with an error line for
  every line that does not parse, and leaves the map the commands before that point make.
\<close>

theorem run_implements_session:
  assumes "log_inv X U s" and "log_room X (length (lines_of (pending r))) s" and "out_faults wr = []"
    and "entries_in U (lines_of (pending r))"
    and "spec_session (broken r) (lines_of (pending r)) (disk_map X (snd s)) = (res, m, text)"
  shows "\<exists>r' t. run X (r, \<lparr>store = s, poisoned = False\<rparr>, wr) =
      (res, (r', \<lparr>store = t, poisoned = False\<rparr>, wr\<lparr>out := out wr @ text\<rparr>)) \<and>
    log_inv X U t \<and> disk_map X (snd t) = m"
proof -
  have "log_room X (length (lines_of (pending r)) + 0) s" using assms(2) by simp
  from run_result [OF assms(1) this assms(3-5)] show ?thesis by metis
qed

theorem run_implements_session_witness:
  "\<exists>r' t. run toy (\<lparr>pending = toy_bad_line, broken = True\<rparr>,
      \<lparr>store = (empty_log, empty_world), poisoned = False\<rparr>, toy_writer) =
    (Inl IoError, (r', \<lparr>store = t, poisoned = False\<rparr>,
      toy_writer\<lparr>out := ''Error: unrecognized command'' @ newline\<rparr>)) \<and>
    disk_map toy (snd t) = Map.empty"
proof -
  let ?r = "\<lparr>pending = toy_bad_line, broken = True\<rparr>"
  note f = toy_bad_line_facts
  have e: "entries_in toy_entries (lines_of (pending ?r))"
    by (simp add: entries_in_def f)
  have sp: "spec_session (broken ?r) (lines_of (pending ?r)) (disk_map toy (snd (empty_log, empty_world))) =
      (Inl IoError, Map.empty, ''Error: unrecognized command'' @ newline)"
    by (simp add: f)
  have room: "log_room toy (length (lines_of (pending ?r))) (empty_log, empty_world)"
    by (rule empty_log_room) (simp add: f)
  have w: "out_faults toy_writer = []" "out toy_writer = []" by (simp_all add: toy_writer_def)
  show ?thesis using run_implements_session [OF toy_inv room w(1) e sp] by (auto simp: w(2))
qed

text \<open>
  C3. The protocol from the client's side: a client that sends well-formed commands, a line
  each, gets the replies of these commands and nothing else, and the map is what the commands
  make of it. Keys and values are any words: UTF-8 without white space.
\<close>

theorem client_session:
  assumes "log_inv X U s" and "log_room X (length cs) s" and "out_faults wr = []"
    and "\<forall>c \<in> set cs. command_ok c \<and> good_command U c" and "CQuit \<notin> set cs"
    and "pending r = concat (map command_line cs)" and "\<not> broken r"
  shows "\<exists>r' t. run X (r, \<lparr>store = s, poisoned = False\<rparr>, wr) =
      (Inr (), (r', \<lparr>store = t, poisoned = False\<rparr>, wr\<lparr>out := out wr @ replies cs (disk_map X (snd s))\<rparr>)) \<and>
    log_inv X U t \<and> disk_map X (snd t) = fold spec_map cs (disk_map X (snd s))"
proof -
  have l: "lines_of (pending r) = map command_line cs"
    using assms(4,6) by (simp add: lines_of_commands)
  have "\<forall>c \<in> set cs. command_ok c \<and> c \<noteq> CQuit" using assms(4,5) by auto
  from spec_session_commands [OF this] run_ok [OF assms(1) _ assms(3), of r 0] show ?thesis
    using assms(2,7) entries_in_commands [OF assms(4)] by (auto simp: l ran_def)
qed

theorem client_session_witness:
  "\<exists>r' t. run toy (toy_reader, \<lparr>store = (empty_log, empty_world), poisoned = False\<rparr>, toy_writer) =
      (Inr (), (r', \<lparr>store = t, poisoned = False\<rparr>, toy_writer\<lparr>out :=
        ''a => 1'' @ newline @ ''a => 1'' @ newline @ ''a deleted'' @ newline @ ''a not found'' @ newline\<rparr>)) \<and>
    disk_map toy (snd t) = Map.empty"
proof -
  have room: "log_room toy (length toy_commands) (empty_log, empty_world)"
    by (rule empty_log_room) (simp add: toy_commands_def)
  have q: "CQuit \<notin> set toy_commands" by (simp add: toy_commands_def)
  have m: "fold spec_map toy_commands Map.empty = Map.empty" by (simp add: toy_commands_def fun_eq_iff)
  have r: "replies toy_commands Map.empty =
      ''a => 1'' @ newline @ ''a => 1'' @ newline @ ''a deleted'' @ newline @ ''a not found'' @ newline"
    by (simp add: toy_commands_def)
  have w: "out_faults toy_writer = []" "out toy_writer = []" by (simp_all add: toy_writer_def)
  from client_session [OF toy_inv room w(1) toy_commands_ok(1) q, of toy_reader]
  show ?thesis by (auto simp add: m r w(2) toy_reader_def)
qed

text \<open>
  C4. Running one command refines its specification for every behaviour of the writer: same
  result, same text written, same map. In particular a command whose reply cannot be written
  leaves the map as it was, and the store is ready for the next command either way.
\<close>

theorem execute_refines_spec:
  assumes "log_inv X U s" and "log_room X (Suc n) s" and "good_command U c"
    and "execute X c (s, wr) = (r, (t, wr'))"
  shows "spec_execute c (disk_map X (snd s), wr) = (r, (disk_map X (snd t), wr')) \<and>
    log_inv X U t \<and> log_room X n t"
  using execute_refines [OF assms(1-3), of wr] assms(4) by (simp add: refines_def)

theorem execute_refines_spec_witness:
  "\<exists>r t wr'. execute toy (CSet ''a'' ''1'') ((empty_log, empty_world), \<lparr>out = [], out_faults = [Some 2]\<rparr>) = (r, (t, wr')) \<and>
    r = Inl IoError \<and> out wr' = ''a '' \<and> disk_map toy (snd t) = Map.empty"
proof -
  obtain r t wr' where e: "execute toy (CSet ''a'' ''1'')
      ((empty_log, empty_world), \<lparr>out = [], out_faults = [Some 2]\<rparr>) = (r, (t, wr'))"
    by (metis surj_pair)
  have g: "good_command toy_entries (CSet ''a'' ''1'')" by (simp add: good_command_def toy_entries_def)
  have room: "log_room toy (Suc 0) (empty_log, empty_world)" by (rule empty_log_room) simp
  from execute_refines_spec [OF toy_inv room g e] e show ?thesis
    by (auto simp: spec_execute_def writeln_def Let_def)
qed

text \<open>
  C5. Deleting a key the store does not have replies \<open>not found\<close> and writes no record. What is
  left of the command is the flush check, which every deletion ends with: it flushes a memtable
  that is above the threshold, as it can be when a large WAL has been replayed; the map and the
  invariant stay as they are, no entry is added to the files, and the WAL is as before or, after
  a flush, empty. With a memtable below the threshold nothing changes at all.
\<close>

theorem delete_missing_adds_nothing:
  assumes "log_inv X U (l, w)" and "log_room X 1 (l, w)" and "disk_map X w k = None" and "out_faults wr = []"
  shows "\<exists>l' v. execute X (CDelete k) ((l, w), wr) =
      (Inr (), ((l', v), wr\<lparr>out := out wr @ k @ '' not found'' @ newline\<rparr>)) \<and>
    maybe_flush X (l, w) = (Inr (), (l', v)) \<and> log_inv X U (l', v) \<and> disk_map X v = disk_map X w \<and>
    stored_entries X v \<subseteq> stored_entries X w \<and> (wal v = wal w \<or> wal v = []) \<and>
    (tracked (log_memtable l) \<le> 4 * 2 ^ 20 \<longrightarrow> l' = l \<and> v = w)"
proof -
  have busy: "log_busy X 0 (l, w)" using log_room_busy [of X 0] assms(2) by simp
  obtain l' v where f: "maybe_flush X (l, w) = (Inr (), (l', v))" "log_inv X U (l', v)" "disk_map X v = disk_map X w"
    using maybe_flush_ok [OF assms(1) busy] by blast
  have "log_inv X (stored_entries X w) (l, w)"
    using log_inv_shrink [OF assms(1) _ log_inv_stored [OF assms(1)]] by simp
  from maybe_flush_ok [OF this busy] f(1) have "log_inv X (stored_entries X w) (l', v)" by auto
  then have "stored_entries X v \<subseteq> stored_entries X w" by (rule log_inv_stored)
  moreover have "wal v = wal w \<or> wal v = []" using maybe_flush_wal [OF assms(1) busy f(1)] .
  moreover have "tracked (log_memtable l) \<le> 4 * 2 ^ 20 \<longrightarrow> l' = l \<and> v = w"
    using f(1) by (auto simp: maybe_flush_def should_flush_iff)
  ultimately show ?thesis
    using execute_delete_missing [OF assms(1) _ assms(4), of k] assms(3) f
    by (intro exI [of _ l'] exI [of _ v]) (simp add: on_fst_def)
qed

theorem delete_missing_adds_nothing_witness:
  "execute toy (CDelete ''zz'') ((one_log, one_world), toy_writer) =
    (Inr (), ((one_log, one_world), toy_writer\<lparr>out := ''zz not found'' @ newline\<rparr>))"
proof -
  have "disk_map toy one_world ''zz'' = None"
    by (simp add: disk_map_def latest_def store_get_def newest_first_def sort_desc_def)
  moreover have "tracked (log_memtable one_log) \<le> 4 * 2 ^ 20"
    by (simp add: one_log_def inserted_def Let_def btree_values_def esize_def payload_def toy_def put_string_def)
  moreover have "log_room toy 1 (one_log, one_world)" by (rule one_room) simp
  moreover have "out_faults toy_writer = []" "out toy_writer = []" by (simp_all add: toy_writer_def)
  ultimately show ?thesis using delete_missing_adds_nothing [OF one_inv, of "''zz''" toy_writer] by auto
qed

text \<open>
  C6. The CLI, started again and again on one data directory, each time with an input of
  well-formed commands: every session prints the banner and the replies, starts from the map
  the session before it left, and the files it leaves stand for the map of all commands so far.
\<close>

theorem cli_sessions:
  assumes "disk_ok X U w" and "faults w = []" and "disk_room X (length (concat css)) w"
    and "out_faults wr = []" and "\<forall>c \<in> set (concat css). command_ok c \<and> good_command U c \<and> c \<noteq> CQuit"
  shows "\<exists>v. repls X (map client css) (w, wr) =
      (Inr (), (v, wr\<lparr>out := out wr @ transcript css (disk_map X w)\<rparr>)) \<and>
    disk_ok X U v \<and> disk_map X v = fold spec_map (concat css) (disk_map X w)"
  using repls_ok [OF assms(1,2) _ assms(4,5), of 0] assms(3) by simp

theorem cli_sessions_witness:
  "\<exists>v. repls toy [client [CSet ''a'' ''1''], client [CGet ''a'', CDelete ''a'']] (empty_world, toy_writer) =
      (Inr (), (v, toy_writer\<lparr>out := banner @ ''a => 1'' @ newline @
        banner @ ''a => 1'' @ newline @ ''a deleted'' @ newline\<rparr>)) \<and>
    disk_map toy v = Map.empty"
proof -
  let ?css = "[[CSet ''a'' ''1''], [CGet ''a'', CDelete ''a'']]"
  have ok: "\<forall>c \<in> set (concat ?css). command_ok c \<and> good_command toy_entries c \<and> c \<noteq> CQuit"
    by (simp add: command_ok_def toy_words good_command_def toy_entries_def)
  have room: "disk_room toy (length (concat ?css)) empty_world"
    using empty_log_room [of "length (concat ?css)"] by (simp add: log_room_def)
  have w: "out_faults toy_writer = []" "out toy_writer = []" by (simp_all add: toy_writer_def)
  show ?thesis
    using cli_sessions [OF empty_disk_ok [OF toy_universe] _ room w(1) ok]
    by (auto simp: w(2))
qed

section \<open>The log store\<close>

text \<open>
  C7. A lookup finds the newest entry of the key over the memtable and all SSTables, newest
  file first, and reports it unless it is a tombstone; \<open>contains\<close> agrees with it, and neither
  changes the store or the files.
\<close>

theorem get_finds_newest:
  assumes "log_inv X U (l, w)"
  shows "log_get X k (l, w) = (Inr (live_entry (case lookup_entry (rev (wal_entries X w)) k of
        Some e \<Rightarrow> Some e
      | None \<Rightarrow> newest (newest_first (tables_of X w)) k)), (l, w)) \<and>
    log_get X k (l, w) = (Inr (map_option (Set k) (disk_map X w k)), (l, w)) \<and>
    log_contains X k (l, w) = (Inr (k \<in> dom (disk_map X w)), (l, w))"
  using log_get_latest [OF assms, of k] log_get_map [OF assms, of k] log_contains_map [OF assms, of k]
  by (simp add: latest_def store_get_def cong: option.case_cong)

theorem get_finds_newest_witness:
  "\<exists>l. log_new toy False toy_world = (Inr l, toy_world) \<and>
    fst (log_get toy ''a'' (l, toy_world)) = Inr None \<and>
    fst (log_get toy ''b'' (l, toy_world)) = Inr (Some (Set ''b'' ''3''))"
proof -
  have "length (ssts toy_world) < 2 ^ 64" by (simp add: toy_tables_def)
  then obtain l where l: "log_new toy False toy_world = (Inr l, toy_world)" "log_inv toy toy_entries (l, toy_world)"
    using log_new_ok [OF toy_disk_ok] by auto
  show ?thesis
    using l get_finds_newest [OF l(2)] by (simp add: toy_tables_of toy_newest live_entry_def wal_entries_empty)
qed

text \<open>
  C8. Once \<open>write\<close> has returned, its entry is in the WAL and in the map; the SSTables are as
  they were; and a store opened on the files after the process is gone, whatever it had in
  memory, answers every lookup from the new map.
\<close>

theorem write_is_durable:
  assumes "log_inv X U (l, w)" and "e \<in> U" and "disk_room X (Suc n) w"
    and "log_write X e (l, w) = (r, (l', v))"
  shows "r = Inr () \<and> wal v = wal w @ record_bytes X e \<and> ssts v = ssts w \<and>
    disk_map X v = (disk_map X w)(entry_key e := entry_value e) \<and> log_inv X U (l', v) \<and>
    (\<exists>l2. log_new X False v = (Inr l2, v) \<and>
      (\<forall>k. log_get X k (l2, v) = (Inr (map_option (Set k) (((disk_map X w)(entry_key e := entry_value e)) k)), (l2, v))))"
proof -
  note i = log_invD [OF assms(1)]
  have room: "length (wal_entries X w) < MAX_WAL_ENTRIES"
    using assms(3) by (simp add: disk_room_def stored_def)
  from log_write_ok [OF assms(1,2) room] assms(4)
  have v: "r = Inr ()" "v = appended X e w" "log_inv X U (l', v)" by auto
  have "length (ssts v) < 2 ^ 64" using room_tables [OF i(1) assms(3)] v(2) by simp
  from log_new_ok [OF log_invD(1,2) [OF v(3)] this] obtain l2 where
    l2: "log_new X False v = (Inr l2, v)" "log_inv X U (l2, v)" by blast
  show ?thesis
    using v l2(1) log_get_map [OF l2(2)] disk_map_append [OF i(1) assms(2)] by simp
qed

theorem write_is_durable_witness:
  "\<exists>r l' v. log_write toy (Delete ''a'') (one_log, one_world) = (r, (l', v)) \<and> r = Inr () \<and>
    (\<exists>l2. log_new toy False v = (Inr l2, v) \<and> log_get toy ''a'' (l2, v) = (Inr None, (l2, v)))"
proof -
  obtain r l' v where e: "log_write toy (Delete ''a'') (one_log, one_world) = (r, (l', v))"
    by (metis surj_pair)
  have u: "Delete ''a'' \<in> toy_entries" by (simp add: toy_entries_def)
  have room: "disk_room toy (Suc 0) one_world"
    using one_room [of "Suc 0"] by (simp add: log_room_def)
  from write_is_durable [OF one_inv u room e] e show ?thesis by auto
qed

text \<open>
  C9. A flush writes the memtable to one new table (none if it is empty), empties the WAL and
  the memtable, counts itself, compacts exactly when the count is a multiple of ten, and leaves
  the map as it is: the store invariant and every lookup are unaffected.
\<close>

theorem flush_keeps_map:
  assumes "log_inv X U (l, w)" and "clock_ok (flush_cost X (l, w) + j) w"
  shows "\<exists>l' w'. log_flush X (l, w) = (Inr (), (l', w')) \<and> log_inv X U (l', w') \<and>
    disk_map X w' = disk_map X w \<and> wal w' = [] \<and> log_memtable l' = memtable_new \<and>
    flush_count l' = saturating_add (flush_count l) 1 \<and>
    (let T = with_memtable (log_memtable l) w (tables_of X w) in
      if flush_count l' mod 10 = 0
      then map snd (tables_of X w') = compacted X T \<and> sorted_wrt (<) (map fst (tables_of X w'))
      else tables_of X w' = T) \<and> clock_ok j w'"
proof -
  have c: "compaction_due l \<longleftrightarrow> saturating_add (flush_count l) 1 mod 10 = 0"
    by (simp add: compaction_due_def COMPACT_EVERY_N_FLUSHES_def)
  from log_flush_ok [OF assms] show ?thesis
    unfolding flushed_tables_def c by metis
qed

theorem flush_keeps_map_witness:
  "\<exists>l' w'. log_flush toy (one_log, one_world) = (Inr (), (l', w')) \<and> wal w' = [] \<and>
    tables_of toy w' = [(sst_name 1700000000000000, [Set ''a'' ''1''])] \<and> flush_count l' = 1"
proof -
  have nd: "\<not> compaction_due one_log"
    by (simp add: compaction_due_def COMPACT_EVERY_N_FLUSHES_def saturating_add_def)
  then have "clock_ok (flush_cost toy (one_log, one_world) + 0) one_world"
    by (intro one_clock_ok) (simp add: flush_cost_def table_cost_def Let_def)
  from flush_keeps_map [OF one_inv this] show ?thesis
    by (auto simp: saturating_add_def with_memtable_def Let_def next_name_def)
qed

text \<open>
  C10. A compaction of any store replaces the tables by the merge of them: the map is
  unchanged, every key is in at most one table and no tombstone is left, the tables are written
  in key order under names after all old ones, and the old files are gone.
\<close>

theorem compaction_keeps_map:
  assumes "disk_ok X U w" and "faults w = []"
    and "clock_ok (length (compacted X (tables_of X w)) + j) w"
  shows "\<exists>w'. compact X w = (Inr (), w') \<and> disk_ok X U w' \<and> disk_map X w' = disk_map X w \<and> wal w' = wal w \<and>
    sorted_wrt (<) (map entry_key (concat (map snd (tables_of X w')))) \<and>
    (\<forall>e \<in> set (concat (map snd (tables_of X w'))). \<exists>k v. e = Set k v) \<and>
    (\<forall>n \<in> fst ` set (ssts w'). \<forall>m \<in> fst ` set (ssts w). m < n) \<and>
    length (concat (map snd (tables_of X w'))) \<le> length (concat (map snd (tables_of X w))) \<and> clock_ok j w'"
proof -
  note h = disk_okD(2) [OF assms(1)]
  note sorted = compacted_facts(3) [OF h] and live = compacted_entries(2) [OF h]
    and short = compacted_length(1) [OF h]
  from compact_disk [OF assms] obtain w' where
    "compact X w = (Inr (), w')" "disk_ok X U w'" "disk_map X w' = disk_map X w" "wal w' = wal w"
    "map snd (tables_of X w') = compacted X (tables_of X w)"
    "\<forall>n \<in> fst ` set (ssts w'). \<forall>m \<in> fst ` set (ssts w). m < n" "clock_ok j w'" by blast
  with sorted live short show ?thesis
    by (intro exI [of _ w']) (simp add: key_sorted_def total_def length_concat)
qed

theorem compaction_keeps_map_witness:
  "\<exists>w'. compact toy toy_world = (Inr (), w') \<and>
    disk_map toy w' ''a'' = None \<and> disk_map toy w' ''b'' = Some ''3'' \<and>
    (\<forall>n \<in> fst ` set (ssts w'). sst_name 2 < n)"
proof -
  have "length (compacted toy toy_tables) \<le> 3"
    using compacted_length(2) [OF toy_holds] by (simp add: toy_tables_def)
  then have "clock_ok (length (compacted toy (tables_of toy toy_world)) + 0) toy_world"
    by (intro toy_clock_ok) (simp add: toy_tables_of)
  from compaction_keeps_map [OF toy_disk_ok _ this]
  obtain w' where w: "compact toy toy_world = (Inr (), w')" "disk_map toy w' = disk_map toy toy_world"
      "\<forall>n \<in> fst ` set (ssts w'). \<forall>m \<in> fst ` set (ssts toy_world). m < n" by auto
  have "sst_name 2 \<in> fst ` set (ssts toy_world)" by (simp add: toy_tables_def)
  with w(3) have "\<forall>n \<in> fst ` set (ssts w'). sst_name 2 < n" by blast
  moreover have "disk_map toy w' ''a'' = None" "disk_map toy w' ''b'' = Some ''3''"
    by (simp_all add: w(2) toy_disk_map)
  ultimately show ?thesis using w(1) by blast
qed

text \<open>
  C11. Any sequence of calls on the store - writes, lookups, flushes, flush checks,
  compactions, and reopening the store from its files, in any order - answers as the same
  sequence on a map does, in which flushing, compacting and reopening do nothing, and leaves
  the map and the invariant that go with it.
\<close>

theorem any_calls_refine_map:
  assumes "log_inv X U s" and "log_room X (length as) s" and "\<forall>e. Write e \<in> set as \<longrightarrow> e \<in> U"
  shows "\<exists>t. script X as s = (Inr (spec_script as (disk_map X (snd s))), t) \<and> log_inv X U t \<and>
    disk_map X (snd t) = fold spec_effect as (disk_map X (snd s))"
  using script_ok [OF assms(1), of as 0] assms(2,3) by (auto simp: log_good_def)

theorem any_calls_refine_map_witness:
  "\<exists>t. script toy [Write (Set ''a'' ''1''), Flush, Write (Delete ''a''), Reopen, Get ''a'', Flush, Compact, Contains ''a'']
      (empty_log, empty_world) =
    (Inr [Done, Done, Done, Done, Found None, Done, Done, Known False], t)"
proof -
  let ?as = "[Write (Set ''a'' ''1''), Flush, Write (Delete ''a''), Reopen, Get ''a'', Flush, Compact, Contains ''a'']"
  have room: "log_room toy (length ?as) (empty_log, empty_world)" by (rule empty_log_room) simp
  have sub: "\<forall>e. Write e \<in> set ?as \<longrightarrow> e \<in> toy_entries" by (auto simp: toy_entries_def)
  obtain t where "script toy ?as (empty_log, empty_world) = (Inr (spec_script ?as Map.empty), t)"
    using any_calls_refine_map [OF toy_inv room sub] by auto
  then show ?thesis by (intro exI [of _ t]) simp
qed

section \<open>Faults and crashes\<close>

text \<open>
  C12. A session whose process is stopped at any point, or in which any calls to the operating
  system fail, in any order and with any part of their effect, a write cut off in the middle of
  its record included. It starts on a store whose WAL has whole records, and no entry of the
  universe has a record inside its own record (C36 and C37 say what can happen to others). The
  client has the replies to the first \<open>i\<close> of its lines, in full, and part of the reply to the
  next one. The store answers from the map after \<open>i\<close> lines or after \<open>i + 1\<close>, in the process that
  is left and in the next one: a command is done or not done. The exception are keys without a
  value in that map: such a key, deleted as it may have been, can be back with a value that an
  entry of the old store or of these lines has set, as a compaction that breaks off leaves it (C17).
\<close>

theorem session_survives_faults:
  assumes "log_inv X U (l, w)" and "intact X w" and "\<forall>e \<in> U. unnested X e"
    and "log_room X (length (lines_of (pending rd))) (l, w)" and "entries_in U (lines_of (pending rd))"
    and "run X (rd, \<lparr>store = (l, w\<lparr>faults := fs\<rparr>), poisoned = False\<rparr>, wr) = (res, (rd', sh, wr'))"
  shows "\<exists>i \<le> length (lines_of (pending rd)). \<exists>part. let ls = lines_of (pending rd); m = fold line_map (take i ls) (disk_map X w) in
    out wr' = out wr @ session_replies (take i ls) (disk_map X w) @ part \<and>
    (case drop i ls of [] \<Rightarrow> part = [] | line # _ \<Rightarrow> prefix part (line_reply line m)) \<and>
    survives X (stored_entries X w \<union> line_entries ls) {m, fold line_map (take (Suc i) ls) (disk_map X w)}
      (fst (store sh)) (snd (store sh))"
proof -
  have "sound X U (length (lines_of (pending rd))) (l, w\<lparr>faults := fs\<rparr>)"
    using assms(1-4) calm_faulted [OF log_invD(2) [OF assms(1)]] intact_cong [of "w\<lparr>faults := fs\<rparr>" w X] by (simp add: sound_def)
  from run_faults [OF this assms(5,6)] show ?thesis
    using disk_map_cong [of "w\<lparr>faults := fs\<rparr>" w X] by (simp add: outage_def Let_def)
qed

theorem session_survives_faults_witness:
  "\<exists>i \<le> 4. \<exists>res rd sh wr. run toy (toy_reader, \<lparr>store = (empty_log, flaky_world), poisoned = False\<rparr>, toy_writer) =
      (res, (rd, sh, wr)) \<and>
    survives toy {Set ''a'' ''1'', Delete ''a''}
      {fold spec_map (take i toy_commands) Map.empty, fold spec_map (take (Suc i) toy_commands) Map.empty}
      (fst (store sh)) (snd (store sh))"
proof -
  let ?ls = "lines_of (pending toy_reader)"
  obtain res rd sh wr where r: "run toy (toy_reader, \<lparr>store = (empty_log, flaky_world), poisoned = False\<rparr>, toy_writer) =
      (res, (rd, sh, wr))" by (metis surj_pair)
  have n: "length ?ls = 4" by (simp add: toy_lines toy_commands_def)
  have room: "log_room toy (length ?ls) (empty_log, empty_world)" by (rule empty_log_room) (simp add: n)
  have u: "\<forall>e \<in> toy_entries. unnested toy e" using toy_unnested by blast
  have e: "entries_in toy_entries ?ls" using toy_input_ok by (simp add: input_ok_def)
  have ok: "\<forall>c \<in> set toy_commands. command_ok c" using toy_commands_ok(1) by blast
  from session_survives_faults [OF toy_inv empty_intact(2) u room e r [unfolded flaky_world_def]]
  obtain i where "i \<le> 4" "survives toy (line_entries ?ls)
      {fold line_map (take i ?ls) Map.empty, fold line_map (take (Suc i) ?ls) Map.empty} (fst (store sh)) (snd (store sh))"
    by (auto simp: n Let_def)
  with r toy_line_entries lines_of_client(1) [OF ok] show ?thesis by (auto simp: toy_lines)
qed

text \<open>
  C13. A server that is killed. It was started on a store whose WAL has whole records, and no
  entry of the universe has a record inside its own record. After any run of the server, one
  thread executes its command under the lock when the process dies, or when any calls fail: all
  other commands of the run have had their whole effect, and a server started on the files that
  are left opens its store and answers from one map. That map is the one from before the command
  or the one from after it, except for keys without a value there: if the command had a
  compaction to do, a deleted key can be back with a value that an entry of the old files had.
\<close>

theorem server_killed:
  assumes "disk_ok X U w" and "faults w = []" and "\<forall>e \<in> U. unnested X e" and "intact X w"
    and "disk_room X (Suc (length es)) w" and "\<forall>e \<in> set es. event_ok U e"
    and "server_start X w = (Inr m, w)" and "machine_run X m es n"
    and "i < length (threads n)" and "thread_pc (threads n ! i) = Executing c line" and "store (mutex n) = (l, v)"
    and "execute X c ((l, v\<lparr>faults := fs\<rparr>), thread_writer (threads n ! i)) = (r, ((l', u), wr))"
  shows "(\<exists>ts. subseq ts es \<and> spec_run \<lparr>the_map = disk_map X w, spec_conns = []\<rparr> ts
      \<lparr>the_map = disk_map X v, spec_conns = map conn_of (threads n)\<rparr>) \<and>
    (\<exists>p k M. server_start X (calm u) = (Inr p, calm u) \<and> answers X (fst (store (mutex p))) (calm u) M \<and>
      k \<in> {disk_map X v, spec_map c (disk_map X v)} \<and> resurfaced (stored_entries X v) k M)"
proof
  have room: "disk_room X (length es) w" using assms(5) log_room_less [of X "length es" "(l, w)"] by (simp add: log_room_def)
  show "\<exists>ts. subseq ts es \<and> spec_run \<lparr>the_map = disk_map X w, spec_conns = []\<rparr> ts
      \<lparr>the_map = disk_map X v, spec_conns = map conn_of (threads n)\<rparr>"
    using server_run_map [OF assms(1,2) room assms(6-8)] assms(11) by auto
qed (rule killed_in_command [OF assms])

theorem server_killed_witness:
  "\<exists>r l u wr p. execute toy (CSet ''a'' ''1'') ((empty_log, flaky_world), toy_writer) = (r, ((l, u), wr)) \<and>
    server_start toy (calm u) = (Inr p, calm u) \<and>
    fst (log_get toy ''a'' (fst (store (mutex p)), calm u)) \<in> {Inr None, Inr (Some (Set ''a'' ''1''))}"
proof -
  obtain n where n: "machine_run toy toy_machine [Accept toy_reader toy_writer, Serve 0, Serve 0] n" "length (threads n) = 1"
      "thread_pc (threads n ! 0) = Executing (CSet ''a'' ''1'') (command_line (CSet ''a'' ''1''))"
      "store (mutex n) = (empty_log, empty_world)" "thread_writer (threads n ! 0) = toy_writer"
    by (rule toy_holder)
  let ?es = "[Accept toy_reader toy_writer, Serve 0, Serve 0]"
  have e: "\<forall>e \<in> set ?es. event_ok toy_entries e" using toy_event_ok by (simp add: event_ok_def)
  have four: "Suc (length ?es) = 4" by simp
  have room: "disk_room toy (Suc (length ?es)) empty_world"
    unfolding four using empty_log_room [of 4 toy] by (simp add: log_room_def)
  have u: "\<forall>e \<in> toy_entries. unnested toy e" using toy_unnested by blast
  have i: "0 < length (threads n)" using n(2) by simp
  obtain r l u wr where x: "execute toy (CSet ''a'' ''1'') ((empty_log, empty_world\<lparr>faults := [None, Some 3]\<rparr>),
      thread_writer (threads n ! 0)) = (r, ((l, u), wr))" by (metis surj_pair)
  from server_killed [OF empty_disk_ok [OF toy_universe] _ u empty_intact(2) room e toy_start n(1) i n(3,4) x]
  obtain p k M where "server_start toy (calm u) = (Inr p, calm u)" "answers toy (fst (store (mutex p))) (calm u) M"
      "k \<in> {Map.empty, [''a'' \<mapsto> ''1'']}" "resurfaced {} k M" by auto
  moreover from this(4) have "M = k" by (auto simp: resurfaced_def)
  ultimately show ?thesis using x n(5) unfolding flaky_world_def answers_def by auto
qed

text \<open>
  C14. No operation but opening the store takes an error for something else: if every call of a
  sequence of operations returns without an error, whatever calls to the operating system
  failed or would still fail, the answers are those of the map, and the store is as after the
  same sequence without failures.
\<close>

theorem success_is_real:
  assumes "log_inv X U (l, w)" and "log_room X (length as) (l, w)" and "\<forall>e. Write e \<in> set as \<longrightarrow> e \<in> U"
    and "Reopen \<notin> set as" and "script X as (l, w\<lparr>faults := fs\<rparr>) = (Inr rs, (l', v))"
  shows "rs = spec_script as (disk_map X w) \<and> log_inv X U (l', calm v) \<and> disk_map X v = fold spec_effect as (disk_map X w) \<and>
    script X as (l, w) = (Inr rs, (l', calm v))"
proof -
  have calm: "script X as (l, w) = (Inr rs, (l', calm v))" by (rule script_success [OF assms(1,4,5)])
  with script_ok [OF assms(1), of as 0] assms(2,3) show ?thesis by (auto simp: log_good_def)
qed

theorem success_is_real_witness:
  "\<exists>l v. script toy [Write (Set ''a'' ''1''), Get ''a''] (empty_log, empty_world\<lparr>faults := [None, None, None, Some 0]\<rparr>) =
      (Inr [Done, Found (Some (Set ''a'' ''1''))], (l, v)) \<and> faults v = [Some 0] \<and> disk_map toy v = [''a'' \<mapsto> ''1'']"
proof -
  let ?as = "[Write (Set ''a'' ''1''), Get ''a'']" and ?fs = "[None, None, None, Some 0]"
  have "entry_ok toy (Set ''a'' ''1'')" by (rule toy_entry_ok) simp_all
  from fine_write [OF this] obtain h v where
    w: "log_write toy (Set ''a'' ''1'') (empty_log, empty_world\<lparr>faults := ?fs\<rparr>) =
      (Inr (), (empty_log\<lparr>wal_file := h, log_memtable := inserted toy (Set ''a'' ''1'') memtable_new\<rparr>, v))"
      "faults v = [Some 0]" by blast
  then have s: "script toy ?as (empty_log, empty_world\<lparr>faults := ?fs\<rparr>) = (Inr [Done, Found (Some (Set ''a'' ''1''))],
      (empty_log\<lparr>wal_file := h, log_memtable := inserted toy (Set ''a'' ''1'') memtable_new\<rparr>, v))"
    by (simp add: bindS_def log_get_def memtable_get_inserted visible_def)
  have room: "log_room toy (length ?as) (empty_log, empty_world)" by (rule empty_log_room) simp
  have sub: "\<forall>e. Write e \<in> set ?as \<longrightarrow> e \<in> toy_entries" by (auto simp: toy_entries_def)
  from success_is_real [OF toy_inv room sub _ s] s w(2) show ?thesis by auto
qed

text \<open>
  C15. A flush in which any call fails at any point, the new table cut off anywhere, of a store
  whose entries have no record inside their own records. The process that ran it and a process
  that opens the store on the files it left answer from the same map. This is the map from before
  the flush, if the flush returned or no compaction was due; if a compaction was due and did not
  come to its end, a key without a value, deleted as it may have been, can be back with one that
  an entry of the old files had. No key that had a value loses or changes it.
\<close>

theorem flush_survives_faults:
  assumes "log_inv X U (l, w)" and "\<forall>e \<in> U. unnested X e" and "log_room X 1 (l, w)"
    and "memtable_values (log_memtable l) \<noteq> []" and "log_flush X (l, w\<lparr>faults := fs\<rparr>) = (r, (l', v))"
  shows "\<exists>M. both_answer X l' v M \<and> resurfaced (stored_entries X w) (disk_map X w) M \<and>
    (\<forall>k x. disk_map X w k = Some x \<longrightarrow> M k = Some x) \<and>
    (r = Inr () \<or> \<not> compaction_due l \<longrightarrow> M = disk_map X w)"
proof -
  have "log_busy X 0 (l, w)" using log_room_busy [of X 0] assms(3) by simp
  from log_flush_faults [OF assms(1,2) this assms(4,5)] obtain M where
    "both_answer X l' v M" "resurfaced (stored_entries X w) (disk_map X w) M"
    "r = Inr () \<or> \<not> compaction_due l \<longrightarrow> M = disk_map X w" by metis
  moreover from this(2) have "\<forall>k x. disk_map X w k = Some x \<longrightarrow> M k = Some x" by (metis option.simps(3) resurfaced_def)
  ultimately show ?thesis by blast
qed

theorem flush_survives_faults_witness:
  "\<exists>l' v l2 r. log_flush toy (one_log, one_world\<lparr>faults := [None, None, None, Some 5]\<rparr>) = (r, (l', v)) \<and>
    fst (log_get toy ''a'' (l', calm v)) = Inr (Some (Set ''a'' ''1'')) \<and>
    log_new toy False (calm v) = (Inr l2, calm v) \<and>
    fst (log_get toy ''a'' (l2, calm v)) = Inr (Some (Set ''a'' ''1''))"
proof -
  have nd: "\<not> compaction_due one_log"
    by (simp add: compaction_due_def COMPACT_EVERY_N_FLUSHES_def saturating_add_def)
  have ne: "memtable_values (log_memtable one_log) \<noteq> []" by simp
  have u: "\<forall>e \<in> toy_entries. unnested toy e" using toy_unnested by blast
  have room: "log_room toy 1 (one_log, one_world)" by (rule one_room) simp
  obtain r l' v where f: "log_flush toy (one_log, one_world\<lparr>faults := [None, None, None, Some 5]\<rparr>) = (r, (l', v))"
    by (metis surj_pair)
  from flush_survives_faults [OF one_inv u room ne f] nd f show ?thesis
    by (fastforce simp: answers_def both_answer_def one_disk_map)
qed



text \<open>
  C17. A compaction whose deletions break off after the \<open>j\<close>th: the files it leaves are a store
  again, every key that had a value has the same value, and a key without a value stays so
  unless one of the old tables that were not deleted yet has an entry for it; then that old
  entry is what a lookup finds, deleted as the key may have been.
\<close>

theorem compaction_interrupted:
  assumes "disk_ok X U w" and "faults w = []" and "clock_ok (length (compacted X (tables_of X w))) w"
    and "j < length (ssts w)"
    and "remove_files (sort_desc (map fst (ssts w)))
      ((before_deletions X w)\<lparr>faults := replicate j None @ [Some b]\<rparr>) = (r, v)"
  shows "compact X w = remove_files (sort_desc (map fst (ssts w))) (before_deletions X w) \<and>
    r = Inl IoError \<and> disk_ok X U v \<and>
    (\<forall>k. disk_map X v k = (case disk_map X w k of Some x \<Rightarrow> Some x | None \<Rightarrow>
      if k \<in> entry_key ` set (wal_entries X w) then None
      else case newest (drop j (newest_first (tables_of X w))) k of None \<Rightarrow> None | Some e \<Rightarrow> entry_value e))"
  using compaction_cut [OF assms] by (simp add: revived_def)

theorem compaction_interrupted_witness:
  "\<exists>v. disk_map toy toy_world ''a'' = None \<and>
    remove_files (sort_desc (map fst (ssts toy_world)))
      ((before_deletions toy toy_world)\<lparr>faults := [None, Some 0]\<rparr>) = (Inl IoError, v) \<and>
    disk_ok toy toy_entries v \<and> disk_map toy v ''a'' = Some ''1''"
proof -
  have "length (compacted toy toy_tables) \<le> 3"
    using compacted_length(2) [OF toy_holds] by (simp add: toy_tables_def)
  then have ck: "clock_ok (length (compacted toy (tables_of toy toy_world))) toy_world"
    by (intro toy_clock_ok) (simp add: toy_tables_of)
  have j: "1 < length (ssts toy_world)" by (simp add: toy_tables_def)
  have f: "faults toy_world = []" by simp
  obtain r v where v: "remove_files (sort_desc (map fst (ssts toy_world)))
      ((before_deletions toy toy_world)\<lparr>faults := replicate 1 None @ [Some 0]\<rparr>) = (r, v)" by (metis surj_pair)
  note c = compaction_interrupted [OF toy_disk_ok f ck j v]
  have "disk_map toy v ''a'' = Some ''1''"
    using c by (simp add: toy_disk_map wal_entries_empty toy_tables_of toy_newest)
  with c v show ?thesis by (simp add: toy_disk_map)
qed

text \<open>
  C18. Writes by a client that goes on whatever happens, when any call to the operating system
  can fail at any point, partial writes included: the running process answers from the map of
  exactly the writes that returned. If moreover the calls that fail leave nothing of their bytes
  behind, a process that opens the store later finds a map in which every write that returned is
  applied, and of those that failed any subset, all in order. (Parts of records in the middle of
  the WAL can do harm: C36.)
\<close>

theorem writes_survive_faults:
  assumes "log_inv X U (l, w)" and "intact X w" and "set es \<subseteq> U"
    and "length (wal_entries X w) + length es \<le> MAX_WAL_ENTRIES" and "length (ssts w) < 2 ^ 64"
    and "write_run X es (l, w\<lparr>faults := fs\<rparr>) = (rs, (l', v))"
  shows "answers X l' (calm v) (fold apply_entry (pick (map (\<lambda>r. r = Inr ()) rs) es) (disk_map X w)) \<and>
    (set fs \<subseteq> {None, Some 0} \<longrightarrow> (\<exists>kept l2. list_all2 (\<lambda>r b. r = Inr () \<longrightarrow> b) rs kept \<and> length kept = length es \<and>
      wal v = wal w @ records_bytes X (pick kept es) \<and> log_new X False (calm v) = (Inr l2, calm v) \<and>
      answers X l2 (calm v) (fold apply_entry (pick kept es) (disk_map X w))))"
proof -
  have f: "faulty X U (wal_entries X w) (l, w\<lparr>faults := fs\<rparr>)" by (rule faulty_inv [OF assms(1)])
  note run = write_run_faulty [OF f assms(3,4,6)]
  then have "answers X l' (calm v) (fold apply_entry (pick (map (\<lambda>r. r = Inr ()) rs) es) (disk_map X w))"
    using faulty_answers_more [of X U w _ l' v] by simp
  moreover have "\<exists>kept l2. list_all2 (\<lambda>r b. r = Inr () \<longrightarrow> b) rs kept \<and> length kept = length es \<and>
      wal v = wal w @ records_bytes X (pick kept es) \<and> log_new X False (calm v) = (Inr l2, calm v) \<and>
      answers X l2 (calm v) (fold apply_entry (pick kept es) (disk_map X w))" if "set fs \<subseteq> {None, Some 0}"
  proof -
    have "untorn (w\<lparr>faults := fs\<rparr>)" using that by (simp add: untorn_def)
    from write_run_untorn [OF f assms(3,4) this assms(6)] obtain kept where
      k: "wal v = wal w @ records_bytes X (pick kept es)" "list_all2 (\<lambda>r b. r = Inr () \<longrightarrow> b) rs kept" by auto
    have "length kept = length es" using list_all2_lengthD [OF k(2)] run by simp
    moreover obtain l2 where "log_new X False (calm v) = (Inr l2, calm v)"
        "answers X l2 (calm v) (fold apply_entry (pick kept es) (disk_map X w))"
      using reopened_picked [OF assms(1-5) _ k(1)] run by auto
    ultimately show ?thesis using k by blast
  qed
  ultimately show ?thesis by blast
qed

theorem writes_survive_faults_witness:
  "\<exists>l' v kept l2. write_run toy [Set ''a'' ''1'', Set ''b'' ''3''] (empty_log, empty_world\<lparr>faults := [None, Some 0]\<rparr>) =
      ([Inl IoError, Inr ()], (l', v)) \<and>
    fst (log_get toy ''a'' (l', calm v)) = Inr None \<and> fst (log_get toy ''b'' (l', calm v)) = Inr (Some (Set ''b'' ''3'')) \<and>
    log_new toy False (calm v) = (Inr l2, calm v) \<and> fst (log_get toy ''b'' (l2, calm v)) = Inr (Some (Set ''b'' ''3''))"
proof -
  let ?es = "[Set ''a'' ''1'', Set ''b'' ''3'']" and ?fs = "[None, Some 0] :: nat option list"
  obtain l' v where e: "write_run toy ?es (empty_log, empty_world\<lparr>faults := ?fs\<rparr>) = ([Inl IoError, Inr ()], (l', v))"
    by (rule toy_write_run)
  have s: "set ?es \<subseteq> toy_entries" "length (wal_entries toy empty_world) + length ?es \<le> MAX_WAL_ENTRIES"
      "length (ssts empty_world) < 2 ^ 64" "set ?fs \<subseteq> {None, Some 0}"
    by (simp_all add: toy_entries_def MAX_WAL_ENTRIES_def)
  from writes_survive_faults [OF toy_inv empty_intact(2) s(1-3) e] s(4)
  obtain kept l2 where k: "answers toy l' (calm v) [''b'' \<mapsto> ''3'']"
      "list_all2 (\<lambda>r b. r = Inr () \<longrightarrow> b) [Inl IoError, Inr () :: err + unit] kept"
      "log_new toy False (calm v) = (Inr l2, calm v)" "answers toy l2 (calm v) (fold apply_entry (pick kept ?es) Map.empty)"
    by (auto simp: apply_entry_def)
  obtain b where "kept = [b, True]" using k(2) by (auto simp: list_all2_Cons1)
  with k(4) have "fst (log_get toy ''b'' (l2, calm v)) = Inr (Some (Set ''b'' ''3''))"
    by (simp add: answers_def apply_entry_def)
  with e k(1,3) show ?thesis by (fastforce simp: answers_def)
qed

section \<open>Opening and flushing\<close>

text \<open>
  C19. Opening a store directory: without \<open>truncate\<close> the memtable is the replay of the WAL and
  nothing on disk changes; with it the WAL is emptied, and what is left is the map of the
  tables alone. Either way the flush count starts at the number of tables.
\<close>

theorem open_store:
  assumes "disk_ok X U w" and "faults w = []" and "length (ssts w) < 2 ^ 64"
  shows "(\<exists>l. log_new X False w = (Inr l, w) \<and> log_inv X U (l, w) \<and>
      log_memtable l = memtable_of X (wal_entries X w) \<and> flush_count l = length (ssts w)) \<and>
    (\<exists>l. log_new X True w = (Inr l, w\<lparr>wal := []\<rparr>) \<and> log_inv X U (l, w\<lparr>wal := []\<rparr>) \<and>
      log_memtable l = memtable_new \<and>
      (\<forall>k. disk_map X (w\<lparr>wal := []\<rparr>) k = (case store_get (tables_of X w) k of None \<Rightarrow> None | Some e \<Rightarrow> entry_value e)))"
proof -
  have "disk_map X (w\<lparr>wal := []\<rparr>) k = (case store_get (tables_of X w) k of None \<Rightarrow> None | Some e \<Rightarrow> entry_value e)" for k
    using tables_of_cong [of "w\<lparr>wal := []\<rparr>" w X]
    by (simp add: disk_map_def latest_def wal_entries_empty)
  with log_new_ok [OF assms] log_new_truncate [OF assms] log_invD(4) show ?thesis by fastforce
qed

theorem open_store_witness:
  "\<exists>l. log_new toy True one_world = (Inr l, one_world\<lparr>wal := []\<rparr>) \<and> log_memtable l = memtable_new \<and>
    disk_map toy (one_world\<lparr>wal := []\<rparr>) ''a'' = None"
proof -
  have len: "length (ssts one_world) < 2 ^ 64" by simp
  have f: "faults one_world = []" by simp
  have "store_get [] ''a'' = None" by (simp add: store_get_def newest_first_def sort_desc_def)
  with open_store [OF log_invD(1) [OF one_inv] f len] show ?thesis by auto
qed

text \<open>
  C20. The memtable is bounded: after the flush check that ends every writing command its
  tracked size is at most 4 MiB, whatever it was before, and the map is the same.
\<close>

theorem flush_check_bounds_memtable:
  assumes "log_inv X U (l, w)" and "log_busy X n (l, w)"
  shows "\<exists>l' w'. maybe_flush X (l, w) = (Inr (), (l', w')) \<and> tracked (log_memtable l') \<le> 4 * 2 ^ 20 \<and>
    log_inv X U (l', w') \<and> disk_map X w' = disk_map X w \<and> log_room X n (l', w')"
  using maybe_flush_ok [OF assms] by (fastforce simp: should_flush_iff)

theorem flush_check_bounds_memtable_witness:
  "\<exists>l' w'. maybe_flush toy (one_log, one_world) = (Inr (), (l', w')) \<and> tracked (log_memtable l') \<le> 4 * 2 ^ 20 \<and>
    disk_map toy w' = disk_map toy one_world"
proof -
  have "log_busy toy 1 (one_log, one_world)"
    using store.room_busy [of toy 1 "(one_log, one_world)"] one_room [of 2] by (simp add: numeral_2_eq_2)
  from flush_check_bounds_memtable [OF one_inv this] show ?thesis by blast
qed

section \<open>Records on disk\<close>

text \<open>
  C21. A record decodes to the entry it was made of, and to its own length, whatever bytes
  follow it.
\<close>

theorem record_roundtrip:
  assumes "entry_ok X e"
  shows "\<exists>bs. header_serialize X e = Inr bs \<and> (\<forall>rest. header_deserialize X (bs @ rest) = Inr (e, length bs))"
  using header_serialize_ok [OF assms] header_deserialize_record [OF assms] by blast

theorem record_roundtrip_witness:
  "\<exists>bs. header_serialize toy (Delete ''key'') = Inr bs \<and>
    header_deserialize toy (bs @ [1, 2, 3]) = Inr (Delete ''key'', length bs)"
proof -
  have "entry_ok toy (Delete ''key'')" by (rule toy_entry_ok) simp_all
  from record_roundtrip [OF this] show ?thesis by blast
qed

text \<open>
  C22. Exactly which bytes decode: the magic number, the checksum and the length of a payload
  wincode accepts, then that payload, then anything. Nothing else is ever taken for a record.
\<close>

theorem decode_exact:
  "header_deserialize X bs = Inr (e, n) \<longleftrightarrow> (\<exists>p rest.
     bs = u16_to_le_bytes MAGIC @ u32_to_le_bytes (crc32 X p) @ u32_to_le_bytes (of_nat (length p)) @ p @ rest \<and>
     p @ rest \<noteq> [] \<and> length p < 2 ^ 32 \<and> wincode_deserialize X p = Some e \<and> n = 10 + length p)"
  using header_deserialize_Inr_iff [of X bs e n] by (simp add: HEADER_LEN_def)

text \<open>
  C23. The reader gets over damage: in a file of records with any bytes in the middle that do
  not decode at any offset, it returns all records before and after them.
\<close>

theorem reader_skips_damage:
  assumes "list_all (entry_ok X) es" and "list_all (entry_ok X) fs"
    and "quiet X junk (records_bytes X fs)"
  shows "read_records X (records_bytes X es @ junk @ records_bytes X fs) = es @ fs"
proof -
  have "read_records X (concat (map (record_bytes X) es) @ junk @ concat (map (record_bytes X) fs) @ []) =
      es @ fs @ read_records X []"
    using assms(3) by (intro hdr.read_all_damage assms(1,2)) (simp add: quiet_iff records_bytes_def)
  then show ?thesis by (simp add: records_bytes_def hdr.read_all_None)
qed

theorem reader_skips_damage_witness:
  "read_records toy (records_bytes toy [Set ''a'' ''1''] @ [1, 2, 3] @ records_bytes toy [Delete ''a'']) =
    [Set ''a'' ''1'', Delete ''a'']"
proof -
  have ok: "list_all (entry_ok toy) [Set ''a'' ''1'']" "list_all (entry_ok toy) [Delete ''a'']"
    by (auto intro!: toy_entry_ok)
  have "quiet toy [1, 2, 3] (records_bytes toy [Delete ''a''])" by (rule quiet_no_magic) simp
  from reader_skips_damage [OF ok this] show ?thesis by simp
qed

text \<open>
  C24. While no system call fails, opening a file in the table directory is never an error,
  whatever bytes it holds, and reading it finds only entries that its bytes really contain: a
  lookup in it returns an entry of the wanted key that some record of the file decodes to.
\<close>

theorem any_file_is_readable:
  assumes "faults w = []" and "n \<in> set (map fst (ssts w))" and "length (contents w (Sst n)) < 2 ^ 64"
  shows "\<exists>opt. from_path X n w = (Inr opt, w) \<and> (\<forall>t. opt = Some t \<longrightarrow>
    (\<exists>x t'. find_in_table X k (t, w) = (Inr x, (t', w)) \<and>
      (\<forall>e. x = Some e \<longrightarrow> entry_key e = k \<and> e \<in> set (read_records X (contents w (Sst n))))))"
proof -
  obtain opt where o: "from_path X n w = (Inr opt, w)" "\<forall>t. opt = Some t \<longrightarrow> table_file t = \<lparr>fid = Sst n, cur = 0\<rparr>"
    using from_path_total [OF assms] by blast
  have "\<exists>x t'. find_in_table X k (t, w) = (Inr x, (t', w)) \<and>
      (\<forall>e. x = Some e \<longrightarrow> entry_key e = k \<and> e \<in> set (read_records X (contents w (Sst n))))"
    if "table_file t = \<lparr>fid = Sst n, cur = 0\<rparr>" for t
    using find_in_table_sound [OF assms(1), of t X k] assms(3) that by simp
  with o show ?thesis by blast
qed

theorem any_file_is_readable_witness:
  "\<exists>opt. from_path toy ''junk'' (empty_world\<lparr>ssts := [(''junk'', [1, 2, 3, 4, 5])]\<rparr>) =
    (Inr opt, empty_world\<lparr>ssts := [(''junk'', [1, 2, 3, 4, 5])]\<rparr>)"
proof -
  let ?w = "empty_world\<lparr>ssts := [(''junk'', [1, 2, 3, 4, 5])]\<rparr>"
  have "faults ?w = []" "''junk'' \<in> set (map fst (ssts ?w))" "length (contents ?w (Sst ''junk'')) < 2 ^ 64"
    by (simp_all add: contents_Sst)
  from any_file_is_readable [OF this, of toy] show ?thesis by blast
qed

text \<open>
  C25. Every entry the reader returns takes it forward: under any faults, a
  \<open>header_read_next\<close> that returns an entry moves the cursor by at least one byte, stays
  within the file and changes no file, so every loop over it ends.
\<close>

theorem reader_advances:
  assumes "header_read_next X (h, w) = (Inr (Some e), (h', w'))"
  shows "cur h < cur h' \<and> cur h' \<le> length (contents w (fid h)) \<and> fid h' = fid h \<and> wal w' = wal w \<and> ssts w' = ssts w"
  using header_read_next_progress [OF assms] by (simp add: same_disk_def)

theorem reader_advances_witness:
  "\<exists>h' w'. header_read_next toy (\<lparr>fid = Wal, cur = 0\<rparr>, one_world) = (Inr (Some (Set ''a'' ''1'')), (h', w')) \<and> 0 < cur h'"
proof -
  have "header_deserialize toy (record_bytes toy (Set ''a'' ''1'') @ []) = Inr (Set ''a'' ''1'', length (record_bytes toy (Set ''a'' ''1'')))"
    by (rule header_deserialize_record) (simp add: toy_entry_ok)
  then have "scan_windows toy 0 (records_bytes toy [Set ''a'' ''1'']) = Some (0, Set ''a'' ''1'', length (record_bytes toy (Set ''a'' ''1'')))"
    using hdr.scan_enc [of toy "Set ''a'' ''1''" 0 "[]"] by (simp add: toy_entry_ok)
  then have r: "header_read_next toy (\<lparr>fid = Wal, cur = 0\<rparr>, one_world) = (Inr (Some (Set ''a'' ''1'')),
      (\<lparr>fid = Wal, cur = length (record_bytes toy (Set ''a'' ''1''))\<rparr>, one_world))"
    by (simp add: header_read_next_ok HEADER_LEN_def payload_def toy_def put_string_def)
  from reader_advances [OF r] r show ?thesis by auto
qed

section \<open>The memtable and its tables\<close>

text \<open>
  C26. Processing an entry returns the one it replaces, updates the map at the entry's key and
  nowhere else, and keeps the invariant: distinct keys in ascending order, each with an entry
  of that key, and a tracked size that is exactly the sum of the sizes of what is stored.
\<close>

theorem process_updates:
  assumes "memtable_wf X m" and "entry_ok X e" and "tracked m + esize X e < 2 ^ 64"
  shows "\<exists>m'. process X e m = (Inr (memtable_get m (entry_key e)), m') \<and> memtable_wf X m' \<and>
    (\<forall>k. memtable_get m' k = (if k = entry_key e then Some e else memtable_get m k)) \<and>
    sorted_wrt (<) (map entry_key (memtable_values m')) \<and>
    tracked m' = (\<Sum>d \<leftarrow> memtable_values m'. length (entry_key d) + length (payload X d))"
proof -
  note wf = inserted_wf [OF assms]
  have esize: "esize X = (\<lambda>d. length (entry_key d) + length (payload X d))"
    by (rule ext) (simp add: esize_def)
  have "tracked (inserted X e m) = (\<Sum>d \<leftarrow> memtable_values (inserted X e m). length (entry_key d) + length (payload X d))"
    using wf esize by (simp add: memtable_wf_def esizes_def)
  with process_ok [OF assms] wf memtable_get_inserted memtable_values_sorted [OF wf] show ?thesis by blast
qed

theorem process_updates_witness:
  "\<exists>m'. process toy (Delete ''a'') (log_memtable one_log) = (Inr (Some (Set ''a'' ''1'')), m') \<and>
    memtable_get m' ''a'' = Some (Delete ''a'')"
proof -
  have ok: "entry_ok toy (Set ''a'' ''1'')" "entry_ok toy (Delete ''a'')" by (simp_all add: toy_entry_ok)
  have s: "esize toy (Set ''a'' ''1'') = 23" "esize toy (Delete ''a'') = 14"
    by (simp_all add: esize_def payload_def toy_def put_string_def)
  have wf: "memtable_wf toy (log_memtable one_log)"
    using inserted_wf [OF memtable_new_wf ok(1)] s by (simp add: one_log_def)
  have "tracked (log_memtable one_log) \<le> tracked memtable_new + esize toy (Set ''a'' ''1'')"
    using tracked_inserted [of toy memtable_new] by (simp add: one_log_def)
  then have "tracked (log_memtable one_log) + esize toy (Delete ''a'') < 2 ^ 64" using s by simp
  moreover have "memtable_get (log_memtable one_log) ''a'' = Some (Set ''a'' ''1'')"
    by (simp add: one_log_def memtable_get_inserted)
  ultimately show ?thesis using process_updates [OF wf ok(2)] by auto
qed

text \<open>
  C27. Replaying a WAL, damaged or not, gives the memtable of exactly the entries its bytes
  hold, the last entry of each key winning.
\<close>

theorem replay_reads_all:
  assumes "faults w = []" and "length (contents w (fid h)) < 2 ^ 64"
    and "list_all (entry_ok X) (read_records X (contents w (fid h)))"
    and "length (read_records X (contents w (fid h))) \<le> 2 ^ 29"
  shows "\<exists>m h'. from_file X (h, w) = (Inr m, (h', w)) \<and> memtable_wf X m \<and>
    (\<forall>k. memtable_get m k = lookup_entry (rev (read_records X (contents w (fid h)))) k)"
proof -
  obtain h' where "from_file X (h, w) = (Inr (memtable_of X (read_records X (contents w (fid h)))), (h', w))"
    using from_file_reads [OF assms] by blast
  with memtable_of_facts(1,5) [OF assms(3,4)] show ?thesis by blast
qed

theorem replay_reads_all_witness:
  "\<exists>m h'. from_file toy (\<lparr>fid = Wal, cur = 7\<rparr>, one_world) = (Inr m, (h', one_world)) \<and>
    memtable_get m ''a'' = Some (Set ''a'' ''1'')"
proof -
  let ?h = "\<lparr>fid = Wal, cur = 7\<rparr>"
  have es: "read_records toy (contents one_world (fid ?h)) = [Set ''a'' ''1'']"
    using one_simps(6) by (simp only: wal_entries_def contents.simps fh.simps)
  have f: "faults one_world = []" by simp
  have len: "length (contents one_world (fid ?h)) < 2 ^ 64"
    by (simp add: HEADER_LEN_def payload_def toy_def put_string_def)
  have ok: "list_all (entry_ok toy) (read_records toy (contents one_world (fid ?h)))"
    by (simp only: es list.pred_inject) (simp add: toy_entry_ok)
  have n: "length (read_records toy (contents one_world (fid ?h))) \<le> 2 ^ 29" by (simp only: es) simp
  from replay_reads_all [OF f len ok n] show ?thesis by (auto simp only: es) auto
qed

text \<open>
  C28. A memtable written to a table is read back from it: the flush writes the entries in key
  order and then the filter, the new file opens, a lookup in it finds for every key what the
  memtable had, and its filter lets all of these keys through.
\<close>

theorem table_roundtrip:
  assumes "faults w = []" and "memtable_wf X m" and "table_ok X (memtable_values m)" and "0 \<le> clock w (ticks w)"
  shows "\<exists>w' t. flush_to X (m, w) = (Inr (), (memtable_new, w')) \<and>
    ssts w' = AList.update (sst_name (nat (clock w (ticks w)))) (table_image X (memtable_values m)) (ssts w) \<and>
    from_path X (sst_name (nat (clock w (ticks w)))) w' = (Inr (Some t), w') \<and>
    (\<forall>k. \<exists>t'. find_in_table X k (t, w') = (Inr (memtable_get m k), (t', w'))) \<and>
    (\<forall>k. memtable_get m k \<noteq> None \<longrightarrow> may_contain X (table_filter t) (as_bytes k))"
proof -
  let ?es = "memtable_values m" and ?n = "sst_name (nat (clock w (ticks w)))"
  let ?w = "flushed X ?es w"
  note t = table_okD [OF assms(3)]
  have flush: "flush_to X (m, w) = (Inr (), (memtable_new, ?w))"
    using flush_to_ok [OF assms(1,2) t(1) _ assms(4)] t(4) by simp
  have ssts: "ssts ?w = AList.update ?n (table_image X ?es) (ssts w)" and f: "faults ?w = []"
    using assms(1) by (simp_all add: flushed_def)
  have "map_of (ssts ?w) ?n = Some (table_image X ?es)"
    using ssts by (simp add: next_name_def update_conv)
  from from_path_ok [OF f this assms(3)] obtain tb where tb: "from_path X ?n ?w = (Inr (Some tb), ?w)"
      "table_filter tb = bloom_of X (length ?es * 10) (map entry_key ?es)" "remaining X tb ?w ?es" by blast
  have "\<exists>t'. find_in_table X k (tb, ?w) = (Inr (memtable_get m k), (t', ?w))" for k
    using find_in_table_ok [OF f tb(3), of k] memtable_get_lookup [OF assms(2)] by simp
  moreover have "may_contain X (table_filter tb) (as_bytes k)" if "memtable_get m k \<noteq> None" for k
    using that memtable_get_lookup [OF assms(2), of k] lookup_entry_None_iff [of ?es k] tb(2)
    by (simp add: bloom_of_may_contain)
  ultimately show ?thesis using flush ssts tb(1) by blast
qed

theorem table_roundtrip_witness:
  "\<exists>w' t. flush_to toy (log_memtable one_log, one_world) = (Inr (), (memtable_new, w')) \<and>
    from_path toy (sst_name 1700000000000000) w' = (Inr (Some t), w') \<and>
    may_contain toy (table_filter t) (as_bytes ''a'')"
proof -
  have f: "faults one_world = []" by simp
  have "Set ''a'' ''1'' \<in> toy_entries" by (simp add: toy_entries_def)
  note one = toy_single [OF this]
  have wf: "memtable_wf toy (log_memtable one_log)" and t: "table_ok toy (memtable_values (log_memtable one_log))"
    using one by (simp_all add: one_log_def)
  have c: "0 \<le> clock one_world (ticks one_world)" by simp
  have "memtable_get (log_memtable one_log) ''a'' \<noteq> None" by (simp add: one_log_def memtable_get_inserted)
  with table_roundtrip [OF f wf t c] show ?thesis by auto
qed

section \<open>The filter\<close>

text \<open>
  C29. What the filter answers: a filter of any size in which some keys were inserted lets a key
  through exactly if all positions of the key are positions of those keys, so never refuses an
  inserted key; one without a bit lets every key through.
\<close>

theorem filter_answers:
  shows "(may_contain X (fold (bloom_insert X) ks (bloom_new n)) k \<longleftrightarrow>
      set (positions X k n) \<subseteq> (\<Union>j \<in> set ks. set (positions X j n))) \<and>
    (k \<in> set ks \<longrightarrow> may_contain X (fold (bloom_insert X) ks (bloom_new n)) k) \<and>
    may_contain X (fold (bloom_insert X) ks (bloom_new 0)) k"
  using may_contain_iff [of X ks n k] bloom.may_fold [of k ks X "bloom_new n"] may_contain_iff [of X ks 0 k] by simp

theorem filter_answers_witness:
  "may_contain toy_one (fold (bloom_insert toy_one) [[97]] (bloom_new 10)) [97] \<and>
    \<not> may_contain toy_one (fold (bloom_insert toy_one) [[97]] (bloom_new 10)) [122]"
  using filter_answers [of toy_one "[[97]]" 10 "[97]"] filter_answers [of toy_one "[[97]]" 10 "[122]"]
    toy_one_positions by (simp add: as_bytes_def byte_def)

section \<open>Parsing commands\<close>

text \<open>
  C30. What the parser accepts is well formed and has a normal form: a command parsed from any
  UTF-8 line has non-empty keys and values without white space, is parsed again from its
  normal form, and does not depend on white space around the line.
\<close>

theorem parse_normal_form:
  assumes "utf8_valid s"
  shows "try_from (str_trim s) = try_from s \<and>
    (\<forall>c. try_from s = Inr c \<longrightarrow> command_ok c \<and> try_from (command_text c) = Inr c)"
  using try_from_trim [OF assms] try_from_command_ok [OF assms] try_from_command_text by blast

theorem parse_normal_form_witness:
  "try_from '' S  a 1 '' = Inr (CSet ''a'' ''1'') \<and> try_from (command_text (CSet ''a'' ''1'')) = Inr (CSet ''a'' ''1'')"
proof -
  let ?s = "'' S  a 1 ''"
  have c: "chars_of ?s = Some (map (\<lambda>c. [c]) ?s)" by (rule chars_of_ascii) (simp add: byte_def)
  have v: "utf8_valid ?s" by (simp only: utf8_valid_def c) simp
  have "\<not> is_white_space ''S''" "\<not> is_white_space ''a''" "\<not> is_white_space ''1''"
    using is_white_space_single [of "CHR ''S''"] is_white_space_single [of "CHR ''a''"]
      is_white_space_single [of "CHR ''1''"] by (auto simp: byte_def)
  then have "split_whitespace ?s = [''S'', ''a'', ''1'']"
    by (simp add: split_whitespace_def str_chars_def c str_chars_space(2))
  moreover have "lowercase ''S'' = ''s''" by code_simp
  ultimately have "try_from ?s = Inr (CSet ''a'' ''1'')" by (simp add: try_from_def Let_def)
  with parse_normal_form [OF v] show ?thesis by blast
qed

text \<open>
  C31. Which lines are refused, and how: without a word, or with fewer arguments than the
  command takes, as \<open>missing required arguments\<close>; with more, as \<open>too many arguments\<close>; with a
  first word that is no command or alias, as \<open>unrecognized command\<close>. \<open>quit\<close> and \<open>help\<close> take any
  number of arguments.
\<close>

theorem parse_errors:
  "try_from s = Inl e \<longleftrightarrow> (case split_whitespace s of
       [] \<Rightarrow> e = MissingRequiredArguments
     | w # args \<Rightarrow>
         (case map_of ([(a, 2) . a \<leftarrow> [''set'', ''s'']] @ [(a, 1) . a \<leftarrow> [''get'', ''g'', ''delete'', ''del'', ''d'']])
            (lowercase w) of
           Some n \<Rightarrow> length args < n \<and> e = MissingRequiredArguments \<or> n < length args \<and> e = TooManyArguments
         | None \<Rightarrow> lowercase w \<notin> {''quit'', ''q'', ''exit'', ''help'', ''h''} \<and> e = UnrecognizedCommand))"
  by (auto simp: try_from_def one_key_def Let_def split: list.splits if_splits)

section \<open>Connections\<close>

text \<open>
  C32. What the connections wait for. A call that blocks, on a client that is idle or does not
  read its replies, is a thread without a step; let \<open>B\<close> be any set of such threads. After any run
  of the server another thread can go on, unless each of the others has come to its end or waits
  for the lock while a thread of \<open>B\<close> holds it. On the input that has been sent, and with no
  new connection, the threads make at most \<open>work\<close> further calls, whatever the schedule. And while
  the thread that has the lock does not go on, blocked as it may be in writing its reply, which it
  does under the lock, no other thread changes the store: one such client stops the commands of
  all others.
\<close>

theorem connections_end:
  assumes "server_start X w = (Inr m0, v)" and "machine_run X m0 cs m" and "machine_run X m es n"
  shows "((\<exists>i q. i \<notin> B \<and> machine_step X n (Serve i) q) \<or>
      (\<forall>i < length (threads n). i \<notin> B \<longrightarrow> stopped (threads n ! i) \<or>
        (\<exists>j c line. j \<in> B \<and> holder n = Some j \<and> thread_pc (threads n ! i) = Locking c line))) \<and>
    (list_all is_serve es \<longrightarrow> length es \<le> work m) \<and>
    (\<forall>j. holder m = Some j \<and> Serve j \<notin> set es \<longrightarrow> holder n = Some j \<and> mutex n = mutex m)"
proof -
  have m: "lock_ok m" using lock_ok_run [OF assms(2) server_start_lock_ok [OF assms(1)]] .
  have n: "lock_ok n" using lock_ok_run [OF assms(3) m] .
  have "(\<exists>i q. i \<notin> B \<and> machine_step X n (Serve i) q) \<or>
      (\<forall>i < length (threads n). i \<notin> B \<longrightarrow> stopped (threads n ! i) \<or>
        (\<exists>j c line. j \<in> B \<and> holder n = Some j \<and> thread_pc (threads n ! i) = Locking c line))"
    using progress_beside [OF n, of _ B X] by blast
  moreover have "list_all is_serve es \<longrightarrow> length es \<le> work m" using run_work [OF assms(3)] by auto
  ultimately show ?thesis using holder_keeps [OF assms(3) m] by blast
qed

theorem connections_end_witness:
  "\<exists>cs m n. machine_run toy toy_machine cs m \<and> holder m = Some 0 \<and> machine_run toy m [Serve 1] n \<and> \<not> stopped (threads n ! 1) \<and>
    holder n = Some 0 \<and> mutex n = mutex m \<and>
    ((\<exists>i q. i \<noteq> 0 \<and> machine_step toy n (Serve i) q) \<or> (\<exists>c line. thread_pc (threads n ! 1) = Locking c line))"
proof -
  obtain cs m n where r: "machine_run toy toy_machine cs m" "holder m = Some 0" "machine_run toy m [Serve 1] n"
      "length (threads n) = 2" "\<not> stopped (threads n ! 1)"
    by (rule toy_two_clients)
  have two: "1 < length (threads n)" "(1 :: nat) \<notin> {0}" using r(4) by simp_all
  note c = connections_end [OF toy_start r(1,3), of "{0}"]
  have "(\<exists>i q. i \<noteq> 0 \<and> machine_step toy n (Serve i) q) \<or> (\<exists>c line. thread_pc (threads n ! 1) = Locking c line)"
    using c [THEN conjunct1] r(5) two by blast
  moreover have "holder n = Some 0 \<and> mutex n = mutex m" using c r(2) by simp
  ultimately show ?thesis using r by blast
qed

text \<open>
  C33. The lock does its work: in every run of the server at most one thread is between taking
  the lock and giving it back, so no two commands are executed at a time, and a thread that is
  elsewhere in its loop does not hold the lock.
\<close>

theorem lock_excludes:
  assumes "server_start X w = (Inr m, v)" and "machine_run X m es n"
    and "i < length (threads n)" and "j < length (threads n)" and "holds_lock (thread_pc (threads n ! i))"
  shows "holder n = Some i \<and> (holds_lock (thread_pc (threads n ! j)) \<longleftrightarrow> j = i)"
  using lock_ok_run [OF assms(2) server_start_lock_ok [OF assms(1)]] assms(3-5)
  by (auto simp: lock_ok_def)

theorem lock_excludes_witness:
  "\<exists>es n. machine_run toy toy_machine es n \<and> holder n = Some 0"
proof -
  obtain n where n: "machine_run toy toy_machine [Accept toy_reader toy_writer, Serve 0, Serve 0] n"
      "length (threads n) = 1" "thread_pc (threads n ! 0) = Executing (CSet ''a'' ''1'') (command_line (CSet ''a'' ''1''))"
      "store (mutex n) = (empty_log, empty_world)" "thread_writer (threads n ! 0) = toy_writer"
    by (rule toy_holder)
  from lock_excludes [OF toy_start n(1), of 0 0] n show ?thesis by auto
qed

text \<open>
  C34. How the server stops. Without its address in the environment it touches nothing, not even
  the store; if the address cannot be bound, the store has been opened by then, and that is all.
  Once it listens, one connection that cannot be accepted ends the whole process, whatever the
  other connections are doing: no thread makes another call.
\<close>

theorem server_stops:
  shows "(env h ''ADDRESS'' = None \<or> env h ''PORT'' = None \<longrightarrow> server_main X h so se w = (Inl VarError, w)) \<and>
    (\<forall>a b. env h ''ADDRESS'' = Some a \<and> env h ''PORT'' = Some b \<and> bind_to h (a @ '':'' @ b) = None \<longrightarrow>
      server_main X h so se w = (case server_start X w of (Inl e, v) \<Rightarrow> (Inl e, v) | (Inr m, v) \<Rightarrow> (Inl IoError, v))) \<and>
    (\<forall>p q. ended p = None \<and> process_step X h p AcceptError q \<longrightarrow>
      ended q = Some (Inl IoError) \<and> running q = running p \<and> (\<forall>es u. process_run X h q es u \<longrightarrow> es = [] \<and> u = q))"
proof (intro conjI allI impI)
  fix p q es u
  assume p: "ended p = None \<and> process_step X h p AcceptError q"
  then show "ended q = Some (Inl IoError)" and "running q = running p" using listener_fails by blast+
  assume "process_run X h q es u"
  with p show "es = []" and "u = q" using listener_fails(3) by blast+
qed (simp_all only: server_main_no_env server_main_no_listener)

theorem server_stops_witness:
  "server_main toy (toy_host\<lparr>env := Map.empty\<rparr>) toy_writer toy_writer empty_world = (Inl VarError, empty_world) \<and>
    server_main toy (toy_host\<lparr>bind_to := \<lambda>_. None\<rparr>) toy_writer toy_writer empty_world = (Inl IoError, empty_world) \<and>
    (\<exists>p es q u. process_run toy toy_host p es q \<and> process_step toy toy_host q AcceptError u \<and>
      \<not> list_all stopped (threads (running u)) \<and> (\<forall>es v. process_run toy toy_host u es v \<longrightarrow> es = []))"
proof -
  let ?p = "\<lparr>running = toy_connected, terminal = toy_writer, stderr = toy_writer, ended = None\<rparr>"
  let ?u = "?p\<lparr>ended := Some (Inl IoError)\<rparr>"
  have u: "process_step toy toy_host ?p AcceptError ?u" by (rule process_step.accept_error) simp
  have "ended ?p = None" by simp
  with u have "\<forall>es v. process_run toy toy_host ?u es v \<longrightarrow> es = []"
    using server_stops [of toy_host toy toy_writer toy_writer empty_world, THEN conjunct2, THEN conjunct2, rule_format, of ?p ?u]
    by blast
  moreover have "\<not> list_all stopped (threads (running ?u))"
    using toy_connected_facts(3) by (simp add: stopped_def new_thread_def)
  moreover note u process_start [of toy toy_host ?p]
  moreover have "server_main toy (toy_host\<lparr>env := Map.empty\<rparr>) toy_writer toy_writer empty_world = (Inl VarError, empty_world)"
    using server_stops [of "toy_host\<lparr>env := Map.empty\<rparr>" toy toy_writer toy_writer empty_world] by simp
  moreover have "server_main toy (toy_host\<lparr>bind_to := \<lambda>_. None\<rparr>) toy_writer toy_writer empty_world = (Inl IoError, empty_world)"
    using server_stops [of "toy_host\<lparr>bind_to := \<lambda>_. None\<rparr>" toy toy_writer toy_writer empty_world] toy_start [of toy]
    by (simp add: toy_host_def)
  ultimately show ?thesis by blast
qed

text \<open>
  C35. Nothing comes into the store but what its clients send: after any run of the server every
  entry on disk was there before or is the entry of a line that a connection has sent. The
  entries of lines are well typed: their keys and values are words, not empty, in UTF-8 and
  without white space, so that a line can ask for them.
\<close>

theorem store_holds_what_was_sent:
  assumes "disk_ok X U w" and "faults w = []" and "disk_room X (length es) w" and "\<forall>e \<in> set es. event_ok U e"
    and "server_start X w = (Inr m, w)" and "machine_run X m es n"
  shows "stored_entries X (snd (store (mutex n))) \<subseteq> stored_entries X w \<union> (\<Union>e \<in> set es. event_entries e) \<and>
    (\<forall>ev. \<forall>e \<in> event_entries ev. word_ok (entry_key e) \<and> (\<forall>v. entry_value e = Some v \<longrightarrow> word_ok v))"
  using server_stores [OF assms] event_entries_word by (auto simp: word_entry_def)

theorem store_holds_what_was_sent_witness:
  "\<exists>es n. machine_run toy toy_machine (Accept toy_reader toy_writer # es) n \<and> list_all stopped (threads n) \<and>
    stored_entries toy (snd (store (mutex n))) \<subseteq> {Set ''a'' ''1'', Delete ''a''}"
proof -
  obtain es n where n: "machine_run toy toy_machine (Accept toy_reader toy_writer # es) n"
      "list_all stopped (threads n)" "list_all is_serve es" "length es \<le> 175"
    by (rule toy_machine_run)
  let ?es = "Accept toy_reader toy_writer # es"
  have e: "\<forall>e \<in> set ?es. event_ok toy_entries e"
    using n(3) toy_input_ok by (auto simp: event_ok_def is_serve_def list_all_iff split: event.splits)
  have room: "disk_room toy (length ?es) empty_world"
    using empty_log_room [of "length ?es"] n(4) by (simp add: log_room_def)
  have "event_entries ev = {}" if "ev \<in> set es" for ev
    using n(3) that by (auto simp: event_entries_def is_serve_def list_all_iff split: event.splits)
  then have "(\<Union>e \<in> set ?es. event_entries e) = {Set ''a'' ''1'', Delete ''a''}"
    using toy_line_entries by (auto simp: event_entries_def)
  with store_holds_what_was_sent [OF empty_disk_ok [OF toy_universe] _ room e toy_start n(1)] n(1,2) show ?thesis by auto
qed

section \<open>Where the code and its documentation part\<close>

text \<open>
  C36. A write that breaks off can cost the next one. If the bytes that are missing of a record
  are the first bytes of the record written after it - one byte is enough, for an entry that ends
  in the letter C, the first magic byte - the two together are the first record and a rest: the
  second write returns and the running process answers from it, but the next process has the
  entry that was refused, and the one that was acknowledged is lost.
\<close>

theorem torn_write_swallows:
  assumes "log_inv X U (l, w)" and "intact X w" and "e \<in> U" and "d \<in> U" and "unnested X d"
    and "length (wal_entries X w) < MAX_WAL_ENTRIES" and "length (ssts w) < 2 ^ 64"
    and "record_bytes X e = h @ s" and "record_bytes X d = s @ t" and "s \<noteq> []"
  shows "\<exists>l1 v1 l2 v2 l3. log_write X e (l, w\<lparr>faults := [None, Some (length h)]\<rparr>) = (Inl IoError, (l1, v1)) \<and>
    log_write X d (l1, v1) = (Inr (), (l2, v2)) \<and> answers X l2 v2 (apply_entry d (disk_map X w)) \<and>
    log_new X False v2 = (Inr l3, v2) \<and> answers X l3 v2 (apply_entry e (disk_map X w))"
  by (rule write_swallowed [OF assms])

theorem torn_write_swallows_witness:
  "\<exists>l1 v1 l2 v2 l3. log_write toy (Set ''a'' ''C'') (empty_log, empty_world\<lparr>faults := [None, Some 31]\<rparr>) = (Inl IoError, (l1, v1)) \<and>
    log_write toy (Set ''b'' ''3'') (l1, v1) = (Inr (), (l2, v2)) \<and>
    fst (log_get toy ''b'' (l2, v2)) = Inr (Some (Set ''b'' ''3'')) \<and>
    log_new toy False v2 = (Inr l3, v2) \<and> fst (log_get toy ''b'' (l3, v2)) = Inr None"
proof -
  let ?e = "Set ''a'' ''C''" and ?d = "Set ''b'' ''3''" and ?U = "{Set ''a'' ''C'', Set ''b'' ''3''}"
  obtain h t where r: "record_bytes toy ?e = h @ [0x43]" "length h = 31" "record_bytes toy ?d = [0x43] @ t"
    by (rule toy_C_records)
  have u: "universe toy ?U" by (rule small_universe) (simp_all add: toy_entry_ok)
  have d: "unnested toy ?d" by (rule toy_unnested) (simp add: toy_entries_def)
  have len: "length (wal_entries toy empty_world) < MAX_WAL_ENTRIES" "length (ssts empty_world) < 2 ^ 64"
    by (simp_all add: MAX_WAL_ENTRIES_def)
  from torn_write_swallows [OF empty_log_inv [OF u] empty_intact(2) _ _ d len r(1,3)] r(2) show ?thesis
    by (fastforce simp: answers_def apply_entry_def)
qed

text \<open>
  C37. A record inside an entry. If the payload of an entry has the bytes of a record in it, and
  the write of the entry breaks off behind them, the next process takes them for a record: it
  replays an entry that nobody has written, and answers from it.
\<close>

theorem torn_write_forges:
  assumes "log_inv X U (l, w)" and "wal w = records_bytes X es" and "length (ssts w) < 2 ^ 64"
    and "list_all (entry_ok X) (es @ [e, d])" and "length es < 2 ^ 28"
    and "payload X e = a @ record_bytes X d @ b"
    and "quiet X (take (HEADER_LEN + length a) (record_bytes X e)) (record_bytes X d)"
    and "n = HEADER_LEN + length a + length (record_bytes X d)"
  shows "\<exists>l' v l2. log_write X e (l, w\<lparr>faults := [None, Some n]\<rparr>) = (Inl IoError, (l', v)) \<and>
    log_new X False v = (Inr l2, v) \<and> log_memtable l2 = memtable_of X (es @ [d]) \<and>
    fst (log_get X (entry_key d) (l2, v)) = Inr (visible d)"
proof -
  let ?bs = "records_bytes X es @ take n (record_bytes X e)" and ?v = "w\<lparr>wal := records_bytes X es @ take n (record_bytes X e)\<rparr>"
  have e: "entry_ok X e" and esd: "list_all (entry_ok X) (es @ [d])" using assms(4) by simp_all
  have we: "wal_entries X ?v = es @ [d]"
    using torn_record_read [OF _ _ assms(6-8), of es] assms(4) by (simp add: wal_entries_def)
  have i: "faults w = []" "fid (wal_file l) = Wal" using assms(1) by (simp_all add: log_inv_def)
  have "length ?bs < 2 ^ 64"
  proof -
    have "list_all (entry_ok X) (es @ [e])" using assms(4) by simp
    from length_records_bytes_le [OF this] have "length (records_bytes X (es @ [e])) \<le> Suc (length es) * 8589934602" by simp
    then show ?thesis using assms(5) by simp
  qed
  then obtain h where n: "log_new X False ?v = (Inr \<lparr>wal_file = h, log_memtable = memtable_of X (es @ [d]),
      flush_count = length (ssts ?v)\<rparr>, ?v)"
    using log_new_reads [of ?v X] i(1) esd assms(3,5) by (auto simp: we)
  have "memtable_get (memtable_of X (es @ [d])) (entry_key d) = Some d"
    using memtable_of_facts(5) [OF esd, of "entry_key d"] assms(5) by (simp add: lookup_entry_def)
  moreover have "log_write X e (l, w\<lparr>faults := [None, Some n]\<rparr>) = (Inl IoError, (l\<lparr>wal_file := (wal_file l)\<lparr>cur := length ?bs\<rparr>\<rparr>, ?v))"
    using log_write_torn [OF e i(1,2)] assms(2) by simp
  ultimately show ?thesis using n by (simp add: log_get_def)
qed

theorem torn_write_forges_witness:
  "\<exists>l l' v l2. disk_map toy_one xy_world ''xy'' = Some ''1'' \<and> command_ok (CSet ''k'' forged_value) \<and>
    log_write toy_one (Set ''k'' forged_value) (l, xy_world\<lparr>faults := [None, Some 55]\<rparr>) = (Inl IoError, (l', v)) \<and>
    log_new toy_one False v = (Inr l2, v) \<and> fst (log_get toy_one ''xy'' (l2, v)) = Inr None"
proof -
  let ?e = "Set ''k'' forged_value" and ?d = "Delete ''xy''"
  obtain l where l: "log_inv toy_one {Set ''xy'' ''1''} (l, xy_world)" "disk_map toy_one xy_world ''xy'' = Some ''1''"
    by (rule xy_store)
  have ok: "list_all (entry_ok toy_one) ([Set ''xy'' ''1''] @ [?e, ?d])"
    by (simp add: toy_one_entry_ok toy_entry_ok forged_value_bytes(2))
  then have e: "entry_ok toy_one ?e" by simp
  have n: "(55 :: nat) = HEADER_LEN + length forged_front + length (record_bytes toy_one ?d)" by (simp add: HEADER_LEN_def toy_one_record forged_front_def)
  have quiet: "quiet toy_one (take (HEADER_LEN + length forged_front) (record_bytes toy_one ?e)) (record_bytes toy_one ?d)"
    by (rule torn_head_quiet [OF e forged_head])
  have "command_ok (CSet ''k'' forged_value)" using forged_word by (simp add: command_ok_def word_ok_def utf8_valid_ascii ascii_text)
  moreover have w: "wal xy_world = records_bytes toy_one [Set ''xy'' ''1'']" "length (ssts xy_world) < 2 ^ 64"
    by (simp_all add: xy_world_def)
  from torn_write_forges [OF l(1) w ok _ forged_payload quiet n]
  have "\<exists>l' v l2. log_write toy_one ?e (l, xy_world\<lparr>faults := [None, Some 55]\<rparr>) = (Inl IoError, (l', v)) \<and>
      log_new toy_one False v = (Inr l2, v) \<and> fst (log_get toy_one ''xy'' (l2, v)) = Inr None"
    by (auto simp: visible_def)
  ultimately show ?thesis using l(2) by blast
qed

text \<open>
  C38. Two flushes at the same microsecond have the same file name, and the second replaces
  the first: after both the table has the entries of the second memtable only.
\<close>

theorem same_time_overwrites:
  assumes "faults w = []" and "memtable_wf X m1" and "table_ok X (memtable_values m1)"
    and "memtable_wf X m2" and "table_ok X (memtable_values m2)"
    and "0 \<le> clock w (ticks w)" and "clock w (Suc (ticks w)) = clock w (ticks w)"
    and "flush_to X (m1, w) = (r1, (n1, w1))" and "flush_to X (m2, w1) = (r2, (n2, w2))"
  shows "r1 = Inr () \<and> r2 = Inr () \<and>
    map_of (ssts w2) (sst_name (nat (clock w (ticks w)))) = Some (table_image X (memtable_values m2)) \<and>
    length (ssts w2) = length (ssts w1)"
proof -
  note t1 = table_okD [OF assms(3)] and t2 = table_okD [OF assms(5)]
  have 1: "r1 = Inr ()" "w1 = flushed X (memtable_values m1) w"
    using flush_to_ok [OF assms(1,2) t1(1) _ assms(6)] t1(4) assms(8) by simp_all
  have "faults w1 = []" "0 \<le> clock w1 (ticks w1)" using assms(1,6,7) 1(2) by simp_all
  from flush_to_ok [OF this(1) assms(4) t2(1) _ this(2)] t2(4) assms(9)
  have 2: "r2 = Inr ()" "w2 = flushed X (memtable_values m2) w1" by simp_all
  have n: "next_name w1 = next_name w" using 1(2) assms(7) by (simp add: next_name_def)
  have "next_name w1 \<in> fst ` set (ssts w1)" using names_flushed [of X _ w] 1(2) n by simp
  then have "length (ssts w2) = length (ssts w1)" using 2(2) length_update_known by simp
  with 1(1) 2 n show ?thesis by (simp add: update_conv next_name_def)
qed

theorem same_time_overwrites_witness:
  "\<exists>r1 n1 w1 r2 n2 w2. flush_to toy (inserted toy (Set ''a'' ''1'') memtable_new, empty_world\<lparr>clock := \<lambda>_. 7\<rparr>) = (r1, (n1, w1)) \<and>
    flush_to toy (inserted toy (Set ''b'' ''3'') memtable_new, w1) = (r2, (n2, w2)) \<and>
    map_of (ssts w2) (sst_name 7) = Some (table_image toy [Set ''b'' ''3''])"
proof -
  let ?w = "empty_world\<lparr>clock := \<lambda>_. 7\<rparr>"
  have e: "Set ''a'' ''1'' \<in> toy_entries" "Set ''b'' ''3'' \<in> toy_entries" by (simp_all add: toy_entries_def)
  note a = toy_single [OF e(1)] and b = toy_single [OF e(2)]
  have w: "faults ?w = []" "0 \<le> clock ?w (ticks ?w)" "clock ?w (Suc (ticks ?w)) = clock ?w (ticks ?w)" by simp_all
  obtain r1 n1 w1 where 1: "flush_to toy (inserted toy (Set ''a'' ''1'') memtable_new, ?w) = (r1, (n1, w1))"
    by (metis surj_pair)
  obtain r2 n2 w2 where 2: "flush_to toy (inserted toy (Set ''b'' ''3'') memtable_new, w1) = (r2, (n2, w2))"
    by (metis surj_pair)
  from same_time_overwrites [OF w(1) a(1,3) b(1,3) w(2,3) 1 2] 1 2 show ?thesis by (simp add: b(2))
qed

text \<open>
  C39. A read error while the WAL is replayed is taken for its end: if one of the six calls that
  read the record after the first \<open>k\<close> fails, opening the store succeeds, and the memtable has the
  first \<open>k\<close> entries only, although all of them are in the WAL, which is as it was.
\<close>

theorem read_error_taken_for_end:
  assumes "faults w = []" and "wal w = records_bytes X es" and "list_all (entry_ok X) es" and "length es \<le> 2 ^ 29"
    and "k < length es" and "j < 6" and "length (ssts w) < 2 ^ 64"
  shows "\<exists>l. log_new X False (w\<lparr>faults := replicate (4 + 6 * k + j) None @ [Some b]\<rparr>) = (Inr l, w) \<and>
    wal_entries X w = es \<and> (\<forall>key. memtable_get (log_memtable l) key = lookup_entry (rev (take k es)) key)"
proof -
  obtain h where "log_new X False (w\<lparr>faults := replicate (4 + 6 * k + j) None @ [Some b]\<rparr>) =
      (Inr \<lparr>wal_file = h, log_memtable = memtable_of X (take k es), flush_count = length (ssts w)\<rparr>, w)"
    using log_new_cut [OF assms] by blast
  moreover have "list_all (entry_ok X) (take k es)" using assms(3) by (simp add: list_all_iff) (meson in_set_takeD)
  from memtable_of_facts(5) [OF this] have "memtable_get (memtable_of X (take k es)) key = lookup_entry (rev (take k es)) key" for key
    using assms(4) by simp
  ultimately show ?thesis using assms(2,3) by (simp add: wal_entries_def read_records_bytes)
qed

theorem read_error_taken_for_end_witness:
  "\<exists>l w. wal w = records_bytes toy [Set ''a'' ''1'', Set ''b'' ''3''] \<and> ssts w = [] \<and>
    log_new toy False (w\<lparr>faults := replicate 14 None @ [Some 0]\<rparr>) = (Inr l, w) \<and>
    memtable_get (log_memtable l) ''a'' = Some (Set ''a'' ''1'') \<and> memtable_get (log_memtable l) ''b'' = None"
proof -
  let ?es = "[Set ''a'' ''1'', Set ''b'' ''3'']"
  let ?w = "empty_world\<lparr>wal := records_bytes toy ?es\<rparr>"
  have "faults ?w = []" "wal ?w = records_bytes toy ?es" "list_all (entry_ok toy) ?es" "length ?es \<le> 2 ^ 29"
      "1 < length ?es" "(4 :: nat) < 6" "length (ssts ?w) < 2 ^ 64"
    by (simp_all add: toy_entry_ok)
  from read_error_taken_for_end [OF this, of 0] obtain l where
    l: "log_new toy False (?w\<lparr>faults := replicate 14 None @ [Some 0]\<rparr>) = (Inr l, ?w)"
      "\<forall>key. memtable_get (log_memtable l) key = lookup_entry (rev (take 1 ?es)) key" by auto
  then have "memtable_get (log_memtable l) ''a'' = Some (Set ''a'' ''1'')" "memtable_get (log_memtable l) ''b'' = None"
    by (simp_all add: lookup_entry_def)
  with l(1) show ?thesis by (intro exI [of _ l] exI [of _ ?w]) simp
qed

section \<open>The unit tests of the repository\<close>

text \<open>
  C40. The unit tests of the repository pass on the model: those of the command parser, of the
  commands, of the log and of the compaction, each run on a store opened in an empty directory,
  those of entries, records, memtables and the footers of tables, and those of the server, as
  sessions of its clients. Every test gives the answers, the output and the state it asserts, for
  every running clock and for every codec, checksum and hash with which the entries of the tests
  are usable and small, a value takes space, the bytes the tests call garbage are refused, no
  checksum is zero where the tests take it for that, and the hash tells the keys apart where they
  expect it to.
\<close>

theorem unit_tests:
  assumes "universe X test_entries" and "small X test_entries"
    and "faults w = []" and "wal w = []" and "ssts w = []" and "clock_ok (10 ^ 7) w"
    and "wincode_deserialize X garbage = None" and "crc32 X (payload X (Set ''a'' ''1'')) \<noteq> 0"
    and "esize X (Delete ''a'') < esize X (Set ''a'' ''1'')"
    and "\<forall>e \<in> {Set ''hello'' ''world'', Delete ''mykey'', Set ''key'' ''value'', Set ''a'' ''1'',
      Set ''b'' ''2'', Set ''c'' ''3'', Delete ''a''}. entry_ok X e"
    and "\<not> set (positions X (as_bytes ''z'') 10) \<subseteq> set (positions X (as_bytes ''a'') 10)"
  shows "list_all parses parse_tests \<and> list_all (passes_fresh X w) (execute_tests @ log_tests @ compact_tests) \<and>
    list_all (served X w) server_tests \<and>
    list_all id (entry_tests @ header_tests X w @ load_tests X w @ process_tests X w @ filter_tests X w)"
proof -
  have "list_all id (header_tests X w)"
    using assms(10) by (intro header_tests_pass [OF assms(3,4,7,8)]) simp
  moreover have "list_all id (load_tests X w)" "list_all id (process_tests X w)"
    using assms(10) by (intro memtable_tests_pass [OF assms(3,4,9)]; simp)+
  moreover have "list_all id (filter_tests X w)"
    using clock_ok_mono [OF assms(6)] by (intro filter_tests_pass [OF assms(1) _ assms(3-5) _ assms(11)]) (simp_all add: test_entries_def)
  moreover have "list_all (served X w) server_tests"
    by (rule server_tests_pass [OF assms(1) _ assms(3-6)]) (simp add: test_entries_def)
  ultimately show ?thesis using entry_tests_pass parse_tests_pass store_tests_pass [OF assms(1-6)] by simp
qed

theorem unit_tests_witness:
  "list_all parses parse_tests \<and>
    list_all (passes_fresh toy_one empty_world) (execute_tests @ log_tests @ compact_tests) \<and>
    list_all (served toy_one empty_world) server_tests \<and>
    list_all id (entry_tests @ header_tests toy_one empty_world @ load_tests toy_one empty_world @
      process_tests toy_one empty_world @ filter_tests toy_one empty_world)"
proof (rule unit_tests)
  show "universe toy_one test_entries" by (rule toy_one_universe)
  show "small toy_one test_entries" using toy_small by (simp add: small_def esize_def payload_def toy_one_def)
  show "clock_ok (10 ^ 7) empty_world" by (rule empty_clock_ok) simp
  show "wincode_deserialize toy_one garbage = None" by (rule toy_garbage)
  show "crc32 toy_one (payload toy_one (Set ''a'' ''1'')) \<noteq> 0" by (simp add: toy_one_def)
  show "esize toy_one (Delete ''a'') < esize toy_one (Set ''a'' ''1'')"
    by (simp add: esize_def payload_def toy_one_def toy_def)
  show "\<forall>e \<in> {Set ''hello'' ''world'', Delete ''mykey'', Set ''key'' ''value'', Set ''a'' ''1'',
      Set ''b'' ''2'', Set ''c'' ''3'', Delete ''a''}. entry_ok toy_one e"
    by (simp add: toy_one_entry_ok toy_entry_ok)
  show "\<not> set (positions toy_one (as_bytes ''z'') 10) \<subseteq> set (positions toy_one (as_bytes ''a'') 10)"
    by (rule toy_one_positions)
qed simp_all

end
